theory Spec2Isabelle
  imports Main "HOL-Library.Word"
begin

section \<open>Storage: raw blocks, placement construction, failure injection\<close>

text \<open>
  \<^verbatim>\<open>size_t\<close> is a 64-bit unsigned integer: \<open>+\<close>, \<open>-\<close> and \<open>*\<close> wrap around, which the
  source relies on in \<^verbatim>\<open>(ind - 1 + cap) % cap\<close>.

  A storage block obtained from \<^verbatim>\<open>operator new(n * sizeof(T))\<close> is a list of \<open>n\<close> slots; a
  slot is \<open>None\<close> while it is raw storage and \<open>Some v\<close> while it holds a live \<^verbatim>\<open>T\<close> with
  value \<open>v\<close>. (The byte count \<^verbatim>\<open>n * sizeof(T)\<close> is taken not to wrap.) The heap is the list
  of all blocks ever handed out, indexed by address; a released block is \<open>None\<close>, and
  addresses are never reused. A \<^verbatim>\<open>T*\<close> is \<open>Some address\<close>, and \<^verbatim>\<open>nullptr\<close> is \<open>None\<close>.

  \<open>faults\<close> scripts the environment: each call of \<^verbatim>\<open>operator new\<close> and each copy
  construction of a \<^verbatim>\<open>T\<close> consumes one entry, and fails (throws) when the entry is
  \<open>True\<close>; an exhausted script means no further failure. Copy assignment and destruction
  of a \<^verbatim>\<open>T\<close> do not throw. \<open>leaked\<close> is a ghost counter of live objects whose storage
  was released or overwritten without their destructor having run.
\<close>

type_synonym size_t = "64 word"

type_synonym 'a block = "'a option list"

record 'a heap =
  blocks :: "'a block option list"
  faults :: "bool list"
  leaked :: nat

datatype exn = Bad_alloc | Copy_failed

text \<open>
  How a call ends: it returns a value, an exception leaves it, an \<^verbatim>\<open>assert\<close> aborts the
  program, or the behaviour is undefined (access outside live storage, release of a
  block that is not allocated, \<^verbatim>\<open>% 0\<close>).
\<close>

datatype ('r, 's) outcome = Returns 'r 's | Throws exn 's | Assertion_failed | Undefined

fun bind :: "('r, 's) outcome \<Rightarrow> ('r \<Rightarrow> 's \<Rightarrow> ('q, 's) outcome) \<Rightarrow> ('q, 's) outcome" where
  "bind (Returns r s) f = f r s"
| "bind (Throws e s) f = Throws e s"
| "bind Assertion_failed f = Assertion_failed"
| "bind Undefined f = Undefined"

fun with_state :: "('r, 'h) outcome \<Rightarrow> ('h \<Rightarrow> 's) \<Rightarrow> ('r, 's) outcome" where
  "with_state (Returns r h) g = Returns r (g h)"
| "with_state (Throws e h) g = Throws e (g h)"
| "with_state Assertion_failed g = Assertion_failed"
| "with_state Undefined g = Undefined"

definition fails :: "'a heap \<Rightarrow> bool \<times> 'a heap" where
  "fails h = (case faults h of [] \<Rightarrow> (False, h) | b # bs \<Rightarrow> (b, h\<lparr>faults := bs\<rparr>))"

definition block_at :: "'a heap \<Rightarrow> nat option \<Rightarrow> 'a block option" where
  "block_at h p =
     (case p of None \<Rightarrow> None
      | Some a \<Rightarrow> if a < length (blocks h) then blocks h ! a else None)"

definition put_block :: "nat option \<Rightarrow> 'a block option \<Rightarrow> 'a heap \<Rightarrow> 'a heap" where
  "put_block p b h = (case p of None \<Rightarrow> h | Some a \<Rightarrow> h\<lparr>blocks := (blocks h)[a := b]\<rparr>)"

definition live_count :: "'a block \<Rightarrow> nat" where
  "live_count ss = length (filter (\<lambda>s. s \<noteq> None) ss)"

text \<open>\<^verbatim>\<open>static_cast<T*>(operator new(n * sizeof(T)))\<close>\<close>

definition operator_new :: "size_t \<Rightarrow> 'a heap \<Rightarrow> (nat option, 'a heap) outcome" where
  "operator_new n h =
     (case fails h of
        (True, h') \<Rightarrow> Throws Bad_alloc h'
      | (False, h') \<Rightarrow>
          Returns (Some (length (blocks h')))
            (h'\<lparr>blocks := blocks h' @ [Some (replicate (unat n) None)]\<rparr>))"

text \<open>\<^verbatim>\<open>operator delete(p)\<close>\<close>

definition operator_delete :: "nat option \<Rightarrow> 'a heap \<Rightarrow> (unit, 'a heap) outcome" where
  "operator_delete p h =
     (case p of None \<Rightarrow> Returns () h
      | Some a \<Rightarrow>
          (case block_at h p of None \<Rightarrow> Undefined
           | Some ss \<Rightarrow>
               Returns () ((put_block p None h)\<lparr>leaked := leaked h + live_count ss\<rparr>)))"

text \<open>Reading \<^verbatim>\<open>p[i]\<close>; \<open>None\<close> when there is no live object there.\<close>

definition load :: "nat option \<Rightarrow> size_t \<Rightarrow> 'a heap \<Rightarrow> 'a option" where
  "load p i h =
     (case block_at h p of None \<Rightarrow> None
      | Some ss \<Rightarrow> if unat i < length ss then ss ! unat i else None)"

text \<open>\<^verbatim>\<open>new (p + i) T(v)\<close>\<close>

definition placement_new :: "nat option \<Rightarrow> size_t \<Rightarrow> 'a \<Rightarrow> 'a heap \<Rightarrow> (unit, 'a heap) outcome" where
  "placement_new p i v h =
     (case block_at h p of None \<Rightarrow> Undefined
      | Some ss \<Rightarrow>
          if \<not> unat i < length ss then Undefined
          else (case fails h of
                  (True, h') \<Rightarrow> Throws Copy_failed h'
                | (False, h') \<Rightarrow>
                    Returns ()
                      ((put_block p (Some (ss[unat i := Some v])) h')
                         \<lparr>leaked := leaked h' + (if ss ! unat i = None then 0 else 1)\<rparr>)))"

text \<open>\<^verbatim>\<open>p[i].~T()\<close>\<close>

definition destroy :: "nat option \<Rightarrow> size_t \<Rightarrow> 'a heap \<Rightarrow> (unit, 'a heap) outcome" where
  "destroy p i h =
     (case block_at h p of None \<Rightarrow> Undefined
      | Some ss \<Rightarrow>
          (case load p i h of None \<Rightarrow> Undefined
           | Some v \<Rightarrow> Returns () (put_block p (Some (ss[unat i := None])) h)))"

text \<open>\<^verbatim>\<open>p[i] = v\<close>\<close>

definition assign :: "nat option \<Rightarrow> size_t \<Rightarrow> 'a \<Rightarrow> 'a heap \<Rightarrow> (unit, 'a heap) outcome" where
  "assign p i v h =
     (case block_at h p of None \<Rightarrow> Undefined
      | Some ss \<Rightarrow>
          (case load p i h of None \<Rightarrow> Undefined
           | Some w \<Rightarrow> Returns () (put_block p (Some (ss[unat i := Some v])) h)))"

text \<open>\<^verbatim>\<open>auto tmp = p[i]\<close>: a local copy of the element.\<close>

definition copy_local :: "nat option \<Rightarrow> size_t \<Rightarrow> 'a heap \<Rightarrow> ('a, 'a heap) outcome" where
  "copy_local p i h =
     (case load p i h of None \<Rightarrow> Undefined
      | Some v \<Rightarrow>
          (case fails h of
             (True, h') \<Rightarrow> Throws Copy_failed h'
           | (False, h') \<Rightarrow> Returns v h'))"

section \<open>The container\<close>

record circular_buffer =
  sz :: size_t
  cap :: size_t
  data :: "nat option"
  ind_begin :: size_t
  ind_end :: size_t

type_synonym 'a state = "'a heap \<times> circular_buffer"

text \<open>\<^verbatim>\<open>circular_buffer()\<close>\<close>

definition circular_buffer_new :: circular_buffer where
  "circular_buffer_new = \<lparr>sz = 0, cap = 0, data = None, ind_begin = 0, ind_end = 0\<rparr>"

definition size_cb :: "circular_buffer \<Rightarrow> size_t" where
  "size_cb c = sz c"

definition empty_cb :: "circular_buffer \<Rightarrow> bool" where
  "empty_cb c = (sz c = 0)"

definition back_cb :: "'a state \<Rightarrow> ('a, 'a state) outcome" where
  "back_cb s =
     (let (h, c) = s in
      if \<not> sz c > 0 then Assertion_failed
      else if cap c = 0 then Undefined
      else (case load (data c) ((ind_end c - 1 + cap c) mod cap c) h of
              None \<Rightarrow> Undefined
            | Some v \<Rightarrow> Returns v s))"

definition front :: "'a state \<Rightarrow> ('a, 'a state) outcome" where
  "front s =
     (let (h, c) = s in
      if \<not> sz c > 0 then Assertion_failed
      else (case load (data c) (ind_begin c) h of
              None \<Rightarrow> Undefined
            | Some v \<Rightarrow> Returns v s))"

definition pop_back :: "'a state \<Rightarrow> (unit, 'a state) outcome" where
  "pop_back s =
     (let (h, c) = s in
      if \<not> sz c > 0 then Assertion_failed
      else if cap c = 0 then Undefined
      else let c1 = c\<lparr>sz := sz c - 1\<rparr>;
               c2 = c1\<lparr>ind_end := (ind_end c1 - 1 + cap c1) mod cap c1\<rparr>
           in with_state (destroy (data c2) (ind_end c2) h) (\<lambda>h'. (h', c2)))"

definition pop_front :: "'a state \<Rightarrow> (unit, 'a state) outcome" where
  "pop_front s =
     (let (h, c) = s in
      if \<not> sz c > 0 then Assertion_failed
      else let c1 = c\<lparr>sz := sz c - 1\<rparr> in
           bind (with_state (destroy (data c1) (ind_begin c1) h) (\<lambda>h'. (h', c1)))
             (\<lambda>_ (h', c1).
                if cap c1 = 0 then Undefined
                else Returns () (h', c1\<lparr>ind_begin := (ind_begin c1 + 1) mod cap c1\<rparr>)))"

text \<open>
  A \<^verbatim>\<open>T const&\<close> argument. It refers either to an object that lives outside the blocks
  (a local, a temporary), whose value is fixed, or to the slot \<^verbatim>\<open>p[i]\<close> of a block.
  Reading it yields the object it refers to at that moment: nothing when the slot holds
  no object or the block has been released.
\<close>

datatype 'a cref = Object 'a | Element "nat option" size_t

definition read :: "'a cref \<Rightarrow> 'a heap \<Rightarrow> 'a option" where
  "read r h = (case r of Object v \<Rightarrow> Some v | Element p i \<Rightarrow> load p i h)"

text \<open>
  \<^verbatim>\<open>new (p + i) T(r)\<close>: the copy constructor reads the object \<^verbatim>\<open>r\<close> refers to; a
  reference that no longer refers to an object makes the call undefined.
\<close>

definition copy_construct ::
    "nat option \<Rightarrow> size_t \<Rightarrow> 'a cref \<Rightarrow> 'a heap \<Rightarrow> (unit, 'a heap) outcome" where
  "copy_construct p i r h =
     (case read r h of None \<Rightarrow> Undefined | Some v \<Rightarrow> placement_new p i v h)"

text \<open>
  \<^verbatim>\<open>operator[]\<close> returns a reference to the slot; \<open>index_ref\<close> is the call, \<open>index\<close> the
  call followed by a read of the element.
\<close>

definition index_ref :: "size_t \<Rightarrow> 'a state \<Rightarrow> ('a cref, 'a state) outcome" where
  "index_ref i s =
     (let (h, c) = s in
      if \<not> i < sz c then Assertion_failed
      else if cap c = 0 then Undefined
      else Returns (Element (data c) ((ind_begin c + i) mod cap c)) s)"

definition index :: "size_t \<Rightarrow> 'a state \<Rightarrow> ('a, 'a state) outcome" where
  "index i s =
     (let (h, c) = s in
      if \<not> i < sz c then Assertion_failed
      else if cap c = 0 then Undefined
      else (case load (data c) ((ind_begin c + i) mod cap c) h of
              None \<Rightarrow> Undefined
            | Some v \<Rightarrow> Returns v s))"

text \<open>\<^verbatim>\<open>swap\<close>: five \<^verbatim>\<open>std::swap\<close>s of scalar fields, one after the other.\<close>

definition swap_cb :: "'a heap \<times> circular_buffer \<times> circular_buffer
    \<Rightarrow> (unit, 'a heap \<times> circular_buffer \<times> circular_buffer) outcome" where
  "swap_cb s =
     (let (h, this, oth) = s;
          (this, oth) = (this\<lparr>sz := sz oth\<rparr>, oth\<lparr>sz := sz this\<rparr>);
          (this, oth) = (this\<lparr>cap := cap oth\<rparr>, oth\<lparr>cap := cap this\<rparr>);
          (this, oth) = (this\<lparr>data := data oth\<rparr>, oth\<lparr>data := data this\<rparr>);
          (this, oth) = (this\<lparr>ind_begin := ind_begin oth\<rparr>, oth\<lparr>ind_begin := ind_begin this\<rparr>);
          (this, oth) = (this\<lparr>ind_end := ind_end oth\<rparr>, oth\<lparr>ind_end := ind_end this\<rparr>)
      in Returns () (h, this, oth))"

text \<open>The free function \<^verbatim>\<open>swap(a, b)\<close> calls \<^verbatim>\<open>a.swap(b)\<close>.\<close>

definition swap_free :: "'a heap \<times> circular_buffer \<times> circular_buffer
    \<Rightarrow> (unit, 'a heap \<times> circular_buffer \<times> circular_buffer) outcome" where
  "swap_free s = swap_cb s"

text \<open>
  \<^verbatim>\<open>clear\<close>: pop until empty, release the block, reset the fields. The destructor
  \<^verbatim>\<open>~circular_buffer\<close> is a call of \<^verbatim>\<open>clear\<close>.
\<close>

function clear_loop :: "'a state \<Rightarrow> (unit, 'a state) outcome" where
  "clear_loop s =
     (if sz (snd s) > 0
      then (case pop_back s of
              Returns _ s' \<Rightarrow> clear_loop s'
            | Throws e s' \<Rightarrow> Throws e s'
            | Assertion_failed \<Rightarrow> Assertion_failed
            | Undefined \<Rightarrow> Undefined)
      else Returns () s)"
  by pat_completeness auto
termination
proof (relation "measure (\<lambda>s. unat (sz (snd s)))")
  show "wf (measure (\<lambda>s. unat (sz (snd s))))" by simp
next
  fix s :: "'a state" and x1 and s' :: "'a state"
  assume pos: "0 < sz (snd s)" and pop: "pop_back s = Returns x1 s'"
  from pop have "sz (snd s') = sz (snd s) - 1"
    by (cases "destroy (data (snd s)) ((ind_end (snd s) - 1 + cap (snd s)) mod cap (snd s)) (fst s)")
      (auto simp: pop_back_def Let_def split: prod.splits if_splits)
  moreover from pos have "unat (sz (snd s) - 1) < unat (sz (snd s))"
    by unat_arith
  ultimately show "(s', s) \<in> measure (\<lambda>s. unat (sz (snd s)))" by simp
qed

definition clear :: "'a state \<Rightarrow> (unit, 'a state) outcome" where
  "clear s =
     bind (clear_loop s)
       (\<lambda>_ (h, c).
          bind (with_state (operator_delete (data c) h) (\<lambda>h'. (h', c)))
            (\<lambda>_ (h', c).
               Returns () (h', c\<lparr>sz := 0, cap := 0, ind_begin := 0, ind_end := 0, data := None\<rparr>)))"

text \<open>\<^verbatim>\<open>~circular_buffer\<close>: \<^verbatim>\<open>clear()\<close>, after which the object is gone.\<close>

definition destructor :: "'a state \<Rightarrow> (unit, 'a heap) outcome" where
  "destructor s = with_state (clear s) fst"

text \<open>
  An exception leaves a scope that owns a local container: the local's destructor
  runs, then the exception goes on to the caller.
\<close>

definition unwind :: "exn \<Rightarrow> 'a state \<Rightarrow> ('r, 'a heap) outcome" where
  "unwind e local =
     (case destructor local of
        Returns _ h \<Rightarrow> Throws e h
      | Throws e' h \<Rightarrow> Throws e' h
      | Assertion_failed \<Rightarrow> Assertion_failed
      | Undefined \<Rightarrow> Undefined)"

text \<open>
  \<^verbatim>\<open>reserve\<close>. The loop copy-constructs element \<open>i\<close> of \<^verbatim>\<open>*this\<close> at
  \<^verbatim>\<open>tmp.data + tmp.ind_end\<close>; its state is the heap and \<^verbatim>\<open>tmp\<close>.
\<close>

function reserve_loop :: "size_t \<Rightarrow> circular_buffer \<Rightarrow> 'a state \<Rightarrow> (unit, 'a state) outcome" where
  "reserve_loop i this s =
     (let (h, tmp) = s in
      if i < sz this
      then if cap this = 0 then Undefined
           else (case load (data this) ((ind_begin this + i) mod cap this) h of
                   None \<Rightarrow> Undefined
                 | Some v \<Rightarrow>
                     (case placement_new (data tmp) (ind_end tmp) v h of
                        Returns _ h' \<Rightarrow>
                          reserve_loop (i + 1) this
                            (h', tmp\<lparr>ind_end := ind_end tmp + 1, sz := sz tmp + 1\<rparr>)
                      | Throws e h' \<Rightarrow> Throws e (h', tmp)
                      | Assertion_failed \<Rightarrow> Assertion_failed
                      | Undefined \<Rightarrow> Undefined))
      else Returns () s)"
  by pat_completeness auto
termination
proof (relation "measure (\<lambda>(i, this, s). unat (sz this) - unat i)")
  show "wf (measure (\<lambda>(i, this, s). unat (sz this) - unat i))" by simp
next
  fix i :: size_t and this :: circular_buffer and s :: "'a state" and x h' tmp
  assume "i < sz this"
  then have "unat (i + 1) = unat i + 1" and "unat i < unat (sz this)"
    by unat_arith+
  then show "((i + 1, this, h', tmp\<lparr>ind_end := ind_end tmp + 1, sz := sz tmp + 1\<rparr>), i, this, s)
      \<in> measure (\<lambda>(i, this, s). unat (sz this) - unat i)"
    by simp
qed

definition reserve :: "size_t \<Rightarrow> 'a state \<Rightarrow> (unit, 'a state) outcome" where
  "reserve n s =
     (let (h, this) = s in
      if sz this \<ge> n then Returns () s
      else let tmp = circular_buffer_new\<lparr>cap := n\<rparr> in
           (case operator_new n h of
              Returns p h1 \<Rightarrow>
                (case reserve_loop 0 this (h1, tmp\<lparr>data := p\<rparr>) of
                   Returns _ (h2, tmp2) \<Rightarrow>
                     (case swap_cb (h2, this, tmp2) of
                        Returns _ (h3, this3, tmp3) \<Rightarrow>
                          with_state (destructor (h3, tmp3)) (\<lambda>h4. (h4, this3))
                      | Throws e (h3, this3, tmp3) \<Rightarrow> with_state (unwind e (h3, tmp3)) (\<lambda>h4. (h4, this3))
                      | Assertion_failed \<Rightarrow> Assertion_failed
                      | Undefined \<Rightarrow> Undefined)
                 | Throws e (h2, tmp2) \<Rightarrow> with_state (unwind e (h2, tmp2)) (\<lambda>h3. (h3, this))
                 | Assertion_failed \<Rightarrow> Assertion_failed
                 | Undefined \<Rightarrow> Undefined)
            | Throws e h1 \<Rightarrow> with_state (unwind e (h1, tmp)) (\<lambda>h2. (h2, this))
            | Assertion_failed \<Rightarrow> Assertion_failed
            | Undefined \<Rightarrow> Undefined))"

text \<open>
  \<^verbatim>\<open>push_back(T const& val)\<close> and \<^verbatim>\<open>push_front(T const& val)\<close>. The argument is a
  reference, and it is read by the placement \<^verbatim>\<open>new\<close>, after \<^verbatim>\<open>reserve\<close> has run: when
  \<^verbatim>\<open>reserve\<close> has moved the elements, a reference to an element of this container
  points into the block that has been released.
\<close>

definition push_back :: "'a cref \<Rightarrow> 'a state \<Rightarrow> (unit, 'a state) outcome" where
  "push_back val s =
     bind (if empty_cb (snd s) then reserve 4 s
           else if sz (snd s) = cap (snd s) - 1 then reserve (cap (snd s) * 2) s
           else Returns () s)
       (\<lambda>_ (h, c).
          bind (with_state (copy_construct (data c) (ind_end c) val h) (\<lambda>h'. (h', c)))
            (\<lambda>_ (h', c).
               if cap c = 0 then Undefined
               else let c1 = c\<lparr>ind_end := (ind_end c + 1) mod cap c\<rparr>
                    in Returns () (h', c1\<lparr>sz := sz c1 + 1\<rparr>)))"

definition push_front :: "'a cref \<Rightarrow> 'a state \<Rightarrow> (unit, 'a state) outcome" where
  "push_front val s =
     bind (if empty_cb (snd s) then reserve 4 s
           else if sz (snd s) = cap (snd s) - 1 then reserve (sz (snd s) * 2) s
           else Returns () s)
       (\<lambda>_ (h, c).
          if cap c = 0 then Undefined
          else bind (with_state
                 (copy_construct (data c) ((ind_begin c - 1 + cap c) mod cap c) val h)
                 (\<lambda>h'. (h', c)))
            (\<lambda>_ (h', c).
               let c1 = c\<lparr>ind_begin := (ind_begin c - 1 + cap c) mod cap c\<rparr>
               in Returns () (h', c1\<lparr>sz := sz c1 + 1\<rparr>)))"

text \<open>
  The copy constructor: \<^verbatim>\<open>circular_buffer()\<close>, then \<^verbatim>\<open>push_back(oth[i])\<close> for each
  \<open>i\<close>. When a push throws, the delegated-to constructor has completed, so the
  destructor of the new object runs before the exception leaves.
\<close>

function copy_loop :: "size_t \<Rightarrow> circular_buffer \<Rightarrow> 'a state \<Rightarrow> (unit, 'a state) outcome" where
  "copy_loop i oth s =
     (if i < size_cb oth
      then (case index_ref i (fst s, oth) of
              Returns r _ \<Rightarrow>
                (case push_back r s of
                   Returns _ s' \<Rightarrow> copy_loop (i + 1) oth s'
                 | Throws e s' \<Rightarrow> Throws e s'
                 | Assertion_failed \<Rightarrow> Assertion_failed
                 | Undefined \<Rightarrow> Undefined)
            | Throws e _ \<Rightarrow> Throws e s
            | Assertion_failed \<Rightarrow> Assertion_failed
            | Undefined \<Rightarrow> Undefined)
      else Returns () s)"
  by pat_completeness auto
termination
proof (relation "measure (\<lambda>(i, oth, s). unat (sz oth) - unat i)")
  show "wf (measure (\<lambda>(i, oth, s). unat (sz oth) - unat i))" by simp
next
  fix i :: size_t and oth :: circular_buffer and s s' :: "'a state"
  assume "i < size_cb oth"
  then have "i < sz oth" by (simp add: size_cb_def)
  then have "unat (i + 1) = unat i + 1" and "unat i < unat (sz oth)"
    by unat_arith+
  then show "((i + 1, oth, s'), i, oth, s) \<in> measure (\<lambda>(i, oth, s). unat (sz oth) - unat i)"
    by simp
qed

definition copy_constructor :: "circular_buffer \<Rightarrow> 'a heap \<Rightarrow> (circular_buffer, 'a heap) outcome" where
  "copy_constructor oth h =
     (case copy_loop 0 oth (h, circular_buffer_new) of
        Returns _ (h', this) \<Rightarrow> Returns this h'
      | Throws e s' \<Rightarrow> unwind e s'
      | Assertion_failed \<Rightarrow> Assertion_failed
      | Undefined \<Rightarrow> Undefined)"

text \<open>\<^verbatim>\<open>operator=\<close>: copy into \<^verbatim>\<open>tmp\<close>, swap, and \<^verbatim>\<open>tmp\<close> takes the old storage away.\<close>

definition copy_assignment :: "circular_buffer \<Rightarrow> 'a state \<Rightarrow> (unit, 'a state) outcome" where
  "copy_assignment oth s =
     (let (h, this) = s in
      case copy_constructor oth h of
        Returns tmp h1 \<Rightarrow>
          (case swap_cb (h1, this, tmp) of
             Returns _ (h2, this2, tmp2) \<Rightarrow>
               with_state (destructor (h2, tmp2)) (\<lambda>h3. (h3, this2))
           | Throws e (h2, this2, tmp2) \<Rightarrow> with_state (unwind e (h2, tmp2)) (\<lambda>h3. (h3, this2))
           | Assertion_failed \<Rightarrow> Assertion_failed
           | Undefined \<Rightarrow> Undefined)
      | Throws e h1 \<Rightarrow> Throws e (h1, this)
      | Assertion_failed \<Rightarrow> Assertion_failed
      | Undefined \<Rightarrow> Undefined)"

section \<open>Iterators\<close>

text \<open>
  \<^verbatim>\<open>basic_iterator\<close>: the fields \<^verbatim>\<open>ind\<close>, \<^verbatim>\<open>cap\<close>, \<^verbatim>\<open>data\<close>, \<^verbatim>\<open>ind_begin\<close>. Every
  operator that computes \<^verbatim>\<open>% cap\<close> is undefined (\<open>None\<close>) on an iterator with
  \<^verbatim>\<open>cap == 0\<close>.
\<close>

record basic_iterator =
  it_ind :: size_t
  it_cap :: size_t
  it_data :: "nat option"
  it_ind_begin :: size_t

definition begin_cb :: "circular_buffer \<Rightarrow> basic_iterator" where
  "begin_cb c = \<lparr>it_ind = ind_begin c, it_cap = cap c, it_data = data c, it_ind_begin = ind_begin c\<rparr>"

definition end_cb :: "circular_buffer \<Rightarrow> basic_iterator" where
  "end_cb c = \<lparr>it_ind = ind_end c, it_cap = cap c, it_data = data c, it_ind_begin = ind_begin c\<rparr>"

text \<open>\<^verbatim>\<open>operator++\<close> and \<^verbatim>\<open>operator--\<close>, as the iterator they leave behind.\<close>

definition inc :: "basic_iterator \<Rightarrow> basic_iterator option" where
  "inc it = (if it_cap it = 0 then None
             else Some (it\<lparr>it_ind := (it_ind it + 1) mod it_cap it\<rparr>))"

definition dec :: "basic_iterator \<Rightarrow> basic_iterator option" where
  "dec it = (if it_cap it = 0 then None
             else Some (it\<lparr>it_ind := (it_ind it - 1 + it_cap it) mod it_cap it\<rparr>))"

text \<open>\<^verbatim>\<open>operator==\<close>, \<^verbatim>\<open>operator!=\<close>\<close>

definition iter_eq :: "basic_iterator \<Rightarrow> basic_iterator \<Rightarrow> bool" where
  "iter_eq a b = (it_ind a = it_ind b \<and> it_data a = it_data b)"

definition iter_neq :: "basic_iterator \<Rightarrow> basic_iterator \<Rightarrow> bool" where
  "iter_neq a b = (\<not> iter_eq a b)"

definition get_pos :: "basic_iterator \<Rightarrow> size_t option" where
  "get_pos it = (if it_cap it = 0 then None
                 else Some ((it_ind it + it_cap it - it_ind_begin it) mod it_cap it))"

text \<open>\<^verbatim>\<open>operator<\<close>, \<^verbatim>\<open>operator<=\<close>, \<^verbatim>\<open>operator>\<close>, \<^verbatim>\<open>operator>=\<close>\<close>

definition iter_less :: "basic_iterator \<Rightarrow> basic_iterator \<Rightarrow> bool option" where
  "iter_less a b =
     (case get_pos a of None \<Rightarrow> None
      | Some x \<Rightarrow> (case get_pos b of None \<Rightarrow> None | Some y \<Rightarrow> Some (x < y)))"

definition iter_less_eq :: "basic_iterator \<Rightarrow> basic_iterator \<Rightarrow> bool option" where
  "iter_less_eq a b =
     (case iter_less a b of None \<Rightarrow> None
      | Some lt \<Rightarrow> Some (lt \<or> iter_eq a b))"

definition iter_greater :: "basic_iterator \<Rightarrow> basic_iterator \<Rightarrow> bool option" where
  "iter_greater a b = map_option Not (iter_less_eq a b)"

definition iter_greater_eq :: "basic_iterator \<Rightarrow> basic_iterator \<Rightarrow> bool option" where
  "iter_greater_eq a b = map_option Not (iter_less a b)"

text \<open>\<^verbatim>\<open>it + ch\<close>, \<^verbatim>\<open>it - ch\<close>\<close>

definition iter_plus :: "basic_iterator \<Rightarrow> size_t \<Rightarrow> basic_iterator option" where
  "iter_plus it ch =
     (if it_cap it = 0 then None
      else Some \<lparr>it_ind = (it_ind it + ch) mod it_cap it, it_cap = it_cap it,
                 it_data = it_data it, it_ind_begin = it_ind_begin it\<rparr>)"

definition iter_minus :: "basic_iterator \<Rightarrow> size_t \<Rightarrow> basic_iterator option" where
  "iter_minus it ch =
     (if it_cap it = 0 then None
      else Some \<lparr>it_ind = (it_ind it - ch + it_cap it) mod it_cap it, it_cap = it_cap it,
                 it_data = it_data it, it_ind_begin = it_ind_begin it\<rparr>)"

text \<open>
  \<^verbatim>\<open>a - b\<close>: the \<^verbatim>\<open>size_t\<close> difference of the two positions, converted to the signed
  \<^verbatim>\<open>difference_type\<close>.
\<close>

definition iter_diff :: "basic_iterator \<Rightarrow> basic_iterator \<Rightarrow> int option" where
  "iter_diff a b =
     (case get_pos a of None \<Rightarrow> None
      | Some x \<Rightarrow> (case get_pos b of None \<Rightarrow> None | Some y \<Rightarrow> Some (sint (x - y))))"

section \<open>Insertion and removal at a position\<close>

text \<open>
  The body shared by the four loops:
  \<^verbatim>\<open>auto tmp = *it1; *it1 = *it2; *it2 = tmp;\<close>
\<close>

definition swap_values :: "basic_iterator \<Rightarrow> basic_iterator \<Rightarrow> 'a heap \<Rightarrow> (unit, 'a heap) outcome" where
  "swap_values it1 it2 h =
     bind (copy_local (it_data it1) (it_ind it1) h)
       (\<lambda>tmp h1.
          (case load (it_data it2) (it_ind it2) h1 of
             None \<Rightarrow> Undefined
           | Some v2 \<Rightarrow>
               bind (assign (it_data it1) (it_ind it1) v2 h1)
                 (\<lambda>_ h2. assign (it_data it2) (it_ind it2) tmp h2)))"

text \<open>
  The loops end when \<^verbatim>\<open>it2\<close> meets the position they walk to; a loop that never meets
  it does not return, which is the value \<open>None\<close>.
\<close>

partial_function (option) insert_front_loop ::
    "basic_iterator \<Rightarrow> basic_iterator \<Rightarrow> basic_iterator \<Rightarrow> 'a state
      \<Rightarrow> (basic_iterator, 'a state) outcome option" where
  "insert_front_loop it1 it2 pos s =
     (if iter_neq it2 pos
      then (case swap_values it1 it2 (fst s) of
              Returns _ h' \<Rightarrow>
                (case inc it1 of None \<Rightarrow> Some Undefined
                 | Some it1' \<Rightarrow>
                     (case inc it2 of None \<Rightarrow> Some Undefined
                      | Some it2' \<Rightarrow> insert_front_loop it1' it2' pos (h', snd s)))
            | Throws e h' \<Rightarrow> Some (Throws e (h', snd s))
            | Assertion_failed \<Rightarrow> Some Assertion_failed
            | Undefined \<Rightarrow> Some Undefined)
      else Some (Returns it1 s))"

partial_function (option) insert_back_loop ::
    "basic_iterator \<Rightarrow> basic_iterator \<Rightarrow> basic_iterator \<Rightarrow> 'a state
      \<Rightarrow> (basic_iterator, 'a state) outcome option" where
  "insert_back_loop it1 it2 pos s =
     (if iter_neq it2 pos
      then (case swap_values it1 it2 (fst s) of
              Returns _ h' \<Rightarrow>
                (case dec it1 of None \<Rightarrow> Some Undefined
                 | Some it1' \<Rightarrow>
                     (case dec it2 of None \<Rightarrow> Some Undefined
                      | Some it2' \<Rightarrow> insert_back_loop it1' it2' pos (h', snd s)))
            | Throws e h' \<Rightarrow> Some (Throws e (h', snd s))
            | Assertion_failed \<Rightarrow> Some Assertion_failed
            | Undefined \<Rightarrow> Some Undefined)
      else Some (Returns it2 s))"

definition insert_cb ::
    "basic_iterator \<Rightarrow> 'a cref \<Rightarrow> 'a state \<Rightarrow> (basic_iterator, 'a state) outcome option" where
  "insert_cb pos val s =
     (if iter_eq pos (begin_cb (snd s))
      then Some (bind (push_front val s) (\<lambda>_ s'. Returns (begin_cb (snd s')) s'))
      else if iter_eq pos (end_cb (snd s))
      then Some (bind (push_back val s)
             (\<lambda>_ s'. case dec (end_cb (snd s')) of
                        None \<Rightarrow> Undefined
                      | Some it \<Rightarrow> Returns it s'))
      else (case get_pos pos of
              None \<Rightarrow> Some Undefined
            | Some p \<Rightarrow>
                if p \<le> sz (snd s) div 2
                then (case push_front val s of
                        Returns _ s' \<Rightarrow>
                          (case inc (begin_cb (snd s')) of
                             None \<Rightarrow> Some Undefined
                           | Some it2 \<Rightarrow> insert_front_loop (begin_cb (snd s')) it2 pos s')
                      | Throws e s' \<Rightarrow> Some (Throws e s')
                      | Assertion_failed \<Rightarrow> Some Assertion_failed
                      | Undefined \<Rightarrow> Some Undefined)
                else (case push_back val s of
                        Returns _ s' \<Rightarrow>
                          (case dec (end_cb (snd s')) of
                             None \<Rightarrow> Some Undefined
                           | Some it2 \<Rightarrow>
                               (case dec it2 of
                                  None \<Rightarrow> Some Undefined
                                | Some it1 \<Rightarrow> insert_back_loop it1 it2 pos s'))
                      | Throws e s' \<Rightarrow> Some (Throws e s')
                      | Assertion_failed \<Rightarrow> Some Assertion_failed
                      | Undefined \<Rightarrow> Some Undefined)))"

partial_function (option) erase_front_loop ::
    "basic_iterator \<Rightarrow> 'a state \<Rightarrow> (unit, 'a state) outcome option" where
  "erase_front_loop it2 s =
     (if iter_neq it2 (begin_cb (snd s))
      then (case iter_minus it2 1 of
              None \<Rightarrow> Some Undefined
            | Some it1 \<Rightarrow>
                (case swap_values it1 it2 (fst s) of
                   Returns _ h' \<Rightarrow>
                     (case dec it2 of None \<Rightarrow> Some Undefined
                      | Some it2' \<Rightarrow> erase_front_loop it2' (h', snd s))
                 | Throws e h' \<Rightarrow> Some (Throws e (h', snd s))
                 | Assertion_failed \<Rightarrow> Some Assertion_failed
                 | Undefined \<Rightarrow> Some Undefined))
      else Some (Returns () s))"

partial_function (option) erase_back_loop ::
    "basic_iterator \<Rightarrow> basic_iterator \<Rightarrow> 'a state \<Rightarrow> (unit, 'a state) outcome option" where
  "erase_back_loop it1 it2 s =
     (if iter_neq it2 (end_cb (snd s))
      then (case swap_values it1 it2 (fst s) of
              Returns _ h' \<Rightarrow>
                (case inc it1 of None \<Rightarrow> Some Undefined
                 | Some it1' \<Rightarrow>
                     (case inc it2 of None \<Rightarrow> Some Undefined
                      | Some it2' \<Rightarrow> erase_back_loop it1' it2' (h', snd s)))
            | Throws e h' \<Rightarrow> Some (Throws e (h', snd s))
            | Assertion_failed \<Rightarrow> Some Assertion_failed
            | Undefined \<Rightarrow> Some Undefined)
      else Some (Returns () s))"

definition erase ::
    "basic_iterator \<Rightarrow> 'a state \<Rightarrow> (basic_iterator, 'a state) outcome option" where
  "erase pos s =
     (case get_pos pos of
        None \<Rightarrow> Some Undefined
      | Some ind_pos_relative \<Rightarrow>
          if \<not> ind_pos_relative < sz (snd s) then Some Assertion_failed
          else if iter_eq pos (begin_cb (snd s))
          then Some (bind (pop_front s) (\<lambda>_ s'. Returns (begin_cb (snd s')) s'))
          else (case dec (end_cb (snd s)) of
                  None \<Rightarrow> Some Undefined
                | Some lst \<Rightarrow>
                    if iter_eq pos lst
                    then Some (bind (pop_back s)
                           (\<lambda>_ s'. case dec (end_cb (snd s')) of
                                      None \<Rightarrow> Undefined
                                    | Some it \<Rightarrow> Returns it s'))
                    else if cap (snd s) = 0 then Some Undefined
                    else let c = snd s;
                             ind_pos_mem = (ind_pos_relative + ind_begin c) mod cap c;
                             it = \<lparr>it_ind = ind_pos_mem, it_cap = cap c, it_data = data c,
                                   it_ind_begin = ind_begin c\<rparr>
                         in if ind_pos_relative \<le> sz c div 2
                            then (case erase_front_loop it s of
                                    None \<Rightarrow> None
                                  | Some (Returns _ s1) \<Rightarrow>
                                      Some (bind (pop_front s1)
                                        (\<lambda>_ s2. case iter_plus
                                              \<lparr>it_ind = ind_pos_mem, it_cap = cap (snd s2),
                                               it_data = data (snd s2),
                                               it_ind_begin = ind_begin (snd s2)\<rparr> 1 of
                                            None \<Rightarrow> Undefined
                                          | Some r \<Rightarrow> Returns r s2))
                                  | Some (Throws e s1) \<Rightarrow> Some (Throws e s1)
                                  | Some Assertion_failed \<Rightarrow> Some Assertion_failed
                                  | Some Undefined \<Rightarrow> Some Undefined)
                            else (case iter_plus it 1 of
                                    None \<Rightarrow> Some Undefined
                                  | Some it2 \<Rightarrow>
                                      (case erase_back_loop it it2 s of
                                         None \<Rightarrow> None
                                       | Some (Returns _ s1) \<Rightarrow>
                                           Some (bind (pop_back s1)
                                             (\<lambda>_ s2. Returns
                                                \<lparr>it_ind = ind_pos_mem, it_cap = cap (snd s2),
                                                 it_data = data (snd s2),
                                                 it_ind_begin = ind_begin (snd s2)\<rparr> s2))
                                       | Some (Throws e s1) \<Rightarrow> Some (Throws e s1)
                                       | Some Assertion_failed \<Rightarrow> Some Assertion_failed
                                       | Some Undefined \<Rightarrow> Some Undefined))))"

section \<open>Operation sequences and the list model\<close>

text \<open>
  A sequence of operations on one container in which every pushed value is an object of
  its own, outside the container.
\<close>

datatype 'a op = Push_back 'a | Push_front 'a | Pop_back | Pop_front

fun exec :: "'a op \<Rightarrow> 'a state \<Rightarrow> (unit, 'a state) outcome" where
  "exec (Push_back v) s = push_back (Object v) s"
| "exec (Push_front v) s = push_front (Object v) s"
| "exec Pop_back s = pop_back s"
| "exec Pop_front s = pop_front s"

fun run :: "'a op list \<Rightarrow> 'a state \<Rightarrow> (unit, 'a state) outcome" where
  "run [] s = Returns () s"
| "run (x # xs) s = bind (exec x s) (\<lambda>_ s'. run xs s')"

text \<open>
  The plain double-ended list the specification compares the container with; a pop of
  the empty list is outside the model (\<open>None\<close>).
\<close>

fun model_step :: "'a op \<Rightarrow> 'a list \<Rightarrow> 'a list option" where
  "model_step (Push_back v) xs = Some (xs @ [v])"
| "model_step (Push_front v) xs = Some (v # xs)"
| "model_step Pop_back xs = (if xs = [] then None else Some (butlast xs))"
| "model_step Pop_front xs = (if xs = [] then None else Some (tl xs))"

fun model_run :: "'a op list \<Rightarrow> 'a list \<Rightarrow> 'a list option" where
  "model_run [] xs = Some xs"
| "model_run (x # ops) xs =
     (case model_step x xs of None \<Rightarrow> None | Some ys \<Rightarrow> model_run ops ys)"

text \<open>All public mutating operations, with the state an ended call leaves behind.\<close>

datatype 'a call =
    Call_push_back "'a cref"
  | Call_push_front "'a cref"
  | Call_pop_back
  | Call_pop_front
  | Call_insert basic_iterator "'a cref"
  | Call_erase basic_iterator
  | Call_clear
  | Call_copy_assignment circular_buffer

fun forget :: "('r, 's) outcome \<Rightarrow> (unit, 's) outcome" where
  "forget (Returns r s) = Returns () s"
| "forget (Throws e s) = Throws e s"
| "forget Assertion_failed = Assertion_failed"
| "forget Undefined = Undefined"

fun perform :: "'a call \<Rightarrow> 'a state \<Rightarrow> (unit, 'a state) outcome option" where
  "perform (Call_push_back v) s = Some (push_back v s)"
| "perform (Call_push_front v) s = Some (push_front v s)"
| "perform Call_pop_back s = Some (pop_back s)"
| "perform Call_pop_front s = Some (pop_front s)"
| "perform (Call_insert pos v) s = map_option forget (insert_cb pos v s)"
| "perform (Call_erase pos) s = map_option forget (erase pos s)"
| "perform Call_clear s = Some (clear s)"
| "perform (Call_copy_assignment oth) s = Some (copy_assignment oth s)"

fun state_after :: "('r, 's) outcome option \<Rightarrow> 's option" where
  "state_after (Some (Returns r s)) = Some s"
| "state_after (Some (Throws e s)) = Some s"
| "state_after _ = None"

section \<open>Invariants and abstraction\<close>

text \<open>Invariant 1 of the specification.\<close>

definition invariant1 :: "circular_buffer \<Rightarrow> bool" where
  "invariant1 c = (if cap c > 0 then sz c < cap c else sz c = 0 \<and> data c = None)"

text \<open>
  Slot \<open>j\<close> of the block lies in the live range: its distance from \<^verbatim>\<open>ind_begin\<close>, going
  round the ring, is less than the size.
\<close>

definition live_at :: "circular_buffer \<Rightarrow> nat \<Rightarrow> bool" where
  "live_at c j = ((j + unat (cap c) - unat (ind_begin c)) mod unat (cap c) < unat (sz c))"

text \<open>
  The representation invariant (invariants 1 to 3 of the specification, and ownership
  of the block): either the default-constructed state, or a block of \<^verbatim>\<open>cap\<close> slots of
  which exactly those of the live range hold an element. The capacity is at most
  \<open>2\<^sup>6\<^sup>3\<close>, where the ring arithmetic on \<^verbatim>\<open>size_t\<close> does not wrap.
\<close>

definition valid :: "'a heap \<Rightarrow> circular_buffer \<Rightarrow> bool" where
  "valid h c =
     (if cap c = 0 then sz c = 0 \<and> data c = None \<and> ind_begin c = 0 \<and> ind_end c = 0
      else cap c \<le> 2 ^ 63 \<and> sz c < cap c \<and> ind_begin c < cap c
         \<and> unat (ind_end c) = (unat (ind_begin c) + unat (sz c)) mod unat (cap c)
         \<and> (case block_at h (data c) of
              None \<Rightarrow> False
            | Some ss \<Rightarrow> length ss = unat (cap c)
                \<and> list_all (\<lambda>j. (ss ! j \<noteq> None) = live_at c j) [0..<unat (cap c)]))"

text \<open>
  Capacities the container itself produces: none, or at least the initial 4; at most
  \<open>2\<^sup>6\<^sup>2\<close>, so that doubling stays in the range of \<open>valid\<close>.
\<close>

definition cap_ok :: "circular_buffer \<Rightarrow> bool" where
  "cap_ok c = (cap c = 0 \<or> 4 \<le> cap c \<and> cap c \<le> 2 ^ 62)"

text \<open>The container's block, and the sequence of its elements in logical order.\<close>

definition slots :: "'a heap \<Rightarrow> circular_buffer \<Rightarrow> 'a block" where
  "slots h c = (case block_at h (data c) of None \<Rightarrow> [] | Some ss \<Rightarrow> ss)"

definition contents :: "'a heap \<Rightarrow> circular_buffer \<Rightarrow> 'a list" where
  "contents h c =
     map (\<lambda>i. the (slots h c ! ((unat (ind_begin c) + i) mod unat (cap c)))) [0..<unat (sz c)]"

text \<open>
  The new block of \<open>N\<close> slots while \<^verbatim>\<open>reserve\<close> fills it: the first \<open>k\<close> elements of
  the sequence have been copied to slots \<open>0\<close> to \<open>k - 1\<close>.
\<close>

definition migrated :: "'a list \<Rightarrow> nat \<Rightarrow> nat \<Rightarrow> 'a block" where
  "migrated xs k N = map Some (take k xs) @ replicate (N - k) None"

text \<open>
  The statements of \<^verbatim>\<open>push_back\<close> and of \<^verbatim>\<open>push_front\<close> that follow the growth, named
  so that the proofs can treat growth and insertion one after the other.
\<close>

definition emplace_back :: "'a \<Rightarrow> 'a state \<Rightarrow> (unit, 'a state) outcome" where
  "emplace_back v s =
     (case s of (h, c) \<Rightarrow>
        bind (with_state (placement_new (data c) (ind_end c) v h) (\<lambda>h'. (h', c)))
          (\<lambda>_ (h', c).
             if cap c = 0 then Undefined
             else let c1 = c\<lparr>ind_end := (ind_end c + 1) mod cap c\<rparr>
                  in Returns () (h', c1\<lparr>sz := sz c1 + 1\<rparr>)))"

definition emplace_front :: "'a \<Rightarrow> 'a state \<Rightarrow> (unit, 'a state) outcome" where
  "emplace_front v s =
     (case s of (h, c) \<Rightarrow>
        if cap c = 0 then Undefined
        else bind (with_state
               (placement_new (data c) ((ind_begin c - 1 + cap c) mod cap c) v h) (\<lambda>h'. (h', c)))
          (\<lambda>_ (h', c).
             let c1 = c\<lparr>ind_begin := (ind_begin c - 1 + cap c) mod cap c\<rparr>
             in Returns () (h', c1\<lparr>sz := sz c1 + 1\<rparr>)))"

text \<open>
  A call on the container \<open>c\<close> in heap \<open>h\<close>, ending with \<open>c'\<close> in \<open>h'\<close>, has left every
  block that was not the container's own as it was, and the container ends with its
  old block, with none, or with a block handed out during the call.
\<close>

definition framed :: "'a heap \<Rightarrow> circular_buffer \<Rightarrow> 'a heap \<Rightarrow> circular_buffer \<Rightarrow> bool" where
  "framed h c h' c' =
     (length (blocks h) \<le> length (blocks h')
      \<and> (data c' = data c \<or> data c' = None \<or> (\<exists>a. data c' = Some a \<and> length (blocks h) \<le> a))
      \<and> (\<forall>a<length (blocks h). Some a \<noteq> data c
            \<longrightarrow> block_at h' (Some a) = block_at h (Some a)))"

text \<open>
  Nothing has changed in the storage between \<open>h\<close> and \<open>h'\<close>: every address of \<open>h\<close>
  holds what it held, every block handed out since has been released again, and no
  object has leaked.
\<close>

definition same_storage :: "'a heap \<Rightarrow> 'a heap \<Rightarrow> bool" where
  "same_storage h h' =
     (take (length (blocks h)) (blocks h') = blocks h
      \<and> list_all (\<lambda>b. b = None) (drop (length (blocks h)) (blocks h'))
      \<and> leaked h' = leaked h)"

text \<open>
  The specification's \<open>logical_position\<close>, over the integers:
  \<open>(physical_index - begin_index + capacity) mod capacity\<close>.
\<close>

definition logical_position :: "int \<Rightarrow> int \<Rightarrow> int \<Rightarrow> int" where
  "logical_position capacity begin_index physical_index =
     (physical_index - begin_index + capacity) mod capacity"

text \<open>The logical position of an iterator, from its own fields.\<close>

definition position_of :: "basic_iterator \<Rightarrow> int" where
  "position_of it = logical_position (uint (it_cap it)) (uint (it_ind_begin it)) (uint (it_ind it))"

text \<open>
  What the loops of \<^verbatim>\<open>insert\<close> and \<^verbatim>\<open>erase\<close> leave alone: which blocks are allocated and
  which of their slots hold an element. An outcome keeps a state when it ends with the
  same container record, the same shape of the heap and nothing leaked.
\<close>

definition shape :: "'a heap \<Rightarrow> bool list option list" where
  "shape h = map (map_option (map (\<lambda>s. s \<noteq> None))) (blocks h)"

definition kept :: "'a state \<Rightarrow> ('r, 'a state) outcome \<Rightarrow> bool" where
  "kept s out =
     (case out of
        Returns r s' \<Rightarrow> snd s' = snd s \<and> shape (fst s') = shape (fst s)
          \<and> leaked (fst s') = leaked (fst s)
      | Throws e s' \<Rightarrow> snd s' = snd s \<and> shape (fst s') = shape (fst s)
          \<and> leaked (fst s') = leaked (fst s)
      | Assertion_failed \<Rightarrow> True
      | Undefined \<Rightarrow> True)"

text \<open>
  The calls whose argument is another container take one that is itself in a consistent
  state. The calls that work on single elements are all but \<^verbatim>\<open>clear\<close> and the copy
  assignment.
\<close>

definition admissible :: "'a heap \<Rightarrow> 'a call \<Rightarrow> bool" where
  "admissible h call =
     (case call of Call_copy_assignment oth \<Rightarrow> valid h oth \<and> cap_ok oth | _ \<Rightarrow> True)"



text \<open>
  An iterator of the container \<open>c\<close> that stands at the logical position \<open>q\<close>: it
  points into the block of \<open>c\<close>, carries its capacity, and its physical index is \<open>q\<close>
  steps round the ring from \<^verbatim>\<open>ind_begin\<close>.
\<close>

definition at_pos :: "circular_buffer \<Rightarrow> nat \<Rightarrow> basic_iterator \<Rightarrow> bool" where
  "at_pos c q it = (it_data it = data c \<and> it_cap it = cap c
      \<and> unat (it_ind it) = (unat (ind_begin c) + q) mod unat (cap c))"

text \<open>
  A reference argument of a push that can still be read when the element is constructed:
  an object outside the blocks, or an element of a block that the push does not release
  (an element of another container, or of this one when the push does not have to grow).
\<close>

definition survives_growth :: "'a heap \<Rightarrow> circular_buffer \<Rightarrow> 'a cref \<Rightarrow> bool" where
  "survives_growth h c r =
     (case r of
        Object v \<Rightarrow> True
      | Element p i \<Rightarrow>
          load p i h \<noteq> None \<and> (p \<noteq> data c \<or> sz c \<noteq> 0 \<and> sz c \<noteq> cap c - 1))"

text \<open>
  The calls made within their preconditions: a pop of a container that is not empty; a
  push or \<^verbatim>\<open>insert\<close> whose argument can still be read when the element is constructed;
  \<^verbatim>\<open>insert\<close> and \<^verbatim>\<open>erase\<close> with an iterator of this container, taken from its present
  state, at a position of the sequence (\<^verbatim>\<open>erase\<close> at an element), when no copy fails
  and \<^verbatim>\<open>insert\<close> at an interior position does not have to grow the storage.
\<close>

definition in_range :: "'a heap \<Rightarrow> circular_buffer \<Rightarrow> 'a call \<Rightarrow> bool" where
  "in_range h c call =
     (case call of
        Call_push_back r \<Rightarrow> survives_growth h c r
      | Call_push_front r \<Rightarrow> survives_growth h c r
      | Call_insert pos r \<Rightarrow>
          survives_growth h c r \<and> faults h = [] \<and> it_ind_begin pos = ind_begin c
          \<and> list_ex (\<lambda>p. at_pos c p pos \<and> (p = 0 \<or> p = unat (sz c) \<or> sz c \<noteq> cap c - 1))
               [0..<Suc (unat (sz c))]
      | Call_erase pos \<Rightarrow>
          faults h = [] \<and> it_ind_begin pos = ind_begin c
          \<and> list_ex (\<lambda>p. at_pos c p pos) [0..<unat (sz c)]
      | Call_pop_back \<Rightarrow> sz c \<noteq> 0
      | Call_pop_front \<Rightarrow> sz c \<noteq> 0
      | _ \<Rightarrow> True)"

section \<open>Proofs\<close>

text \<open>The loops are unfolded one iteration at a time, by hand.\<close>

declare clear_loop.simps [simp del] reserve_loop.simps [simp del] copy_loop.simps [simp del]

declare insert_front_loop.simps [code] insert_back_loop.simps [code]
  erase_front_loop.simps [code] erase_back_loop.simps [code]


subsection \<open>Ring arithmetic\<close>

lemma unat_bound63: "(c::size_t) \<le> 2 ^ 63 \<Longrightarrow> 2 * unat c \<le> 18446744073709551616"
  by (simp add: word_le_nat_alt)

lemma unat_add_no_wrap:
  fixes a b c :: size_t
  assumes "c \<le> 2 ^ 63" "a < c" "b \<le> c"
  shows "unat (a + b) = unat a + unat b"
proof -
  have "unat a < unat c" "unat b \<le> unat c"
    using assms by (simp_all add: word_less_nat_alt word_le_nat_alt)
  with unat_bound63 [OF assms(1)] have "unat a + unat b < 18446744073709551616" by linarith
  then show ?thesis by (simp add: unat_word_ariths)
qed

lemma unat_ring_add:
  fixes i k c :: size_t
  assumes "c \<le> 2 ^ 63" "i < c" "k \<le> c"
  shows "unat ((i + k) mod c) = (unat i + unat k) mod unat c"
  using unat_add_no_wrap [OF assms] by (simp add: unat_mod)

lemma unat_ring_inc:
  fixes i c :: size_t
  assumes "i < c"
  shows "unat ((i + 1) mod c) = (unat i + 1) mod unat c"
proof -
  have "unat (i + 1) = unat i + 1" using assms by unat_arith
  then show ?thesis by (simp add: unat_mod)
qed

lemma unat_ring_dec:
  fixes i c :: size_t
  assumes "c \<le> 2 ^ 63" "i < c"
  shows "unat ((i - 1 + c) mod c) = (unat i + unat c - 1) mod unat c"
proof -
  have eq: "i - 1 + c = i + (c - 1)" by simp
  have c0: "c \<noteq> 0" using assms(2) by auto
  then have "unat (c - 1) = unat c - 1" by (simp add: unat_minus_one)
  moreover have "c - 1 \<le> c" using c0 by (simp add: word_le_nat_alt unat_minus_one)
  ultimately have "unat (i + (c - 1)) = unat i + (unat c - 1)"
    using unat_add_no_wrap [OF assms(1) assms(2), of "c - 1"] by simp
  moreover have "0 < unat c" using c0 by (simp add: unat_gt_0)
  ultimately show ?thesis unfolding eq by (simp add: unat_mod)
qed

lemma unat_ring_pos:
  fixes i b c :: size_t
  assumes "c \<le> 2 ^ 63" "i < c" "b < c"
  shows "unat ((i + c - b) mod c) = (unat i + unat c - unat b) mod unat c"
proof -
  have 1: "unat b < unat c" using assms by (simp add: word_less_nat_alt)
  have 2: "unat (i + c) = unat i + unat c"
    using unat_add_no_wrap [OF assms(1) assms(2), of c] by simp
  have 3: "b \<le> i + c" using 1 2 by (simp add: word_le_nat_alt)
  show ?thesis using 2 3 by (simp add: unat_sub unat_mod)
qed

lemma ring_wrap:
  fixes C x :: nat
  assumes "C \<le> x" "x < 2 * C"
  shows "x mod C = x - C"
proof -
  have "x mod C = (x - C) mod C" using assms(1) by (simp add: le_mod_geq)
  also have "\<dots> = x - C" using assms by (intro mod_less) linarith
  finally show ?thesis .
qed

lemma ring_pos_phys:
  fixes B C i :: nat
  assumes "B < C" "i < C"
  shows "((B + i) mod C + C - B) mod C = i"
proof (cases "B + i < C")
  case True
  then have "((B + i) mod C + C - B) = i + C" using assms by simp
  then show ?thesis using assms by simp
next
  case False
  then have "(B + i) mod C = B + i - C" using assms by (intro ring_wrap) linarith+
  then have "(B + i) mod C + C - B = i" using False by linarith
  then show ?thesis using assms by simp
qed

lemma ring_phys_pos:
  fixes B C j :: nat
  assumes "B < C" "j < C"
  shows "(B + (j + C - B) mod C) mod C = j"
proof (cases "B \<le> j")
  case True
  then have "(j + C - B) mod C = j + C - B - C" using assms by (intro ring_wrap) linarith+
  then have "B + (j + C - B) mod C = j" using True by linarith
  then show ?thesis using assms by simp
next
  case False
  then have "(j + C - B) mod C = j + C - B" using assms by (intro mod_less) linarith
  then have "B + (j + C - B) mod C = j + C" using assms by linarith
  then show ?thesis using assms by simp
qed

lemma ring_pos_inj:
  fixes B C j k :: nat
  assumes "B < C" "j < C" "k < C" "(j + C - B) mod C = (k + C - B) mod C"
  shows "j = k"
proof -
  have "j = (B + (j + C - B) mod C) mod C" using ring_phys_pos [OF assms(1,2)] by simp
  also have "\<dots> = (B + (k + C - B) mod C) mod C" by (simp only: assms(4))
  also have "\<dots> = k" by (rule ring_phys_pos [OF assms(1,3)])
  finally show ?thesis .
qed


subsection \<open>Heap primitives\<close>

lemma fails_no_faults: "faults h = [] \<Longrightarrow> fails h = (False, h)"
  by (simp add: fails_def)

lemma fails_eq: "fails h = (faults h \<noteq> [] \<and> hd (faults h), h\<lparr>faults := tl (faults h)\<rparr>)"
proof (cases "faults h")
  case Nil
  then have "h\<lparr>faults := []\<rparr> = h" by simp
  with Nil show ?thesis by (simp add: fails_def)
next
  case (Cons b bs)
  then show ?thesis by (simp add: fails_def)
qed

lemma block_at_faults [simp]: "block_at (h\<lparr>faults := f\<rparr>) p = block_at h p"
  by (cases p) (simp_all add: block_at_def)

lemma block_at_leaked [simp]: "block_at (h\<lparr>leaked := l\<rparr>) p = block_at h p"
  by (cases p) (simp_all add: block_at_def)

lemma block_at_None [simp]: "block_at h None = None"
  by (simp add: block_at_def)

lemma block_at_put_block:
  assumes "block_at h p \<noteq> None"
  shows "block_at (put_block p b h) q = (if q = p then b else block_at h q)"
proof (cases p)
  case None
  with assms show ?thesis by simp
next
  case (Some a)
  with assms have a: "a < length (blocks h)" by (simp add: block_at_def split: if_splits)
  show ?thesis
  proof (cases q)
    case None
    with Some show ?thesis by simp
  next
    case (Some a')
    with \<open>p = Some a\<close> a show ?thesis by (simp add: block_at_def put_block_def)
  qed
qed

lemma put_block_twice [simp]: "put_block p b (put_block p b' h) = put_block p b h"
  by (cases p) (simp_all add: put_block_def)

lemma put_block_same:
  assumes "block_at h p = Some ss"
  shows "put_block p (Some ss) h = h"
proof (cases p)
  case None
  then show ?thesis by (simp add: put_block_def)
next
  case (Some a)
  with assms have "a < length (blocks h)" "blocks h ! a = Some ss"
    by (simp_all add: block_at_def split: if_splits)
  then have "(blocks h)[a := Some ss] = blocks h" by (metis list_update_id)
  with Some show ?thesis by (simp add: put_block_def)
qed

lemma faults_put_block [simp]: "faults (put_block p b h) = faults h"
  by (cases p) (simp_all add: put_block_def)

lemma leaked_put_block [simp]: "leaked (put_block p b h) = leaked h"
  by (cases p) (simp_all add: put_block_def)

lemma length_blocks_put_block [simp]: "length (blocks (put_block p b h)) = length (blocks h)"
  by (cases p) (simp_all add: put_block_def)

lemma put_block_faults: "put_block p b (h\<lparr>faults := f\<rparr>) = (put_block p b h)\<lparr>faults := f\<rparr>"
  by (cases p) (simp_all add: put_block_def)

lemma put_block_None [simp]: "put_block None b h = h"
  by (simp add: put_block_def)

subsection \<open>The representation invariant\<close>

lemma valid_new [simp]: "valid h circular_buffer_new"
  by (simp add: valid_def circular_buffer_new_def)

lemma valid_unallocated: "valid h c \<Longrightarrow> cap c = 0 \<Longrightarrow> c = circular_buffer_new"
  by (simp add: valid_def circular_buffer_new_def)

lemma validD:
  assumes "valid h c" "cap c \<noteq> 0"
  shows "cap c \<le> 2 ^ 63" and "sz c < cap c" and "ind_begin c < cap c"
    and "unat (ind_end c) = (unat (ind_begin c) + unat (sz c)) mod unat (cap c)"
    and "block_at h (data c) = Some (slots h c)"
    and "length (slots h c) = unat (cap c)"
    and "\<And>j. j < unat (cap c) \<Longrightarrow> (slots h c ! j \<noteq> None) = live_at c j"
  using assms
  by (auto simp: valid_def slots_def list_all_iff split: option.splits)

lemma validI:
  assumes "cap c \<noteq> 0" "cap c \<le> 2 ^ 63" "sz c < cap c" "ind_begin c < cap c"
    and "unat (ind_end c) = (unat (ind_begin c) + unat (sz c)) mod unat (cap c)"
    and "block_at h (data c) = Some ss" "length ss = unat (cap c)"
    and "\<And>j. j < unat (cap c) \<Longrightarrow> (ss ! j \<noteq> None) = live_at c j"
  shows "valid h c"
  using assms by (simp add: valid_def list_all_iff)

lemma valid_nat:
  assumes "valid h c" "cap c \<noteq> 0"
  shows "0 < unat (cap c)" and "unat (sz c) < unat (cap c)"
    and "unat (ind_begin c) < unat (cap c)" and "unat (ind_end c) < unat (cap c)"
    and "ind_end c < cap c"
proof -
  show c0: "0 < unat (cap c)" using assms(2) by (simp add: unat_gt_0)
  show "unat (sz c) < unat (cap c)" using validD(2) [OF assms] by (simp add: word_less_nat_alt)
  show "unat (ind_begin c) < unat (cap c)" using validD(3) [OF assms] by (simp add: word_less_nat_alt)
  show e: "unat (ind_end c) < unat (cap c)" using validD(4) [OF assms] c0 by simp
  then show "ind_end c < cap c" by (simp add: word_less_nat_alt)
qed

lemma valid_heap_cong:
  "block_at h' (data c) = block_at h (data c) \<Longrightarrow> valid h' c = valid h c"
  by (simp add: valid_def)

lemma slots_heap_cong:
  "block_at h' (data c) = block_at h (data c) \<Longrightarrow> slots h' c = slots h c"
  by (simp add: slots_def)

lemma contents_heap_cong:
  "block_at h' (data c) = block_at h (data c) \<Longrightarrow> contents h' c = contents h c"
  by (simp add: contents_def slots_def)

lemma length_contents [simp]: "length (contents h c) = unat (sz c)"
  by (simp add: contents_def)

lemma nth_contents:
  "i < unat (sz c) \<Longrightarrow>
    contents h c ! i = the (slots h c ! ((unat (ind_begin c) + i) mod unat (cap c)))"
  by (simp add: contents_def)

lemma live_at_phys:
  assumes "unat (ind_begin c) < unat (cap c)" "i < unat (cap c)"
  shows "live_at c ((unat (ind_begin c) + i) mod unat (cap c)) = (i < unat (sz c))"
  using ring_pos_phys [OF assms] by (simp add: live_at_def)

lemma valid_slot_live:
  assumes "valid h c" "cap c \<noteq> 0" "i < unat (sz c)"
  shows "slots h c ! ((unat (ind_begin c) + i) mod unat (cap c)) = Some (contents h c ! i)"
proof -
  let ?j = "(unat (ind_begin c) + i) mod unat (cap c)"
  have i: "i < unat (cap c)" using valid_nat(2) [OF assms(1,2)] assms(3) by simp
  have j: "?j < unat (cap c)" using valid_nat(1) [OF assms(1,2)] by simp
  have "live_at c ?j" using live_at_phys [OF valid_nat(3) [OF assms(1,2)] i] assms(3) by simp
  then have "slots h c ! ?j \<noteq> None" using validD(7) [OF assms(1,2) j] by simp
  then show ?thesis using assms(3) by (auto simp: nth_contents)
qed

lemma load_slots:
  assumes "block_at h (data c) = Some (slots h c)" "unat i < length (slots h c)"
  shows "load (data c) i h = slots h c ! unat i"
  using assms by (simp add: load_def)

subsection \<open>Removal at the ends\<close>

lemma ring_dec_end:
  fixes B C S :: nat
  assumes "0 < S" "0 < C"
  shows "((B + S) mod C + C - 1) mod C = (B + (S - 1)) mod C"
proof -
  have "((B + S) mod C + C - 1) mod C = ((B + S) mod C + (C - 1)) mod C"
    using assms by simp
  also have "\<dots> = (B + S + (C - 1)) mod C" by (simp add: mod_add_left_eq)
  also have "B + S + (C - 1) = B + (S - 1) + C" using assms by simp
  also have "(B + (S - 1) + C) mod C = (B + (S - 1)) mod C" by simp
  finally show ?thesis .
qed

lemma pop_back_valid:
  assumes v: "valid h c" and nz: "sz c \<noteq> 0"
  shows "\<exists>h' c'. pop_back (h, c) = Returns () (h', c') \<and> valid h' c'
      \<and> contents h' c' = butlast (contents h c)
      \<and> c' = c\<lparr>sz := sz c - 1, ind_end := (ind_end c - 1 + cap c) mod cap c\<rparr>
      \<and> h' = put_block (data c) (Some ((slots h c)[unat (ind_end c') := None])) h"
proof -
  have c0: "cap c \<noteq> 0" using v nz by (auto simp: valid_def)
  note D = validD [OF v c0] and N = valid_nat [OF v c0]
  define B C S where "B = unat (ind_begin c)" and "C = unat (cap c)" and "S = unat (sz c)"
  define e' where "e' = (ind_end c - 1 + cap c) mod cap c"
  define j0 where "j0 = (B + (S - 1)) mod C"
  define ss' where "ss' = (slots h c)[j0 := None]"
  define c' where "c' = c\<lparr>sz := sz c - 1, ind_end := e'\<rparr>"
  define h' where "h' = put_block (data c) (Some ss') h"
  have S0: "0 < S" using nz by (simp add: S_def unat_gt_0)
  have S1: "unat (sz c - 1) = S - 1" using nz by (simp add: S_def unat_minus_one)
  have "unat e' = (unat (ind_end c) + C - 1) mod C"
    unfolding e'_def C_def by (rule unat_ring_dec [OF D(1) N(5)])
  also have "\<dots> = j0"
    unfolding j0_def D(4) using ring_dec_end [OF S0, of C B] N(1) by (simp add: B_def C_def S_def)
  finally have e': "unat e' = j0" .
  have j0: "j0 < C" using N(1) by (simp add: j0_def C_def)
  have pos_j0: "(j0 + C - B) mod C = S - 1"
    unfolding j0_def using ring_pos_phys [of B C "S - 1"] N(2,3) by (simp add: B_def C_def S_def)
  have live_j0: "slots h c ! j0 \<noteq> None"
    using D(7) [of j0] j0 pos_j0 S0 by (simp add: live_at_def B_def C_def S_def)
  then obtain x where x: "slots h c ! j0 = Some x" by auto
  have ld: "load (data c) e' h = Some x"
    using D(5,6) j0 x e' by (simp add: load_def C_def)
  have destroy: "destroy (data c) e' h = Returns () h'"
    using D(5) ld e' by (simp add: destroy_def h'_def ss'_def)
  have run: "pop_back (h, c) = Returns () (h', c')"
    using nz c0 destroy
    by (simp add: pop_back_def Let_def c'_def e'_def word_neq_0_conv)
  have blk: "block_at h' (data c') = Some ss'"
    using D(5) by (simp add: h'_def c'_def block_at_put_block)
  have live': "(ss' ! j \<noteq> None) = live_at c' j" if "j < unat (cap c')" for j
  proof -
    have jC: "j < C" using that by (simp add: c'_def C_def)
    show ?thesis
    proof (cases "j = j0")
      case True
      then show ?thesis using pos_j0 jC D(6)
        by (simp add: ss'_def live_at_def c'_def S1 B_def C_def)
    next
      case False
      have "(j + C - B) mod C \<noteq> S - 1"
      proof
        assume "(j + C - B) mod C = S - 1"
        then have "(j + C - B) mod C = (j0 + C - B) mod C" using pos_j0 by simp
        then have "j = j0" using ring_pos_inj [of B C j j0] N(3) jC j0 by (simp add: B_def C_def)
        with False show False by simp
      qed
      then have "((j + C - B) mod C < S) = ((j + C - B) mod C < S - 1)" by linarith
      then show ?thesis using False D(7) [of j] jC
        by (simp add: ss'_def live_at_def c'_def S1 B_def C_def S_def)
    qed
  qed
  have sz': "sz c' < cap c'"
    using N(2) S0 S1 by (simp add: c'_def word_less_nat_alt S_def)
  have valid': "valid h' c'"
  proof (rule validI [where ss = ss'])
    show "cap c' \<noteq> 0" using c0 by (simp add: c'_def)
    show "cap c' \<le> 2 ^ 63" using D(1) by (simp add: c'_def)
    show "sz c' < cap c'" by (rule sz')
    show "ind_begin c' < cap c'" using D(3) by (simp add: c'_def)
    show "unat (ind_end c') = (unat (ind_begin c') + unat (sz c')) mod unat (cap c')"
      using e' by (simp add: c'_def S1 j0_def B_def C_def)
    show "block_at h' (data c') = Some ss'" by (rule blk)
    show "length ss' = unat (cap c')" using D(6) by (simp add: ss'_def c'_def)
    show "\<And>j. j < unat (cap c') \<Longrightarrow> (ss' ! j \<noteq> None) = live_at c' j" by (rule live')
  qed
  have sl': "slots h' c' = ss'" using blk by (simp add: slots_def)
  have cont: "contents h' c' = butlast (contents h c)"
  proof (rule nth_equalityI)
    show "length (contents h' c') = length (butlast (contents h c))"
      by (simp add: c'_def S1 S_def)
  next
    fix i assume "i < length (contents h' c')"
    then have i: "i < S - 1" by (simp add: c'_def S1)
    have "(B + i) mod C \<noteq> j0"
    proof
      assume "(B + i) mod C = j0"
      then have "((B + i) mod C + C - B) mod C = (j0 + C - B) mod C" by simp
      moreover have "i < C" using i N(2) by (simp add: C_def S_def)
      then have "((B + i) mod C + C - B) mod C = i"
        using N(3) by (intro ring_pos_phys) (simp_all add: B_def C_def)
      ultimately have "i = S - 1" using pos_j0 by simp
      with i show False by simp
    qed
    then have "ss' ! ((B + i) mod C) = slots h c ! ((B + i) mod C)" by (simp add: ss'_def)
    then show "contents h' c' ! i = butlast (contents h c) ! i"
      using i sl' by (simp add: nth_contents nth_butlast c'_def S1 B_def C_def S_def)
  qed
  show ?thesis
    using run valid' cont e' unfolding c'_def h'_def ss'_def e'_def by simp
qed

lemma ring_phys_inj:
  fixes B C i k :: nat
  assumes "B < C" "i < C" "k < C" "(B + i) mod C = (B + k) mod C"
  shows "i = k"
proof -
  have "i = ((B + i) mod C + C - B) mod C" using ring_pos_phys [OF assms(1,2)] by simp
  also have "\<dots> = ((B + k) mod C + C - B) mod C" by (simp only: assms(4))
  also have "\<dots> = k" by (rule ring_pos_phys [OF assms(1,3)])
  finally show ?thesis .
qed

lemma live_at_iff:
  assumes "unat (ind_begin c) < unat (cap c)" "j < unat (cap c)" "unat (sz c) \<le> unat (cap c)"
  shows "live_at c j = (\<exists>i<unat (sz c). j = (unat (ind_begin c) + i) mod unat (cap c))"
proof
  assume "live_at c j"
  then have "(j + unat (cap c) - unat (ind_begin c)) mod unat (cap c) < unat (sz c)"
    by (simp add: live_at_def)
  moreover have "j = (unat (ind_begin c) + (j + unat (cap c) - unat (ind_begin c)) mod unat (cap c)) mod unat (cap c)"
    using ring_phys_pos [OF assms(1,2)] by simp
  ultimately show "\<exists>i<unat (sz c). j = (unat (ind_begin c) + i) mod unat (cap c)" by blast
next
  assume "\<exists>i<unat (sz c). j = (unat (ind_begin c) + i) mod unat (cap c)"
  then obtain i where i: "i < unat (sz c)" "j = (unat (ind_begin c) + i) mod unat (cap c)" by blast
  then have "i < unat (cap c)" using assms(3) by simp
  then show "live_at c j" using live_at_phys [OF assms(1)] i by simp
qed

lemma pop_front_valid:
  assumes v: "valid h c" and nz: "sz c \<noteq> 0"
  shows "\<exists>h' c'. pop_front (h, c) = Returns () (h', c') \<and> valid h' c'
      \<and> contents h' c' = tl (contents h c)
      \<and> c' = c\<lparr>sz := sz c - 1, ind_begin := (ind_begin c + 1) mod cap c\<rparr>
      \<and> h' = put_block (data c) (Some ((slots h c)[unat (ind_begin c) := None])) h"
proof -
  have c0: "cap c \<noteq> 0" using v nz by (auto simp: valid_def)
  note D = validD [OF v c0] and N = valid_nat [OF v c0]
  define B C S where "B = unat (ind_begin c)" and "C = unat (cap c)" and "S = unat (sz c)"
  define b' where "b' = (ind_begin c + 1) mod cap c"
  define ss' where "ss' = (slots h c)[B := None]"
  define c' where "c' = c\<lparr>sz := sz c - 1, ind_begin := b'\<rparr>"
  define h' where "h' = put_block (data c) (Some ss') h"
  have S0: "0 < S" using nz by (simp add: S_def unat_gt_0)
  have S1: "unat (sz c - 1) = S - 1" using nz by (simp add: S_def unat_minus_one)
  have BC: "B < C" and SC: "S < C" and C0: "0 < C" using N by (simp_all add: B_def C_def S_def)
  have b': "unat b' = (B + 1) mod C"
    unfolding b'_def B_def C_def by (rule unat_ring_inc [OF D(3)])
  have live_B: "slots h c ! B \<noteq> None"
    using D(7) [of B] BC S0 C0 by (simp add: live_at_def B_def C_def S_def)
  then obtain x where x: "slots h c ! B = Some x" by auto
  have ld: "load (data c) (ind_begin c) h = Some x"
    using D(5,6) BC x by (simp add: load_def B_def C_def)
  have destroy: "destroy (data c) (ind_begin c) h = Returns () h'"
    using D(5) ld by (simp add: destroy_def h'_def ss'_def B_def)
  have run: "pop_front (h, c) = Returns () (h', c')"
    using nz c0 destroy
    by (simp add: pop_front_def Let_def c'_def b'_def word_neq_0_conv)
  have blk: "block_at h' (data c') = Some ss'"
    using D(5) by (simp add: h'_def c'_def block_at_put_block)
  have shift: "((B + 1) mod C + i) mod C = (B + (i + 1)) mod C" for i
  proof -
    have "((B + 1) mod C + i) mod C = (B + 1 + i) mod C" by (rule mod_add_left_eq)
    also have "B + 1 + i = B + (i + 1)" by simp
    finally show ?thesis .
  qed
  have neqB: "(B + (i + 1)) mod C \<noteq> B" if "i < S - 1" for i
  proof
    assume a: "(B + (i + 1)) mod C = B"
    have "(B + 0) mod C = B" using BC by simp
    with a have eq: "(B + (i + 1)) mod C = (B + 0) mod C" by (rule trans_sym)
    have lt: "i + 1 < C" using that SC by linarith
    have "i + 1 = 0" by (rule ring_phys_inj [OF BC lt C0 eq])
    then show False by simp
  qed
  have live': "(ss' ! j \<noteq> None) = live_at c' j" if "j < unat (cap c')" for j
  proof -
    have jC: "j < C" using that by (simp add: c'_def C_def)
    have old: "(slots h c ! j \<noteq> None) = (\<exists>i<S. j = (B + i) mod C)"
      using D(7) [of j] jC live_at_iff [of c j] BC SC by (simp add: B_def C_def S_def)
    have b'C: "unat (ind_begin c') < unat (cap c')" using b' C0 by (simp add: c'_def C_def)
    have new: "live_at c' j = (\<exists>i<S - 1. j = (B + (i + 1)) mod C)"
      using live_at_iff [OF b'C that] SC b' shift by (simp add: c'_def S1 C_def)
    show ?thesis
    proof (cases "j = B")
      case True
      have "\<not> live_at c' j"
      proof
        assume "live_at c' j"
        then obtain i where i: "i < S - 1" "j = (B + (i + 1)) mod C" using new by blast
        from neqB [OF i(1)] i(2) True show False by metis
      qed
      then show ?thesis using True BC D(6) by (simp add: ss'_def C_def)
    next
      case False
      have "(\<exists>i<S. j = (B + i) mod C) = (\<exists>i<S - 1. j = (B + (i + 1)) mod C)"
      proof
        assume "\<exists>i<S. j = (B + i) mod C"
        then obtain i where i: "i < S" "j = (B + i) mod C" by blast
        have "i \<noteq> 0"
        proof
          assume "i = 0"
          then have "j = B" using i(2) BC by simp
          with False show False by simp
        qed
        then have "i - 1 < S - 1" "j = (B + ((i - 1) + 1)) mod C" using i by simp_all
        then show "\<exists>i<S - 1. j = (B + (i + 1)) mod C" by blast
      next
        assume "\<exists>i<S - 1. j = (B + (i + 1)) mod C"
        then obtain i where i: "i < S - 1" "j = (B + (i + 1)) mod C" by blast
        then have "i + 1 < S" by simp
        with i(2) show "\<exists>i<S. j = (B + i) mod C" by blast
      qed
      then show ?thesis using False old new by (simp add: ss'_def)
    qed
  qed
  have sz': "sz c' < cap c'"
    using SC S1 by (simp add: c'_def word_less_nat_alt S_def C_def)
  have valid': "valid h' c'"
  proof (rule validI [where ss = ss'])
    show "cap c' \<noteq> 0" using c0 by (simp add: c'_def)
    show "cap c' \<le> 2 ^ 63" using D(1) by (simp add: c'_def)
    show "sz c' < cap c'" by (rule sz')
    show "ind_begin c' < cap c'" using b' C0 by (simp add: c'_def word_less_nat_alt C_def)
    have "(B + S) mod C = (B + ((S - 1) + 1)) mod C" using S0 by simp
    then show "unat (ind_end c') = (unat (ind_begin c') + unat (sz c')) mod unat (cap c')"
      using D(4) b' shift [of "S - 1"] by (simp add: c'_def S1 B_def C_def S_def)
    show "block_at h' (data c') = Some ss'" by (rule blk)
    show "length ss' = unat (cap c')" using D(6) by (simp add: ss'_def c'_def)
    show "\<And>j. j < unat (cap c') \<Longrightarrow> (ss' ! j \<noteq> None) = live_at c' j" by (rule live')
  qed
  have sl': "slots h' c' = ss'" using blk by (simp add: slots_def)
  have cont: "contents h' c' = tl (contents h c)"
  proof (rule nth_equalityI)
    show "length (contents h' c') = length (tl (contents h c))"
      by (simp add: c'_def S1 S_def)
  next
    fix i assume "i < length (contents h' c')"
    then have i: "i < S - 1" by (simp add: c'_def S1)
    have "ss' ! ((B + (i + 1)) mod C) = slots h c ! ((B + (i + 1)) mod C)"
      using neqB [OF i] by (simp add: ss'_def)
    moreover have "contents h' c' ! i = the (ss' ! ((B + (i + 1)) mod C))"
      using i sl' b' shift [of i] by (simp add: nth_contents c'_def S1 C_def)
    moreover have "tl (contents h c) ! i = the (slots h c ! ((B + (i + 1)) mod C))"
      using i by (simp add: nth_tl nth_contents B_def C_def S_def)
    ultimately show "contents h' c' ! i = tl (contents h c) ! i" by simp
  qed
  show ?thesis
    using run valid' cont unfolding c'_def h'_def ss'_def b'_def B_def by simp
qed

subsection \<open>\<open>clear\<close> and the destructor\<close>

lemma valid_empty_slots:
  assumes "valid h c" "cap c \<noteq> 0" "sz c = 0"
  shows "slots h c = replicate (unat (cap c)) None" and "ind_end c = ind_begin c"
proof -
  note D = validD [OF assms(1,2)] and N = valid_nat [OF assms(1,2)]
  show "slots h c = replicate (unat (cap c)) None"
  proof (rule nth_equalityI)
    show "length (slots h c) = length (replicate (unat (cap c)) (None :: 'a option))"
      using D(6) by simp
  next
    fix j assume "j < length (slots h c)"
    then have j: "j < unat (cap c)" using D(6) by simp
    then have "slots h c ! j = None" using D(7) [OF j] assms(3) by (simp add: live_at_def)
    then show "slots h c ! j = replicate (unat (cap c)) None ! j" using j by simp
  qed
  have "unat (ind_end c) = unat (ind_begin c)" using D(4) N(3) assms(3) by simp
  then show "ind_end c = ind_begin c" by (simp add: word_unat_eq_iff)
qed

lemma clear_loop_valid:
  assumes "valid h c" "cap c \<noteq> 0"
  shows "clear_loop (h, c) =
    Returns () (put_block (data c) (Some (replicate (unat (cap c)) None)) h,
                c\<lparr>sz := 0, ind_end := ind_begin c\<rparr>)"
  using assms
proof (induction "unat (sz c)" arbitrary: h c)
  case 0
  then have z: "sz c = 0" by (simp add: unat_eq_0)
  note E = valid_empty_slots [OF "0.prems" z]
  have "put_block (data c) (Some (replicate (unat (cap c)) None)) h = h"
    using validD(5) [OF "0.prems"] E(1) by (simp add: put_block_same)
  moreover have "c\<lparr>sz := 0, ind_end := ind_begin c\<rparr> = c" using z E(2) by simp
  ultimately show ?case using z by (subst clear_loop.simps) simp
next
  case (Suc n)
  then have nz: "sz c \<noteq> 0" by auto
  from pop_back_valid [OF Suc.prems(1) nz] obtain h' c' where
    pop: "pop_back (h, c) = Returns () (h', c')" and v': "valid h' c'"
    and c': "c' = c\<lparr>sz := sz c - 1, ind_end := (ind_end c - 1 + cap c) mod cap c\<rparr>"
    and h': "h' = put_block (data c) (Some ((slots h c)[unat (ind_end c') := None])) h"
    by blast
  have n: "n = unat (sz c')" using Suc.hyps(2) nz by (simp add: c' unat_minus_one)
  have cap': "cap c' \<noteq> 0" using Suc.prems(2) by (simp add: c')
  have "clear_loop (h', c') =
    Returns () (put_block (data c') (Some (replicate (unat (cap c')) None)) h',
                c'\<lparr>sz := 0, ind_end := ind_begin c'\<rparr>)"
    by (rule Suc.hyps(1) [OF n v' cap'])
  moreover have "put_block (data c') (Some (replicate (unat (cap c')) None)) h'
      = put_block (data c) (Some (replicate (unat (cap c)) None)) h"
    by (simp add: h' c')
  moreover have "c'\<lparr>sz := 0, ind_end := ind_begin c'\<rparr> = c\<lparr>sz := 0, ind_end := ind_begin c\<rparr>"
    by (simp add: c')
  ultimately show ?case using pop nz
    by (subst clear_loop.simps) (simp add: word_neq_0_conv)
qed

lemma live_count_replicate [simp]: "live_count (replicate n None) = 0"
  by (simp add: live_count_def)

lemma clear_valid:
  assumes "valid h c"
  shows "clear (h, c) = Returns () (put_block (data c) None h, circular_buffer_new)"
proof (cases "cap c = 0")
  case True
  then have c: "c = circular_buffer_new" using assms by (rule valid_unallocated [rotated])
  have "clear_loop (h, circular_buffer_new) = Returns () (h, circular_buffer_new)"
    by (subst clear_loop.simps) (simp add: circular_buffer_new_def)
  then show ?thesis
    unfolding c by (simp add: clear_def operator_delete_def circular_buffer_new_def)
next
  case False
  note D = validD [OF assms False]
  let ?h1 = "put_block (data c) (Some (replicate (unat (cap c)) None)) h"
  obtain a where a: "data c = Some a" using D(5) by (cases "data c") simp_all
  have blk: "block_at ?h1 (data c) = Some (replicate (unat (cap c)) None)"
    using D(5) by (simp add: block_at_put_block)
  have del: "operator_delete (data c) ?h1 = Returns () (put_block (data c) None h)"
    using blk a by (simp add: operator_delete_def)
  show ?thesis
    using del by (simp add: clear_def clear_loop_valid [OF assms False] circular_buffer_new_def)
qed

lemma destructor_valid:
  "valid h c \<Longrightarrow> destructor (h, c) = Returns () (put_block (data c) None h)"
  by (simp add: destructor_def clear_valid)

lemma unwind_valid:
  "valid h c \<Longrightarrow> unwind e (h, c) = Throws e (put_block (data c) None h)"
  by (simp add: unwind_def destructor_valid)

subsection \<open>\<open>reserve\<close>\<close>

lemma length_migrated [simp]:
  "k \<le> length xs \<Longrightarrow> k \<le> N \<Longrightarrow> length (migrated xs k N) = N"
  by (simp add: migrated_def)

lemma migrated_nth_raw: "k \<le> length xs \<Longrightarrow> k < N \<Longrightarrow> migrated xs k N ! k = None"
  by (simp add: migrated_def nth_append)

lemma migrated_nth_live: "j < k \<Longrightarrow> k \<le> length xs \<Longrightarrow> migrated xs k N ! j = Some (xs ! j)"
  by (simp add: migrated_def nth_append)

lemma migrated_nth:
  "k \<le> length xs \<Longrightarrow> k \<le> N \<Longrightarrow> j < N \<Longrightarrow>
    migrated xs k N ! j = (if j < k then Some (xs ! j) else None)"
  by (simp add: migrated_def nth_append)

lemma migrated_step:
  assumes "k < length xs" "k < N"
  shows "(migrated xs k N)[k := Some (xs ! k)] = migrated xs (Suc k) N"
proof (rule nth_equalityI)
  show "length ((migrated xs k N)[k := Some (xs ! k)]) = length (migrated xs (Suc k) N)"
    using assms by simp
next
  fix j assume "j < length ((migrated xs k N)[k := Some (xs ! k)])"
  then have j: "j < N" using assms by simp
  show "(migrated xs k N)[k := Some (xs ! k)] ! j = migrated xs (Suc k) N ! j"
  proof (cases "j = k")
    case True
    then show ?thesis using assms by (simp add: migrated_nth)
  next
    case False
    then have "(migrated xs k N)[k := Some (xs ! k)] ! j = migrated xs k N ! j" by simp
    also have "\<dots> = migrated xs (Suc k) N ! j"
      using assms j False by (simp add: migrated_nth)
    finally show ?thesis .
  qed
qed

lemma placement_new_eq:
  assumes "block_at h p = Some ss" "unat i < length ss"
  shows "placement_new p i v h =
    (if faults h \<noteq> [] \<and> hd (faults h) then Throws Copy_failed (h\<lparr>faults := tl (faults h)\<rparr>)
     else Returns ()
       ((put_block p (Some (ss[unat i := Some v])) (h\<lparr>faults := tl (faults h)\<rparr>))
          \<lparr>leaked := leaked h + (if ss ! unat i = None then 0 else 1)\<rparr>))"
  using assms by (simp add: placement_new_def fails_eq)

lemma placement_new_raw:
  assumes "block_at h p = Some ss" "unat i < length ss" "ss ! unat i = None"
    and "\<not> (faults h \<noteq> [] \<and> hd (faults h))"
  shows "placement_new p i v h =
    Returns () (put_block p (Some (ss[unat i := Some v])) (h\<lparr>faults := tl (faults h)\<rparr>))"
proof -
  let ?h' = "put_block p (Some (ss[unat i := Some v])) (h\<lparr>faults := tl (faults h)\<rparr>)"
  have "?h'\<lparr>leaked := leaked h\<rparr> = ?h'" by simp
  then show ?thesis using assms by (simp add: placement_new_eq)
qed

lemma operator_new_eq:
  "operator_new n h =
    (if faults h \<noteq> [] \<and> hd (faults h) then Throws Bad_alloc (h\<lparr>faults := tl (faults h)\<rparr>)
     else Returns (Some (length (blocks h)))
       (h\<lparr>faults := tl (faults h), blocks := blocks h @ [Some (replicate (unat n) None)]\<rparr>))"
  by (simp add: operator_new_def fails_eq)

lemma copy_local_eq:
  "copy_local p i h =
    (case load p i h of None \<Rightarrow> Undefined
     | Some v \<Rightarrow>
         if faults h \<noteq> [] \<and> hd (faults h) then Throws Copy_failed (h\<lparr>faults := tl (faults h)\<rparr>)
         else Returns v (h\<lparr>faults := tl (faults h)\<rparr>))"
  by (simp add: copy_local_def fails_eq split: option.splits)

lemma faults_step:
  assumes "\<not> (fs \<noteq> [] \<and> hd fs)"
  shows "(True \<in> set (take (Suc d) fs)) = (True \<in> set (take d (tl fs)))"
  using assms by (cases fs) simp_all

lemma reserve_loop_valid:
  assumes v: "valid h c"
    and blk: "block_at h (Some L) = Some (migrated (contents h c) k N)"
    and neq: "data c \<noteq> Some L"
    and k: "k = unat i" "k \<le> unat (sz c)" "unat (sz c) \<le> N"
    and tmp: "sz tmp = i" "ind_end tmp = i" "data tmp = Some L"
    and d: "d = unat (sz c) - k"
  shows "(True \<notin> set (take d (faults h)) \<longrightarrow>
       reserve_loop i c (h, tmp) =
         Returns () ((put_block (Some L) (Some (migrated (contents h c) (unat (sz c)) N)) h)
                       \<lparr>faults := drop d (faults h)\<rparr>,
                     tmp\<lparr>ind_end := sz c, sz := sz c\<rparr>))
    \<and> (True \<in> set (take d (faults h)) \<longrightarrow>
       (\<exists>j fs. k \<le> j \<and> j < unat (sz c) \<and>
          reserve_loop i c (h, tmp) =
            Throws Copy_failed
              ((put_block (Some L) (Some (migrated (contents h c) j N)) h)\<lparr>faults := fs\<rparr>,
               tmp\<lparr>ind_end := of_nat j, sz := of_nat j\<rparr>)))"
  using assms
proof (induction d arbitrary: i k h tmp)
  case 0
  then have "unat i = unat (sz c)" by simp
  then have i: "i = sz c" by (simp add: word_unat_eq_iff)
  have run: "reserve_loop i c (h, tmp) = Returns () (h, tmp)"
    by (subst reserve_loop.simps) (simp add: i)
  have "put_block (Some L) (Some (migrated (contents h c) (unat (sz c)) N)) h = h"
    using "0.prems"(2) "0.prems"(4) i by (simp add: put_block_same)
  moreover have "tmp\<lparr>ind_end := sz c, sz := sz c\<rparr> = tmp"
    using "0.prems"(7,8) i by simp
  ultimately show ?case using run by simp
next
  case (Suc d)
  let ?xs = "contents h c"
  let ?S = "unat (sz c)"
  have kS: "k < ?S" using Suc.prems(10) by simp
  then have lt: "i < sz c" using Suc.prems(4) by (simp add: word_less_nat_alt)
  then have c0: "cap c \<noteq> 0" using Suc.prems(1) by (auto simp: valid_def)
  note D = validD [OF Suc.prems(1) c0] and N = valid_nat [OF Suc.prems(1) c0]
  have ile: "i \<le> cap c" using lt D(2) by simp
  have "unat ((ind_begin c + i) mod cap c) = (unat (ind_begin c) + unat i) mod unat (cap c)"
    by (rule unat_ring_add [OF D(1) D(3) ile])
  moreover have "(unat (ind_begin c) + k) mod unat (cap c) < unat (cap c)" using N(1) by simp
  ultimately have ld: "load (data c) ((ind_begin c + i) mod cap c) h = Some (?xs ! k)"
    using D(5,6) valid_slot_live [OF Suc.prems(1) c0 kS] Suc.prems(4)
    by (simp add: load_def)
  have kN: "k < N" using kS Suc.prems(6) by simp
  have kx: "k < length ?xs" using kS by simp
  show ?case
  proof (cases "faults h \<noteq> [] \<and> hd (faults h)")
    case True
    then have pn: "placement_new (data tmp) (ind_end tmp) (?xs ! k) h
        = Throws Copy_failed (h\<lparr>faults := tl (faults h)\<rparr>)"
      using Suc.prems(2,4,8,9) kN kx by (simp add: placement_new_eq [where ss = "migrated ?xs k N"])
    have run: "reserve_loop i c (h, tmp) = Throws Copy_failed (h\<lparr>faults := tl (faults h)\<rparr>, tmp)"
      using lt c0 ld pn by (subst reserve_loop.simps) simp
    have "put_block (Some L) (Some (migrated ?xs k N)) h = h"
      using Suc.prems(2) by (simp add: put_block_same)
    moreover have "tmp\<lparr>ind_end := of_nat k, sz := of_nat k\<rparr> = tmp"
      using Suc.prems(4,7,8) by simp
    moreover have "True \<in> set (take (Suc d) (faults h))"
      using True by (cases "faults h") simp_all
    ultimately show ?thesis using run kS by (metis order_refl)
  next
    case False
    define h1 where "h1 = h\<lparr>faults := tl (faults h)\<rparr>"
    define h' where "h' = put_block (Some L) (Some (migrated ?xs (Suc k) N)) h1"
    define tmp' where "tmp' = tmp\<lparr>ind_end := ind_end tmp + 1, sz := sz tmp + 1\<rparr>"
    have raw: "migrated ?xs k N ! k = None" using kx kN by (simp add: migrated_nth_raw)
    have "placement_new (Some L) i (?xs ! k) h =
        Returns () (put_block (Some L) (Some ((migrated ?xs k N)[unat i := Some (?xs ! k)])) h1)"
      unfolding h1_def using Suc.prems(2) _ _ False
    proof (rule placement_new_raw)
      show "unat i < length (migrated ?xs k N)" using Suc.prems(4) kN kx by simp
      show "migrated ?xs k N ! unat i = None" using raw Suc.prems(4) by simp
    qed
    then have pn: "placement_new (data tmp) (ind_end tmp) (?xs ! k) h = Returns () h'"
      using Suc.prems(4,8,9) migrated_step [OF kx kN] by (simp add: h'_def)
    have run: "reserve_loop i c (h, tmp) = reserve_loop (i + 1) c (h', tmp')"
      using lt c0 ld pn by (subst reserve_loop.simps) (simp add: tmp'_def)
    have b1: "block_at h1 (Some L) \<noteq> None" using Suc.prems(2) by (simp add: h1_def)
    have same: "block_at h' (data c) = block_at h (data c)"
      using Suc.prems(3) by (simp add: h'_def block_at_put_block [OF b1]) (simp add: h1_def)
    have v': "valid h' c" using Suc.prems(1) by (simp add: valid_heap_cong [OF same])
    have xs': "contents h' c = ?xs" by (rule contents_heap_cong [OF same])
    have blk': "block_at h' (Some L) = Some (migrated (contents h' c) (Suc k) N)"
      unfolding xs' by (simp add: h'_def block_at_put_block [OF b1])
    have i1: "Suc k = unat (i + 1)" using lt Suc.prems(4) by unat_arith
    have IH: "(True \<notin> set (take d (faults h')) \<longrightarrow>
       reserve_loop (i + 1) c (h', tmp') =
         Returns () ((put_block (Some L) (Some (migrated (contents h' c) ?S N)) h')
                       \<lparr>faults := drop d (faults h')\<rparr>,
                     tmp'\<lparr>ind_end := sz c, sz := sz c\<rparr>))
    \<and> (True \<in> set (take d (faults h')) \<longrightarrow>
       (\<exists>j fs. Suc k \<le> j \<and> j < ?S \<and>
          reserve_loop (i + 1) c (h', tmp') =
            Throws Copy_failed
              ((put_block (Some L) (Some (migrated (contents h' c) j N)) h')\<lparr>faults := fs\<rparr>,
               tmp'\<lparr>ind_end := of_nat j, sz := of_nat j\<rparr>)))"
    proof (rule Suc.IH [OF v' blk' Suc.prems(3) i1])
      show "Suc k \<le> ?S" using kS by simp
      show "?S \<le> N" by (rule Suc.prems(6))
      show "sz tmp' = i + 1" "ind_end tmp' = i + 1" "data tmp' = Some L"
        using Suc.prems(7,8,9) by (simp_all add: tmp'_def)
      show "d = ?S - Suc k" using Suc.prems(10) by simp
    qed
    have fl: "faults h' = tl (faults h)" by (simp add: h'_def h1_def)
    have pb: "(put_block (Some L) b h')\<lparr>faults := fs\<rparr> = (put_block (Some L) b h)\<lparr>faults := fs\<rparr>" for b fs
      by (simp add: h'_def h1_def put_block_faults)
    have tm: "tmp'\<lparr>ind_end := a, sz := b\<rparr> = tmp\<lparr>ind_end := a, sz := b\<rparr>" for a b
      by (simp add: tmp'_def)
    have fs: "(True \<in> set (take (Suc d) (faults h))) = (True \<in> set (take d (tl (faults h))))"
      by (rule faults_step [OF False])
    show ?thesis
    proof (intro conjI impI)
      assume "True \<notin> set (take (Suc d) (faults h))"
      then have "True \<notin> set (take d (faults h'))" using fs fl by simp
      with IH show "reserve_loop i c (h, tmp) =
         Returns () ((put_block (Some L) (Some (migrated ?xs ?S N)) h)
                       \<lparr>faults := drop (Suc d) (faults h)\<rparr>,
                     tmp\<lparr>ind_end := sz c, sz := sz c\<rparr>)"
        by (simp add: run xs' pb tm fl drop_Suc)
    next
      assume "True \<in> set (take (Suc d) (faults h))"
      then have "True \<in> set (take d (faults h'))" using fs fl by simp
      with IH obtain j fs where "Suc k \<le> j" "j < ?S"
        "reserve_loop (i + 1) c (h', tmp') =
            Throws Copy_failed
              ((put_block (Some L) (Some (migrated (contents h' c) j N)) h')\<lparr>faults := fs\<rparr>,
               tmp'\<lparr>ind_end := of_nat j, sz := of_nat j\<rparr>)"
        by blast
      then have "k \<le> j \<and> j < ?S \<and> reserve_loop i c (h, tmp) =
            Throws Copy_failed
              ((put_block (Some L) (Some (migrated ?xs j N)) h)\<lparr>faults := fs\<rparr>,
               tmp\<lparr>ind_end := of_nat j, sz := of_nat j\<rparr>)"
        by (simp add: run xs' pb tm)
      then show "\<exists>j fs. k \<le> j \<and> j < ?S \<and> reserve_loop i c (h, tmp) =
            Throws Copy_failed
              ((put_block (Some L) (Some (migrated ?xs j N)) h)\<lparr>faults := fs\<rparr>,
               tmp\<lparr>ind_end := of_nat j, sz := of_nat j\<rparr>)"
        by blast
    qed
  qed
qed

lemma faults_split:
  "(True \<in> set (take (Suc d) fs)) = ((fs \<noteq> [] \<and> hd fs) \<or> True \<in> set (take d (tl fs)))"
  by (cases fs) auto

lemma clear_null:
  assumes "sz c = 0" "data c = None"
  shows "clear (h, c) = Returns () (h, circular_buffer_new)"
proof -
  have "clear_loop (h, c) = Returns () (h, c)"
    using assms(1) by (subst clear_loop.simps) simp
  then show ?thesis
    using assms(2) by (simp add: clear_def operator_delete_def circular_buffer_new_def)
qed

lemma valid_owned:
  assumes "valid h c"
  shows "data c = None \<or> (\<exists>a. data c = Some a \<and> a < length (blocks h))"
proof (cases "cap c = 0")
  case True
  then show ?thesis using assms by (simp add: valid_def)
next
  case False
  from validD(5) [OF assms False] show ?thesis
    by (cases "data c") (auto simp: block_at_def split: if_splits)
qed

lemma block_at_extend:
  assumes "blocks h' = blocks h @ bs"
    and "p = None \<or> (\<exists>a. p = Some a \<and> a < length (blocks h))"
  shows "block_at h' p = block_at h p"
  using assms by (cases p) (auto simp: block_at_def nth_append)

lemma block_at_append_new:
  "block_at (h\<lparr>blocks := blocks h @ [b]\<rparr>) (Some (length (blocks h))) = b"
  by (simp add: block_at_def)

lemma put_block_append_new:
  "put_block (Some (length (blocks h))) b (h\<lparr>blocks := blocks h @ [b']\<rparr>)
     = h\<lparr>blocks := blocks h @ [b]\<rparr>"
  by (simp add: put_block_def)

lemma valid_linear:
  fixes n :: size_t
  assumes n: "n \<le> 2 ^ 63" and j: "j < unat n" "j \<le> length xs"
    and blk: "block_at h p = Some (migrated xs j (unat n))"
  shows "valid h \<lparr>sz = of_nat j, cap = n, data = p, ind_begin = 0, ind_end = of_nat j\<rparr>"
    and "contents h \<lparr>sz = of_nat j, cap = n, data = p, ind_begin = 0, ind_end = of_nat j\<rparr>
          = take j xs"
proof -
  let ?c = "\<lparr>sz = of_nat j, cap = n, data = p, ind_begin = 0, ind_end = of_nat j\<rparr>"
  have uj: "unat (of_nat j :: size_t) = j"
  proof -
    have "unat n < 2 ^ 64" using unsigned_less [of n, where 'a = nat] by simp
    with j(1) have "j < 2 ^ 64" by (rule less_trans)
    then show ?thesis by (simp add: unat_of_nat)
  qed
  have n0: "n \<noteq> 0" using j(1) by auto
  show "valid h ?c"
  proof (rule validI [where ss = "migrated xs j (unat n)"])
    show "cap ?c \<noteq> 0" using n0 by simp
    show "cap ?c \<le> 2 ^ 63" using n by simp
    show "sz ?c < cap ?c" using j(1) uj by (simp add: word_less_nat_alt)
    show "ind_begin ?c < cap ?c" using n0 by (simp add: word_neq_0_conv)
    show "unat (ind_end ?c) = (unat (ind_begin ?c) + unat (sz ?c)) mod unat (cap ?c)"
      using j(1) uj by simp
    show "block_at h (data ?c) = Some (migrated xs j (unat n))" using blk by simp
    show "length (migrated xs j (unat n)) = unat (cap ?c)" using j by simp
    show "(migrated xs j (unat n) ! i \<noteq> None) = live_at ?c i" if "i < unat (cap ?c)" for i
      using that j uj by (simp add: migrated_nth live_at_def)
  qed
  have sl: "slots h ?c = migrated xs j (unat n)" using blk by (simp add: slots_def)
  show "contents h ?c = take j xs"
  proof (rule nth_equalityI)
    show "length (contents h ?c) = length (take j xs)" using uj j by simp
  next
    fix i assume "i < length (contents h ?c)"
    then have i: "i < j" using uj by simp
    then show "contents h ?c ! i = take j xs ! i"
      using j uj sl by (simp add: nth_contents migrated_nth)
  qed
qed

lemma swap_cb_eq: "swap_cb (h, a, b) = Returns () (h, b, a)"
  by (simp add: swap_cb_def)

lemma same_storage_refl_faults [simp]: "same_storage h (h\<lparr>faults := fs\<rparr>)"
  by (simp add: same_storage_def)

lemma same_storage_released:
  "same_storage h (h\<lparr>faults := fs, blocks := blocks h @ [None]\<rparr>)"
  by (simp add: same_storage_def)

lemma reserve_valid:
  fixes h :: "'a heap"
  assumes v: "valid h c" and lt: "sz c < n" and n63: "n \<le> 2 ^ 63"
  shows "(True \<notin> set (take (Suc (unat (sz c))) (faults h)) \<longrightarrow>
      reserve n (h, c) =
        Returns ()
          (put_block (data c) None
             (h\<lparr>faults := drop (Suc (unat (sz c))) (faults h),
                blocks := blocks h @ [Some (migrated (contents h c) (unat (sz c)) (unat n))]\<rparr>),
           \<lparr>sz = sz c, cap = n, data = Some (length (blocks h)), ind_begin = 0,
            ind_end = sz c\<rparr>))
    \<and> (True \<in> set (take (Suc (unat (sz c))) (faults h)) \<longrightarrow>
      (\<exists>e h'. reserve n (h, c) = Throws e (h', c) \<and> same_storage h h'))"
proof -
  define L S N xs where "L = length (blocks h)" and "S = unat (sz c)" and "N = unat n"
    and "xs = contents h c"
  define tmp0 where "tmp0 = circular_buffer_new\<lparr>cap := n\<rparr>"
  have nle: "\<not> n \<le> sz c" using lt by simp
  have SN: "S < N" using lt by (simp add: S_def N_def word_less_nat_alt)
  show ?thesis
  proof (cases "faults h \<noteq> [] \<and> hd (faults h)")
    case True
    have "clear (h\<lparr>faults := tl (faults h)\<rparr>, tmp0)
        = Returns () (h\<lparr>faults := tl (faults h)\<rparr>, circular_buffer_new)"
      by (rule clear_null) (simp_all add: tmp0_def circular_buffer_new_def)
    then have "reserve n (h, c) = Throws Bad_alloc (h\<lparr>faults := tl (faults h)\<rparr>, c)"
      using nle True
      by (simp add: reserve_def operator_new_eq unwind_def destructor_def tmp0_def)
    moreover have "True \<in> set (take (Suc S) (faults h))"
      using True by (simp add: faults_split)
    ultimately show ?thesis unfolding S_def using same_storage_refl_faults by blast
  next
    case False
    define h2 where
      "h2 = h\<lparr>faults := tl (faults h), blocks := blocks h @ [Some (replicate N None)]\<rparr>"
    define tmp1 where "tmp1 = tmp0\<lparr>data := Some L\<rparr>"
    have new: "operator_new n h = Returns (Some L) h2"
      using False by (simp add: operator_new_eq h2_def L_def N_def)
    have own: "data c = None \<or> (\<exists>a. data c = Some a \<and> a < length (blocks h))"
      by (rule valid_owned [OF v])
    have old2: "block_at h2 (data c) = block_at h (data c)"
      by (rule block_at_extend [OF _ own]) (simp add: h2_def)
    have v2: "valid h2 c" using v by (simp add: valid_heap_cong [OF old2])
    have xs2: "contents h2 c = xs" unfolding xs_def by (rule contents_heap_cong [OF old2])
    have neq: "data c \<noteq> Some L" using own by (auto simp: L_def)
    have blk2: "block_at h2 (Some L) = Some (migrated (contents h2 c) 0 N)"
      by (simp add: h2_def L_def block_at_def migrated_def)
    have loop: "(True \<notin> set (take S (faults h2)) \<longrightarrow>
       reserve_loop 0 c (h2, tmp1) =
         Returns () ((put_block (Some L) (Some (migrated (contents h2 c) (unat (sz c)) N)) h2)
                       \<lparr>faults := drop S (faults h2)\<rparr>,
                     tmp1\<lparr>ind_end := sz c, sz := sz c\<rparr>))
    \<and> (True \<in> set (take S (faults h2)) \<longrightarrow>
       (\<exists>j fs. 0 \<le> j \<and> j < unat (sz c) \<and>
          reserve_loop 0 c (h2, tmp1) =
            Throws Copy_failed
              ((put_block (Some L) (Some (migrated (contents h2 c) j N)) h2)\<lparr>faults := fs\<rparr>,
               tmp1\<lparr>ind_end := of_nat j, sz := of_nat j\<rparr>)))"
    proof (rule reserve_loop_valid [OF v2 blk2 neq])
      show "0 = unat (0 :: size_t)" by simp
      show "0 \<le> unat (sz c)" by simp
      show "unat (sz c) \<le> N" using SN by (simp add: S_def)
      show "sz tmp1 = 0" "ind_end tmp1 = 0" "data tmp1 = Some L"
        by (simp_all add: tmp1_def tmp0_def circular_buffer_new_def)
      show "S = unat (sz c) - 0" by (simp add: S_def)
    qed
    have f2: "faults h2 = tl (faults h)" by (simp add: h2_def)
    have fsplit: "(True \<in> set (take (Suc S) (faults h))) = (True \<in> set (take S (faults h2)))"
      unfolding f2 by (rule faults_step [OF False])
    have pb: "put_block (Some L) b h2 = h\<lparr>faults := tl (faults h), blocks := blocks h @ [b]\<rparr>" for b
      by (simp add: h2_def L_def put_block_def)
    show ?thesis
    proof (intro conjI impI)
      assume "True \<notin> set (take (Suc (unat (sz c))) (faults h))"
      then have nf: "True \<notin> set (take S (faults h2))" using fsplit by (simp add: S_def)
      define h3 where
        "h3 = h\<lparr>faults := drop (Suc S) (faults h), blocks := blocks h @ [Some (migrated xs S N)]\<rparr>"
      define tmp2 where "tmp2 = tmp1\<lparr>ind_end := sz c, sz := sz c\<rparr>"
      have lp: "reserve_loop 0 c (h2, tmp1) = Returns () (h3, tmp2)"
        using loop nf by (simp add: xs2 pb f2 drop_Suc h3_def tmp2_def S_def)
      have old3: "block_at h3 (data c) = block_at h (data c)"
        by (rule block_at_extend [OF _ own]) (simp add: h3_def)
      have v3: "valid h3 c" using v by (simp add: valid_heap_cong [OF old3])
      have "reserve n (h, c) = Returns () (put_block (data c) None h3, tmp2)"
        using nle new lp
        by (simp add: reserve_def tmp0_def [symmetric] tmp1_def [symmetric]
            swap_cb_eq destructor_valid [OF v3])
      moreover have "tmp2 = \<lparr>sz = sz c, cap = n, data = Some L, ind_begin = 0, ind_end = sz c\<rparr>"
        by (simp add: tmp2_def tmp1_def tmp0_def circular_buffer_new_def)
      ultimately show "reserve n (h, c) =
        Returns ()
          (put_block (data c) None
             (h\<lparr>faults := drop (Suc (unat (sz c))) (faults h),
                blocks := blocks h @ [Some (migrated (contents h c) (unat (sz c)) (unat n))]\<rparr>),
           \<lparr>sz = sz c, cap = n, data = Some (length (blocks h)), ind_begin = 0,
            ind_end = sz c\<rparr>)"
        by (simp add: h3_def S_def N_def xs_def L_def)
    next
      assume "True \<in> set (take (Suc (unat (sz c))) (faults h))"
      then have "True \<in> set (take S (faults h2))" using fsplit by (simp add: S_def)
      with loop obtain j fs where j: "j < S" and
        lp: "reserve_loop 0 c (h2, tmp1) =
            Throws Copy_failed
              ((put_block (Some L) (Some (migrated xs j N)) h2)\<lparr>faults := fs\<rparr>,
               tmp1\<lparr>ind_end := of_nat j, sz := of_nat j\<rparr>)"
        unfolding xs2 S_def by blast
      define h3 where "h3 = h\<lparr>faults := fs, blocks := blocks h @ [Some (migrated xs j N)]\<rparr>"
      define tmpj where "tmpj = \<lparr>sz = of_nat j, cap = n, data = Some L, ind_begin = 0,
          ind_end = of_nat j :: size_t\<rparr>"
      have t: "tmp1\<lparr>ind_end := of_nat j, sz := of_nat j\<rparr> = tmpj"
        by (simp add: tmpj_def tmp1_def tmp0_def circular_buffer_new_def)
      have h: "(put_block (Some L) (Some (migrated xs j N)) h2)\<lparr>faults := fs\<rparr> = h3"
        by (simp add: pb h3_def)
      have blk3: "block_at h3 (Some L) = Some (migrated xs j (unat n))"
        by (simp add: h3_def L_def block_at_def N_def)
      have vj: "valid h3 tmpj"
        unfolding tmpj_def using n63 _ _ blk3
      proof (rule valid_linear(1))
        show "j < unat n" using j SN by (simp add: N_def)
        show "j \<le> length xs" using j by (simp add: xs_def S_def)
      qed
      have uw: "(unwind Copy_failed (h3, tmpj) :: (unit, 'a heap) outcome)
          = Throws Copy_failed (put_block (Some L) None h3)"
        using unwind_valid [OF vj] by (simp add: tmpj_def)
      have "put_block (Some L) None h3 = h\<lparr>faults := fs, blocks := blocks h @ [None]\<rparr>"
        by (simp add: h3_def L_def put_block_def)
      then have "reserve n (h, c) = Throws Copy_failed (h\<lparr>faults := fs, blocks := blocks h @ [None]\<rparr>, c)"
        using nle new lp uw
        by (simp add: reserve_def tmp0_def [symmetric] tmp1_def [symmetric] t h)
      then show "\<exists>e h'. reserve n (h, c) = Throws e (h', c) \<and> same_storage h h'"
        using same_storage_released by blast
    qed
  qed
qed

subsection \<open>Insertion at the ends\<close>

lemma read_Object [simp]: "read (Object v) h = Some v"
  by (simp add: read_def)

lemma read_faults [simp]: "read r (h\<lparr>faults := fs\<rparr>) = read r h"
  by (cases r) (simp_all add: read_def load_def)

lemma push_back_read:
  "push_back r s =
     bind (if empty_cb (snd s) then reserve 4 s
           else if sz (snd s) = cap (snd s) - 1 then reserve (cap (snd s) * 2) s
           else Returns () s)
       (\<lambda>_ s1. case read r (fst s1) of None \<Rightarrow> Undefined | Some v \<Rightarrow> emplace_back v s1)"
proof -
  have "(\<lambda>(_ :: unit) (h, c).
          bind (with_state (copy_construct (data c) (ind_end c) r h) (\<lambda>h'. (h', c)))
            (\<lambda>_ (h', c).
               if cap c = 0 then Undefined
               else let c1 = c\<lparr>ind_end := (ind_end c + 1) mod cap c\<rparr>
                    in Returns () (h', c1\<lparr>sz := sz c1 + 1\<rparr>)))
      = (\<lambda>_ s1. case read r (fst s1) of None \<Rightarrow> Undefined | Some v \<Rightarrow> emplace_back v s1)"
    by (intro ext) (simp add: copy_construct_def emplace_back_def split: prod.splits option.splits)
  then show ?thesis unfolding push_back_def by simp
qed

lemma push_front_read:
  "push_front r s =
     bind (if empty_cb (snd s) then reserve 4 s
           else if sz (snd s) = cap (snd s) - 1 then reserve (sz (snd s) * 2) s
           else Returns () s)
       (\<lambda>_ s1. case read r (fst s1) of None \<Rightarrow> Undefined | Some v \<Rightarrow> emplace_front v s1)"
proof -
  have "(\<lambda>(_ :: unit) (h, c).
          if cap c = 0 then Undefined
          else bind (with_state
                 (copy_construct (data c) ((ind_begin c - 1 + cap c) mod cap c) r h)
                 (\<lambda>h'. (h', c)))
            (\<lambda>_ (h', c).
               let c1 = c\<lparr>ind_begin := (ind_begin c - 1 + cap c) mod cap c\<rparr>
               in Returns () (h', c1\<lparr>sz := sz c1 + 1\<rparr>)))
      = (\<lambda>_ s1. case read r (fst s1) of None \<Rightarrow> Undefined | Some v \<Rightarrow> emplace_front v s1)"
    by (intro ext) (simp add: copy_construct_def emplace_front_def split: prod.splits option.splits)
  then show ?thesis unfolding push_front_def by simp
qed

lemma push_back_emplace:
  "push_back (Object v) s =
     bind (if empty_cb (snd s) then reserve 4 s
           else if sz (snd s) = cap (snd s) - 1 then reserve (cap (snd s) * 2) s
           else Returns () s)
       (\<lambda>_. emplace_back v)"
  by (simp add: push_back_read)

lemma push_front_emplace:
  "push_front (Object v) s =
     bind (if empty_cb (snd s) then reserve 4 s
           else if sz (snd s) = cap (snd s) - 1 then reserve (sz (snd s) * 2) s
           else Returns () s)
       (\<lambda>_. emplace_front v)"
  by (simp add: push_front_read)

lemma block_at_put_block_other: "q \<noteq> p \<Longrightarrow> block_at (put_block p b h) q = block_at h q"
  by (cases p; cases q) (auto simp: block_at_def put_block_def)

lemma emplace_back_valid:
  fixes h :: "'a heap" and x :: 'a
  assumes v: "valid h c" and room: "unat (sz c) + 1 < unat (cap c)"
  defines "h' \<equiv> put_block (data c) (Some ((slots h c)[unat (ind_end c) := Some x]))
                  (h\<lparr>faults := tl (faults h)\<rparr>)"
    and "c' \<equiv> c\<lparr>ind_end := (ind_end c + 1) mod cap c, sz := sz c + 1\<rparr>"
  shows "emplace_back x (h, c) =
      (if faults h \<noteq> [] \<and> hd (faults h) then Throws Copy_failed (h\<lparr>faults := tl (faults h)\<rparr>, c)
       else Returns () (h', c'))"
    and "valid h' c'" and "contents h' c' = contents h c @ [x]"
    and "slots h c ! unat (ind_end c) = None"
proof -
  have c0: "cap c \<noteq> 0" using room by auto
  note D = validD [OF v c0] and N = valid_nat [OF v c0]
  define B C S where "B = unat (ind_begin c)" and "C = unat (cap c)" and "S = unat (sz c)"
  define e where "e = unat (ind_end c)"
  define ss' where "ss' = (slots h c)[e := Some x]"
  have BC: "B < C" and SC: "S < C" and C0: "0 < C" and eC: "e < C"
    using N by (simp_all add: B_def C_def S_def e_def)
  have e: "e = (B + S) mod C" using D(4) by (simp add: e_def B_def C_def S_def)
  have S1: "unat (sz c + 1) = S + 1"
  proof -
    have "sz c < cap c" by (rule D(2))
    then show ?thesis unfolding S_def by unat_arith
  qed
  have e1: "unat ((ind_end c + 1) mod cap c) = (B + (S + 1)) mod C"
  proof -
    have "unat ((ind_end c + 1) mod cap c) = (e + 1) mod C"
      unfolding e_def C_def by (rule unat_ring_inc [OF N(5)])
    also have "\<dots> = (B + S + 1) mod C" unfolding e by (rule mod_add_left_eq)
    finally show ?thesis by (simp add: add.assoc)
  qed
  have raw: "slots h c ! e = None"
  proof -
    have "\<not> live_at c e"
      using live_at_phys [of c S] BC SC by (simp add: e B_def C_def S_def)
    then show ?thesis using D(7) [of e] eC by (simp add: C_def)
  qed
  then show "slots h c ! unat (ind_end c) = None" by (simp add: e_def)
  have blk1: "block_at (h\<lparr>faults := tl (faults h)\<rparr>) (data c) = Some (slots h c)"
    using D(5) by simp
  have pn: "placement_new (data c) (ind_end c) x h =
      (if faults h \<noteq> [] \<and> hd (faults h) then Throws Copy_failed (h\<lparr>faults := tl (faults h)\<rparr>)
       else Returns () h')"
  proof (cases "faults h \<noteq> [] \<and> hd (faults h)")
    case True
    then show ?thesis
      using D(5,6) eC by (simp add: placement_new_eq [where ss = "slots h c"] e_def C_def)
  next
    case False
    have "placement_new (data c) (ind_end c) x h =
      Returns () (put_block (data c) (Some ((slots h c)[unat (ind_end c) := Some x]))
        (h\<lparr>faults := tl (faults h)\<rparr>))"
      using D(5) _ _ False
    proof (rule placement_new_raw)
      show "unat (ind_end c) < length (slots h c)" using D(6) eC by (simp add: e_def C_def)
      show "slots h c ! unat (ind_end c) = None" using raw by (simp add: e_def)
    qed
    then show ?thesis using False by (simp add: h'_def)
  qed
  show "emplace_back x (h, c) =
      (if faults h \<noteq> [] \<and> hd (faults h) then Throws Copy_failed (h\<lparr>faults := tl (faults h)\<rparr>, c)
       else Returns () (h', c'))"
    using c0 by (simp add: emplace_back_def pn c'_def)
  have blk: "block_at h' (data c') = Some ss'"
    using blk1 by (simp add: h'_def c'_def block_at_put_block ss'_def e_def)
  have live': "(ss' ! j \<noteq> None) = live_at c' j" if "j < unat (cap c')" for j
  proof -
    have jC: "j < C" using that by (simp add: c'_def C_def)
    have old: "(slots h c ! j \<noteq> None) = (\<exists>i<S. j = (B + i) mod C)"
      using D(7) [of j] jC live_at_iff [of c j] BC SC by (simp add: B_def C_def S_def)
    have new: "live_at c' j = (\<exists>i<S + 1. j = (B + i) mod C)"
      using live_at_iff [of c' j] that BC room by (simp add: c'_def S1 B_def C_def S_def)
    show ?thesis
    proof (cases "j = e")
      case True
      have "\<exists>i<S + 1. j = (B + i) mod C" using True e by auto
      then show ?thesis using True new eC D(6) by (simp add: ss'_def C_def)
    next
      case False
      have "(\<exists>i<S. j = (B + i) mod C) = (\<exists>i<S + 1. j = (B + i) mod C)"
      proof
        assume "\<exists>i<S. j = (B + i) mod C"
        then obtain i where "i < S" "j = (B + i) mod C" by blast
        then have "i < S + 1 \<and> j = (B + i) mod C" by simp
        then show "\<exists>i<S + 1. j = (B + i) mod C" by blast
      next
        assume "\<exists>i<S + 1. j = (B + i) mod C"
        then obtain i where i: "i < S + 1" "j = (B + i) mod C" by blast
        have "i \<noteq> S" using i(2) False e by auto
        with i(1) have "i < S" by simp
        with i(2) show "\<exists>i<S. j = (B + i) mod C" by blast
      qed
      then show ?thesis using False old new by (simp add: ss'_def)
    qed
  qed
  show valid': "valid h' c'"
  proof (rule validI [where ss = ss'])
    show "cap c' \<noteq> 0" using c0 by (simp add: c'_def)
    show "cap c' \<le> 2 ^ 63" using D(1) by (simp add: c'_def)
    show "sz c' < cap c'" using room S1 by (simp add: c'_def word_less_nat_alt S_def)
    show "ind_begin c' < cap c'" using D(3) by (simp add: c'_def)
    show "unat (ind_end c') = (unat (ind_begin c') + unat (sz c')) mod unat (cap c')"
      using e1 by (simp add: c'_def S1 B_def C_def)
    show "block_at h' (data c') = Some ss'" by (rule blk)
    show "length ss' = unat (cap c')" using D(6) by (simp add: ss'_def c'_def)
    show "\<And>j. j < unat (cap c') \<Longrightarrow> (ss' ! j \<noteq> None) = live_at c' j" by (rule live')
  qed
  have sl': "slots h' c' = ss'" using blk by (simp add: slots_def)
  show "contents h' c' = contents h c @ [x]"
  proof (rule nth_equalityI)
    show "length (contents h' c') = length (contents h c @ [x])"
      by (simp add: c'_def S1 S_def)
  next
    fix i assume "i < length (contents h' c')"
    then have i: "i < S + 1" by (simp add: c'_def S1)
    show "contents h' c' ! i = (contents h c @ [x]) ! i"
    proof (cases "i = S")
      case True
      then show ?thesis
        using sl' e eC D(6) by (simp add: nth_contents c'_def S1 nth_append ss'_def B_def C_def S_def)
    next
      case False
      then have iS: "i < S" using i by simp
      have "(B + i) mod C \<noteq> e"
      proof
        assume "(B + i) mod C = e"
        then have eq: "(B + i) mod C = (B + S) mod C" using e by simp
        have "i < C" using iS SC by simp
        then have "i = S" using BC SC eq by (intro ring_phys_inj [of B C i S])
        with False show False by simp
      qed
      then have "ss' ! ((B + i) mod C) = slots h c ! ((B + i) mod C)" by (simp add: ss'_def)
      then show ?thesis
        using iS sl' by (simp add: nth_contents c'_def S1 nth_append B_def C_def S_def)
    qed
  qed
qed

lemma ring_front_shift:
  fixes B C i :: nat
  assumes "0 < C" "0 < i"
  shows "((B + C - 1) mod C + i) mod C = (B + (i - 1)) mod C"
proof -
  have "((B + C - 1) mod C + i) mod C = (B + C - 1 + i) mod C" by (rule mod_add_left_eq)
  also have "B + C - 1 + i = B + (i - 1) + C" using assms by simp
  also have "(B + (i - 1) + C) mod C = (B + (i - 1)) mod C" by simp
  finally show ?thesis .
qed

lemma emplace_front_valid:
  fixes h :: "'a heap" and x :: 'a
  assumes v: "valid h c" and room: "unat (sz c) + 1 < unat (cap c)"
  defines "h' \<equiv> put_block (data c)
                  (Some ((slots h c)[unat ((ind_begin c - 1 + cap c) mod cap c) := Some x]))
                  (h\<lparr>faults := tl (faults h)\<rparr>)"
    and "c' \<equiv> c\<lparr>ind_begin := (ind_begin c - 1 + cap c) mod cap c, sz := sz c + 1\<rparr>"
  shows "emplace_front x (h, c) =
      (if faults h \<noteq> [] \<and> hd (faults h) then Throws Copy_failed (h\<lparr>faults := tl (faults h)\<rparr>, c)
       else Returns () (h', c'))"
    and "valid h' c'" and "contents h' c' = x # contents h c"
    and "slots h c ! unat ((ind_begin c - 1 + cap c) mod cap c) = None"
proof -
  have c0: "cap c \<noteq> 0" using room by auto
  note D = validD [OF v c0] and N = valid_nat [OF v c0]
  define B C S where "B = unat (ind_begin c)" and "C = unat (cap c)" and "S = unat (sz c)"
  define b where "b = unat ((ind_begin c - 1 + cap c) mod cap c)"
  define ss' where "ss' = (slots h c)[b := Some x]"
  have BC: "B < C" and SC: "S < C" and C0: "0 < C"
    using N by (simp_all add: B_def C_def S_def)
  have b: "b = (B + C - 1) mod C"
    unfolding b_def B_def C_def by (rule unat_ring_dec [OF D(1) D(3)])
  have bC: "b < C" using C0 by (simp add: b)
  have b': "b = (B + (C - 1)) mod C" using C0 by (simp add: b)
  have shift: "(b + i) mod C = (B + (i - 1)) mod C" if "0 < i" for i
    unfolding b using C0 that by (rule ring_front_shift)
  have S1: "unat (sz c + 1) = S + 1"
  proof -
    have "sz c < cap c" by (rule D(2))
    then show ?thesis unfolding S_def by unat_arith
  qed
  have raw: "slots h c ! b = None"
  proof -
    have "\<not> live_at c b"
      using live_at_phys [of c "C - 1"] BC room C0 by (simp add: b' B_def C_def S_def)
    then show ?thesis using D(7) [of b] bC by (simp add: C_def)
  qed
  then show "slots h c ! unat ((ind_begin c - 1 + cap c) mod cap c) = None" by (simp add: b_def)
  have blk1: "block_at (h\<lparr>faults := tl (faults h)\<rparr>) (data c) = Some (slots h c)"
    using D(5) by simp
  have pn: "placement_new (data c) ((ind_begin c - 1 + cap c) mod cap c) x h =
      (if faults h \<noteq> [] \<and> hd (faults h) then Throws Copy_failed (h\<lparr>faults := tl (faults h)\<rparr>)
       else Returns () h')"
  proof (cases "faults h \<noteq> [] \<and> hd (faults h)")
    case True
    then show ?thesis
      using D(5,6) bC by (simp add: placement_new_eq [where ss = "slots h c"] b_def C_def)
  next
    case False
    have "placement_new (data c) ((ind_begin c - 1 + cap c) mod cap c) x h =
      Returns () (put_block (data c)
        (Some ((slots h c)[unat ((ind_begin c - 1 + cap c) mod cap c) := Some x]))
        (h\<lparr>faults := tl (faults h)\<rparr>))"
      using D(5) _ _ False
    proof (rule placement_new_raw)
      show "unat ((ind_begin c - 1 + cap c) mod cap c) < length (slots h c)"
        using D(6) bC by (simp add: b_def C_def)
      show "slots h c ! unat ((ind_begin c - 1 + cap c) mod cap c) = None"
        using raw by (simp add: b_def)
    qed
    then show ?thesis using False by (simp add: h'_def)
  qed
  show "emplace_front x (h, c) =
      (if faults h \<noteq> [] \<and> hd (faults h) then Throws Copy_failed (h\<lparr>faults := tl (faults h)\<rparr>, c)
       else Returns () (h', c'))"
    using c0 by (simp add: emplace_front_def pn c'_def)
  have blk: "block_at h' (data c') = Some ss'"
    using blk1 by (simp add: h'_def c'_def block_at_put_block ss'_def b_def)
  have b'C: "unat (ind_begin c') < unat (cap c')" using bC by (simp add: c'_def b_def C_def)
  have live': "(ss' ! j \<noteq> None) = live_at c' j" if "j < unat (cap c')" for j
  proof -
    have jC: "j < C" using that by (simp add: c'_def C_def)
    have old: "(slots h c ! j \<noteq> None) = (\<exists>i<S. j = (B + i) mod C)"
      using D(7) [of j] jC live_at_iff [of c j] BC SC by (simp add: B_def C_def S_def)
    have new: "live_at c' j = (\<exists>i<S + 1. j = (b + i) mod C)"
      using live_at_iff [OF b'C that] room by (simp add: c'_def S1 b_def C_def S_def)
    show ?thesis
    proof (cases "j = b")
      case True
      have "j = (b + 0) mod C" using True bC by simp
      then have "\<exists>i<S + 1. j = (b + i) mod C" by (intro exI [of _ 0]) simp
      then show ?thesis using True new bC D(6) by (simp add: ss'_def C_def)
    next
      case False
      have "(\<exists>i<S. j = (B + i) mod C) = (\<exists>i<S + 1. j = (b + i) mod C)"
      proof
        assume "\<exists>i<S. j = (B + i) mod C"
        then obtain i where i: "i < S" "j = (B + i) mod C" by blast
        have "(b + (i + 1)) mod C = (B + i) mod C" using shift [of "i + 1"] by simp
        then have "i + 1 < S + 1 \<and> j = (b + (i + 1)) mod C" using i by simp
        then show "\<exists>i<S + 1. j = (b + i) mod C" by blast
      next
        assume "\<exists>i<S + 1. j = (b + i) mod C"
        then obtain i where i: "i < S + 1" "j = (b + i) mod C" by blast
        have i0: "0 < i"
        proof (rule ccontr)
          assume "\<not> 0 < i"
          then have "j = b" using i(2) bC by simp
          with False show False by simp
        qed
        then have "j = (B + (i - 1)) mod C" using i(2) shift [OF i0] by simp
        moreover have "i - 1 < S" using i(1) i0 by simp
        ultimately show "\<exists>i<S. j = (B + i) mod C" by blast
      qed
      then show ?thesis using False old new by (simp add: ss'_def)
    qed
  qed
  show valid': "valid h' c'"
  proof (rule validI [where ss = ss'])
    show "cap c' \<noteq> 0" using c0 by (simp add: c'_def)
    show "cap c' \<le> 2 ^ 63" using D(1) by (simp add: c'_def)
    show "sz c' < cap c'" using room S1 by (simp add: c'_def word_less_nat_alt S_def)
    show "ind_begin c' < cap c'" using b'C by (simp add: word_less_nat_alt)
    have "(b + (S + 1)) mod C = (B + S) mod C" using shift [of "S + 1"] by simp
    then show "unat (ind_end c') = (unat (ind_begin c') + unat (sz c')) mod unat (cap c')"
      using D(4) by (simp add: c'_def S1 b_def B_def C_def S_def)
    show "block_at h' (data c') = Some ss'" by (rule blk)
    show "length ss' = unat (cap c')" using D(6) by (simp add: ss'_def c'_def)
    show "\<And>j. j < unat (cap c') \<Longrightarrow> (ss' ! j \<noteq> None) = live_at c' j" by (rule live')
  qed
  have sl': "slots h' c' = ss'" using blk by (simp add: slots_def)
  show "contents h' c' = x # contents h c"
  proof (rule nth_equalityI)
    show "length (contents h' c') = length (x # contents h c)"
      by (simp add: c'_def S1 S_def)
  next
    fix i assume "i < length (contents h' c')"
    then have i: "i < S + 1" by (simp add: c'_def S1)
    have nc: "contents h' c' ! i = the (ss' ! ((b + i) mod C))"
      using i sl' by (simp add: nth_contents c'_def S1 b_def C_def)
    show "contents h' c' ! i = (x # contents h c) ! i"
    proof (cases "i = 0")
      case True
      then show ?thesis using nc bC D(6) by (simp add: ss'_def C_def)
    next
      case False
      then have i0: "0 < i" by simp
      have iS: "i - 1 < S" using i i0 by simp
      have ne: "(B + (i - 1)) mod C \<noteq> b"
      proof
        assume "(B + (i - 1)) mod C = b"
        then have eq: "(B + (i - 1)) mod C = (B + (C - 1)) mod C" using b' by simp
        have "i - 1 < C" using iS SC by simp
        then have "i - 1 = C - 1" using BC C0 eq by (intro ring_phys_inj [of B C "i - 1" "C - 1"]) simp_all
        with iS room show False by (simp add: S_def C_def)
      qed
      have "contents h' c' ! i = the (ss' ! ((B + (i - 1)) mod C))"
        using nc shift [OF i0] by simp
      also have "\<dots> = the (slots h c ! ((B + (i - 1)) mod C))" using ne by (simp add: ss'_def)
      also have "\<dots> = contents h c ! (i - 1)" using iS by (simp add: nth_contents B_def C_def S_def)
      finally show ?thesis using i0 by (simp add: nth_Cons')
    qed
  qed
qed

lemma unat_le_62: "(c::size_t) \<le> 2 ^ 62 \<Longrightarrow> unat c \<le> 4611686018427387904"
  by (simp add: word_le_nat_alt)

lemma double_cap:
  fixes c :: size_t
  assumes "c \<le> 2 ^ 62"
  shows "unat (c * 2) = 2 * unat c" and "c * 2 \<le> 2 ^ 63"
proof -
  have "unat c * 2 < 18446744073709551616" using unat_le_62 [OF assms] by linarith
  then show u: "unat (c * 2) = 2 * unat c" by (simp add: unat_word_ariths)
  show "c * 2 \<le> 2 ^ 63" using unat_le_62 [OF assms] by (simp add: word_le_nat_alt u)
qed

lemma unat_4 [simp]: "unat (4 :: size_t) = 4"
  by simp

lemma four_le_63: "(4 :: size_t) \<le> 2 ^ 63"
  by simp

lemma framed_refl [simp]: "framed h c h c"
  by (simp add: framed_def)

lemma framed_trans:
  assumes "framed h c h1 c1" "framed h1 c1 h2 c2"
  shows "framed h c h2 c2"
  unfolding framed_def
proof (intro conjI allI impI)
  show "length (blocks h) \<le> length (blocks h2)"
    using assms by (simp add: framed_def)
  show "data c2 = data c \<or> data c2 = None \<or> (\<exists>a. data c2 = Some a \<and> length (blocks h) \<le> a)"
    using assms by (fastforce simp: framed_def)
next
  fix a assume a: "a < length (blocks h)" "Some a \<noteq> data c"
  then have 1: "block_at h1 (Some a) = block_at h (Some a)" using assms(1) by (simp add: framed_def)
  have "a < length (blocks h1)" using a(1) assms(1) by (simp add: framed_def)
  moreover have "Some a \<noteq> data c1" using a assms(1) by (auto simp: framed_def)
  ultimately have "block_at h2 (Some a) = block_at h1 (Some a)" using assms(2) by (simp add: framed_def)
  with 1 show "block_at h2 (Some a) = block_at h (Some a)" by simp
qed

lemma framed_faults [simp]: "framed h c (h\<lparr>faults := fs\<rparr>) c"
  by (simp add: framed_def)

lemma framed_put_block: "data c' = data c \<or> data c' = None \<Longrightarrow> framed h c (put_block (data c) b h) c'"
  by (auto simp: framed_def block_at_put_block_other)

lemma framed_same_storage:
  assumes "same_storage h h'"
  shows "framed h c h' c"
  unfolding framed_def
proof (intro conjI allI impI)
  have t: "take (length (blocks h)) (blocks h') = blocks h" using assms by (simp add: same_storage_def)
  then have "length (take (length (blocks h)) (blocks h')) = length (blocks h)" by simp
  then show le: "length (blocks h) \<le> length (blocks h')" by simp
  show "data c = data c \<or> data c = None \<or> (\<exists>a. data c = Some a \<and> length (blocks h) \<le> a)" by simp
  fix a assume a: "a < length (blocks h)"
  have "blocks h' ! a = take (length (blocks h)) (blocks h') ! a" using a by simp
  then have "blocks h' ! a = blocks h ! a" using t by simp
  then show "block_at h' (Some a) = block_at h (Some a)" using a le by (simp add: block_at_def)
qed

lemma same_storage_block_at:
  assumes "same_storage h h'"
  shows "block_at h' p = block_at h p"
proof (cases p)
  case None
  then show ?thesis by simp
next
  case (Some a)
  have t: "take (length (blocks h)) (blocks h') = blocks h"
    and d: "list_all (\<lambda>b. b = None) (drop (length (blocks h)) (blocks h'))"
    using assms by (simp_all add: same_storage_def)
  show ?thesis
  proof (cases "a < length (blocks h)")
    case True
    then show ?thesis using framed_same_storage [OF assms, of circular_buffer_new] Some
      by (simp add: framed_def circular_buffer_new_def)
  next
    case False
    show ?thesis
    proof (cases "a < length (blocks h')")
      case True
      then have "blocks h' ! a = drop (length (blocks h)) (blocks h') ! (a - length (blocks h))"
        using False by simp
      moreover have "a - length (blocks h) < length (drop (length (blocks h)) (blocks h'))"
        using True False by simp
      ultimately have "blocks h' ! a = None" using d by (simp add: list_all_length)
      then show ?thesis using Some True False by (simp add: block_at_def)
    next
      case False
      then show ?thesis using Some \<open>\<not> a < length (blocks h)\<close> by (simp add: block_at_def)
    qed
  qed
qed

lemma reserve_result:
  fixes h :: "'a heap"
  assumes v: "valid h c" and lt: "sz c < n" and n63: "n \<le> 2 ^ 63"
  defines "h1 \<equiv> put_block (data c) None
             (h\<lparr>faults := drop (Suc (unat (sz c))) (faults h),
                blocks := blocks h @ [Some (migrated (contents h c) (unat (sz c)) (unat n))]\<rparr>)"
    and "c1 \<equiv> \<lparr>sz = sz c, cap = n, data = Some (length (blocks h)), ind_begin = 0,
                ind_end = sz c\<rparr>"
  shows "valid h1 c1" and "contents h1 c1 = contents h c" and "leaked h1 = leaked h"
    and "framed h c h1 c1" and "faults h1 = drop (Suc (unat (sz c))) (faults h)"
    and "slots h1 c1 = migrated (contents h c) (unat (sz c)) (unat n)"
    and "data c \<noteq> None \<Longrightarrow> block_at h1 (data c) = None"
proof -
  define hx where "hx = h\<lparr>faults := drop (Suc (unat (sz c))) (faults h),
      blocks := blocks h @ [Some (migrated (contents h c) (unat (sz c)) (unat n))]\<rparr>"
  have h1: "h1 = put_block (data c) None hx" by (simp add: h1_def hx_def)
  have own: "data c = None \<or> (\<exists>a. data c = Some a \<and> a < length (blocks h))"
    by (rule valid_owned [OF v])
  then have neq: "Some (length (blocks h)) \<noteq> data c" by auto
  have blk: "block_at h1 (Some (length (blocks h)))
      = Some (migrated (contents h c) (unat (sz c)) (unat n))"
    unfolding h1 block_at_put_block_other [OF neq] by (simp add: hx_def block_at_def)
  have c1: "c1 = \<lparr>sz = of_nat (unat (sz c)), cap = n, data = Some (length (blocks h)),
      ind_begin = 0, ind_end = of_nat (unat (sz c))\<rparr>"
    by (simp add: c1_def)
  have j: "unat (sz c) < unat n" using lt by (simp add: word_less_nat_alt)
  have l: "unat (sz c) \<le> length (contents h c)" by simp
  show "valid h1 c1" unfolding c1 by (rule valid_linear(1) [OF n63 j l blk])
  have "contents h1 c1 = take (unat (sz c)) (contents h c)"
    unfolding c1 by (rule valid_linear(2) [OF n63 j l blk])
  then show "contents h1 c1 = contents h c" by simp
  show "leaked h1 = leaked h" by (simp add: h1 hx_def)
  show "faults h1 = drop (Suc (unat (sz c))) (faults h)" by (simp add: h1 hx_def)
  show "slots h1 c1 = migrated (contents h c) (unat (sz c)) (unat n)"
    using blk by (simp add: slots_def c1_def)
  show "framed h c h1 c1"
    unfolding framed_def
  proof (intro conjI allI impI)
    show "length (blocks h) \<le> length (blocks h1)" by (simp add: h1 hx_def)
    show "data c1 = data c \<or> data c1 = None \<or> (\<exists>a. data c1 = Some a \<and> length (blocks h) \<le> a)"
      by (simp add: c1_def)
    fix a assume a: "a < length (blocks h)" "Some a \<noteq> data c"
    have "block_at h1 (Some a) = block_at hx (Some a)"
      unfolding h1 by (rule block_at_put_block_other [OF a(2)])
    also have "\<dots> = block_at h (Some a)"
      by (rule block_at_extend [where bs = "[Some (migrated (contents h c) (unat (sz c)) (unat n))]"])
        (use a in \<open>simp_all add: hx_def\<close>)
    finally show "block_at h1 (Some a) = block_at h (Some a)" .
  qed
  show "block_at h1 (data c) = None" if "data c \<noteq> None"
  proof -
    from that own obtain a where a: "data c = Some a" "a < length (blocks h)" by auto
    then show ?thesis by (simp add: h1 hx_def put_block_def block_at_def)
  qed
qed

lemma emplace_back_spec:
  fixes h :: "'a heap"
  assumes v: "valid h c" and room: "unat (sz c) + 1 < unat (cap c)"
  shows "\<exists>h' c'. valid h' c' \<and> cap c' = cap c \<and> data c' = data c \<and> leaked h' = leaked h
      \<and> framed h c h' c'
      \<and> (emplace_back x (h, c) = Returns () (h', c') \<and> contents h' c' = contents h c @ [x]
          \<or> emplace_back x (h, c) = Throws Copy_failed (h', c') \<and> c' = c
              \<and> contents h' c' = contents h c \<and> faults h \<noteq> [])
      \<and> (faults h = [] \<longrightarrow> faults h' = [])"
proof (cases "faults h \<noteq> [] \<and> hd (faults h)")
  case True
  let ?h' = "h\<lparr>faults := tl (faults h)\<rparr>"
  have same: "block_at ?h' (data c) = block_at h (data c)" by simp
  have "emplace_back x (h, c) = Throws Copy_failed (?h', c)"
    using emplace_back_valid(1) [OF v room, where x = x] True by simp
  moreover have "valid ?h' c" using v by (simp add: valid_heap_cong [OF same])
  moreover have "contents ?h' c = contents h c" by (rule contents_heap_cong [OF same])
  ultimately show ?thesis using True by (intro exI [of _ ?h'] exI [of _ c]) simp
next
  case False
  define h' where "h' = put_block (data c) (Some ((slots h c)[unat (ind_end c) := Some x]))
                  (h\<lparr>faults := tl (faults h)\<rparr>)"
  define c' where "c' = c\<lparr>ind_end := (ind_end c + 1) mod cap c, sz := sz c + 1\<rparr>"
  note E = emplace_back_valid(1-3) [OF v room, where x = x, folded h'_def c'_def]
  have "emplace_back x (h, c) = Returns () (h', c')" using E(1) False by simp
  moreover have "framed h c h' c'"
  proof (rule framed_trans)
    show "framed h c (h\<lparr>faults := tl (faults h)\<rparr>) c" by simp
    show "framed (h\<lparr>faults := tl (faults h)\<rparr>) c h' c'"
      unfolding h'_def by (rule framed_put_block) (simp add: c'_def)
  qed
  moreover have "faults h = [] \<longrightarrow> faults h' = []" by (simp add: h'_def)
  moreover have "leaked h' = leaked h" "cap c' = cap c" "data c' = data c"
    by (simp_all add: h'_def c'_def)
  ultimately show ?thesis using E(2,3) by (intro exI [of _ h'] exI [of _ c']) simp
qed

lemma emplace_front_spec:
  fixes h :: "'a heap"
  assumes v: "valid h c" and room: "unat (sz c) + 1 < unat (cap c)"
  shows "\<exists>h' c'. valid h' c' \<and> cap c' = cap c \<and> data c' = data c \<and> leaked h' = leaked h
      \<and> framed h c h' c'
      \<and> (emplace_front x (h, c) = Returns () (h', c') \<and> contents h' c' = x # contents h c
          \<or> emplace_front x (h, c) = Throws Copy_failed (h', c') \<and> c' = c
              \<and> contents h' c' = contents h c \<and> faults h \<noteq> [])
      \<and> (faults h = [] \<longrightarrow> faults h' = [])"
proof (cases "faults h \<noteq> [] \<and> hd (faults h)")
  case True
  let ?h' = "h\<lparr>faults := tl (faults h)\<rparr>"
  have same: "block_at ?h' (data c) = block_at h (data c)" by simp
  have "emplace_front x (h, c) = Throws Copy_failed (?h', c)"
    using emplace_front_valid(1) [OF v room, where x = x] True by simp
  moreover have "valid ?h' c" using v by (simp add: valid_heap_cong [OF same])
  moreover have "contents ?h' c = contents h c" by (rule contents_heap_cong [OF same])
  ultimately show ?thesis using True by (intro exI [of _ ?h'] exI [of _ c]) simp
next
  case False
  define h' where "h' = put_block (data c)
                  (Some ((slots h c)[unat ((ind_begin c - 1 + cap c) mod cap c) := Some x]))
                  (h\<lparr>faults := tl (faults h)\<rparr>)"
  define c' where "c' = c\<lparr>ind_begin := (ind_begin c - 1 + cap c) mod cap c, sz := sz c + 1\<rparr>"
  note E = emplace_front_valid(1-3) [OF v room, where x = x, folded h'_def c'_def]
  have "emplace_front x (h, c) = Returns () (h', c')" using E(1) False by simp
  moreover have "framed h c h' c'"
  proof (rule framed_trans)
    show "framed h c (h\<lparr>faults := tl (faults h)\<rparr>) c" by simp
    show "framed (h\<lparr>faults := tl (faults h)\<rparr>) c h' c'"
      unfolding h'_def by (rule framed_put_block) (simp add: c'_def)
  qed
  moreover have "faults h = [] \<longrightarrow> faults h' = []" by (simp add: h'_def)
  moreover have "leaked h' = leaked h" "cap c' = cap c" "data c' = data c"
    by (simp_all add: h'_def c'_def)
  ultimately show ?thesis using E(2,3) by (intro exI [of _ h'] exI [of _ c']) simp
qed

lemma grow_then:
  fixes h :: "'a heap" and E :: "'a state \<Rightarrow> (unit, 'a state) outcome" and f :: "'a list \<Rightarrow> 'a list"
  assumes E: "\<And>(h1 :: 'a heap) c1. valid h1 c1 \<Longrightarrow> unat (sz c1) + 1 < unat (cap c1) \<Longrightarrow>
      \<exists>h' c'. valid h' c' \<and> cap c' = cap c1 \<and> data c' = data c1 \<and> leaked h' = leaked h1
        \<and> framed h1 c1 h' c'
        \<and> (E (h1, c1) = Returns () (h', c') \<and> contents h' c' = f (contents h1 c1)
           \<or> E (h1, c1) = Throws Copy_failed (h', c') \<and> c' = c1
              \<and> contents h' c' = contents h1 c1 \<and> faults h1 \<noteq> [])
        \<and> (faults h1 = [] \<longrightarrow> faults h' = [])"
    and v: "valid h c" and m: "cap c = 0 \<or> 4 \<le> cap c"
    and lt: "sz c < n" and n63: "n \<le> 2 ^ 63" and room: "unat (sz c) + 1 < unat n"
    and n4: "4 \<le> n"
  shows "\<exists>h' c'. valid h' c' \<and> (cap c' = 0 \<or> 4 \<le> cap c') \<and> leaked h' = leaked h
      \<and> framed h c h' c'
      \<and> (bind (reserve n (h, c)) (\<lambda>_. E) = Returns () (h', c')
            \<and> contents h' c' = f (contents h c) \<and> cap c' = n
         \<or> (\<exists>e. bind (reserve n (h, c)) (\<lambda>_. E) = Throws e (h', c'))
            \<and> contents h' c' = contents h c \<and> faults h \<noteq> [] \<and> (cap c' = cap c \<or> cap c' = n))
      \<and> (faults h = [] \<longrightarrow> faults h' = [])"
proof (cases "True \<in> set (take (Suc (unat (sz c))) (faults h))")
  case True
  with reserve_valid [OF v lt n63] obtain e h' where
    r: "reserve n (h, c) = Throws e (h', c)" and s: "same_storage h h'" by blast
  have same: "block_at h' (data c) = block_at h (data c)" by (rule same_storage_block_at [OF s])
  have "valid h' c" using v by (simp add: valid_heap_cong [OF same])
  moreover have "contents h' c = contents h c" by (rule contents_heap_cong [OF same])
  moreover have "leaked h' = leaked h" using s by (simp add: same_storage_def)
  moreover have "framed h c h' c" by (rule framed_same_storage [OF s])
  moreover have "faults h \<noteq> []" using True by auto
  moreover have "\<exists>e. bind (reserve n (h, c)) (\<lambda>_. E) = Throws e (h', c)" using r by simp
  ultimately show ?thesis using m by (intro exI [of _ h'] exI [of _ c]) simp
next
  case False
  define h1 where "h1 = put_block (data c) None
             (h\<lparr>faults := drop (Suc (unat (sz c))) (faults h),
                blocks := blocks h @ [Some (migrated (contents h c) (unat (sz c)) (unat n))]\<rparr>)"
  define c1 where "c1 = \<lparr>sz = sz c, cap = n, data = Some (length (blocks h)), ind_begin = 0,
                ind_end = sz c\<rparr>"
  note R = reserve_result [OF v lt n63, folded h1_def c1_def]
  have r: "reserve n (h, c) = Returns () (h1, c1)"
    using reserve_valid [OF v lt n63] False by (simp add: h1_def c1_def)
  have room1: "unat (sz c1) + 1 < unat (cap c1)" using room by (simp add: c1_def)
  from E [OF R(1) room1] obtain h' c' where
    P: "valid h' c'" "cap c' = cap c1" "data c' = data c1" "leaked h' = leaked h1"
      "framed h1 c1 h' c'"
      "E (h1, c1) = Returns () (h', c') \<and> contents h' c' = f (contents h1 c1)
           \<or> E (h1, c1) = Throws Copy_failed (h', c') \<and> c' = c1
              \<and> contents h' c' = contents h1 c1 \<and> faults h1 \<noteq> []"
      "faults h1 = [] \<longrightarrow> faults h' = []"
    by blast
  have b: "bind (reserve n (h, c)) (\<lambda>_. E) = E (h1, c1)" using r by simp
  have capn: "cap c' = n" using P(2) by (simp add: c1_def)
  have fr: "framed h c h' c'" by (rule framed_trans [OF R(4) P(5)])
  have lk: "leaked h' = leaked h" using P(4) R(3) by simp
  have fl: "faults h = [] \<longrightarrow> faults h' = []" using P(7) R(5) by simp
  have fne: "faults h1 \<noteq> [] \<Longrightarrow> faults h \<noteq> []" using R(5) by auto
  from P(6) show ?thesis
  proof
    assume "E (h1, c1) = Returns () (h', c') \<and> contents h' c' = f (contents h1 c1)"
    then show ?thesis
      using P(1) capn n4 fr lk fl R(2) b by (intro exI [of _ h'] exI [of _ c']) simp
  next
    assume a: "E (h1, c1) = Throws Copy_failed (h', c') \<and> c' = c1
              \<and> contents h' c' = contents h1 c1 \<and> faults h1 \<noteq> []"
    then have "\<exists>e. bind (reserve n (h, c)) (\<lambda>_. E) = Throws e (h', c')" using b by simp
    moreover from a have "contents h' c' = contents h1 c1" by blast
    then have "contents h' c' = contents h c" using R(2) by simp
    moreover have "faults h \<noteq> []" using a fne by simp
    ultimately have "(\<exists>e. bind (reserve n (h, c)) (\<lambda>_. E) = Throws e (h', c'))
            \<and> contents h' c' = contents h c \<and> faults h \<noteq> [] \<and> (cap c' = cap c \<or> cap c' = n)"
      using capn by simp
    moreover have "cap c' = 0 \<or> 4 \<le> cap c'" using capn n4 by simp
    ultimately show ?thesis using P(1) fr lk fl by blast
  qed
qed

lemma push_generic:
  fixes h :: "'a heap" and E :: "'a state \<Rightarrow> (unit, 'a state) outcome" and f :: "'a list \<Rightarrow> 'a list"
  assumes E: "\<And>(h1 :: 'a heap) c1. valid h1 c1 \<Longrightarrow> unat (sz c1) + 1 < unat (cap c1) \<Longrightarrow>
      \<exists>h' c'. valid h' c' \<and> cap c' = cap c1 \<and> data c' = data c1 \<and> leaked h' = leaked h1
        \<and> framed h1 c1 h' c'
        \<and> (E (h1, c1) = Returns () (h', c') \<and> contents h' c' = f (contents h1 c1)
           \<or> E (h1, c1) = Throws Copy_failed (h', c') \<and> c' = c1
              \<and> contents h' c' = contents h1 c1 \<and> faults h1 \<noteq> [])
        \<and> (faults h1 = [] \<longrightarrow> faults h' = [])"
    and v: "valid h c" and m: "cap c = 0 \<or> 4 \<le> cap c"
    and n: "sz c \<noteq> 0 \<Longrightarrow> sz c = cap c - 1 \<Longrightarrow>
        sz c < n \<and> n \<le> 2 ^ 63 \<and> unat (sz c) + 1 < unat n \<and> 4 \<le> n"
    and P: "P = bind (if empty_cb c then reserve 4 (h, c)
                      else if sz c = cap c - 1 then reserve n (h, c)
                      else Returns () (h, c)) (\<lambda>_. E)"
  shows "\<exists>h' c'. valid h' c' \<and> (cap c' = 0 \<or> 4 \<le> cap c') \<and> leaked h' = leaked h
      \<and> framed h c h' c'
      \<and> (P = Returns () (h', c') \<and> contents h' c' = f (contents h c)
            \<and> cap c' = (if sz c = 0 then 4 else if sz c = cap c - 1 then n else cap c)
            \<and> (sz c \<noteq> 0 \<longrightarrow> sz c \<noteq> cap c - 1 \<longrightarrow> data c' = data c)
         \<or> (\<exists>e. P = Throws e (h', c')) \<and> contents h' c' = contents h c \<and> faults h \<noteq> []
            \<and> (cap c' = cap c
                \<or> (sz c = 0 \<or> sz c = cap c - 1) \<and> cap c' = (if sz c = 0 then 4 else n)))
      \<and> (faults h = [] \<longrightarrow> faults h' = [])"
proof (cases "sz c = 0")
  case True
  have lt: "sz c < 4" using True by simp
  have room: "unat (sz c) + 1 < unat (4 :: size_t)" using True by simp
  have P4: "P = bind (reserve 4 (h, c)) (\<lambda>_. E)" using True by (simp add: P empty_cb_def)
  from grow_then [of E f, OF E v m lt four_le_63 room order_refl]
  show ?thesis unfolding P4 [symmetric] using True by auto
next
  case nz: False
  show ?thesis
  proof (cases "sz c = cap c - 1")
    case True
    from n [OF nz True] have lt: "sz c < n" and n63: "n \<le> 2 ^ 63"
      and room: "unat (sz c) + 1 < unat n" and n4: "4 \<le> n" by simp_all
    have Pn: "P = bind (reserve n (h, c)) (\<lambda>_. E)" using nz True by (simp add: P empty_cb_def)
    from grow_then [of E f, OF E v m lt n63 room n4]
    show ?thesis unfolding Pn [symmetric] using nz True by auto
  next
    case False
    have c0: "cap c \<noteq> 0" using v nz by (auto simp: valid_def)
    have "unat (sz c) < unat (cap c)" by (rule valid_nat(2) [OF v c0])
    moreover have "unat (sz c) \<noteq> unat (cap c) - 1"
    proof
      assume "unat (sz c) = unat (cap c) - 1"
      then have "unat (sz c) = unat (cap c - 1)" using c0 by (simp add: unat_minus_one)
      then have "sz c = cap c - 1" by (simp add: word_unat_eq_iff)
      with False show False by simp
    qed
    ultimately have room: "unat (sz c) + 1 < unat (cap c)" by linarith
    have P0: "P = E (h, c)" using nz False by (simp add: P empty_cb_def)
    have c4: "4 \<le> cap c" using m c0 by simp
    from E [OF v room] obtain h' c' where
      Q: "valid h' c'" "cap c' = cap c" "data c' = data c" "leaked h' = leaked h"
        "framed h c h' c'"
        "E (h, c) = Returns () (h', c') \<and> contents h' c' = f (contents h c)
           \<or> E (h, c) = Throws Copy_failed (h', c') \<and> c' = c
              \<and> contents h' c' = contents h c \<and> faults h \<noteq> []"
        "faults h = [] \<longrightarrow> faults h' = []"
      by blast
    from Q(6) show ?thesis
    proof
      assume "E (h, c) = Returns () (h', c') \<and> contents h' c' = f (contents h c)"
      then show ?thesis
        using Q(1-5,7) c4 nz False P0 by (intro exI [of _ h'] exI [of _ c']) simp
    next
      assume a: "E (h, c) = Throws Copy_failed (h', c') \<and> c' = c
              \<and> contents h' c' = contents h c \<and> faults h \<noteq> []"
      then have "\<exists>e. P = Throws e (h', c')" using P0 by simp
      moreover from a have "contents h' c' = contents h c" "faults h \<noteq> []" by blast+
      ultimately have "(\<exists>e. P = Throws e (h', c')) \<and> contents h' c' = contents h c \<and> faults h \<noteq> []
            \<and> (cap c' = cap c
                \<or> (sz c = 0 \<or> sz c = cap c - 1) \<and> cap c' = (if sz c = 0 then 4 else n))"
        using Q(2) by simp
      moreover have "cap c' = 0 \<or> 4 \<le> cap c'" using Q(2) c4 by simp
      ultimately show ?thesis using Q(1,4,5,7) by blast
    qed
  qed
qed

lemma push_back_spec:
  fixes h :: "'a heap"
  assumes v: "valid h c" and m: "cap c = 0 \<or> 4 \<le> cap c"
    and g: "sz c = cap c - 1 \<Longrightarrow> cap c \<le> 2 ^ 62"
  shows "\<exists>h' c'. valid h' c' \<and> (cap c' = 0 \<or> 4 \<le> cap c') \<and> leaked h' = leaked h
      \<and> framed h c h' c'
      \<and> (push_back (Object x) (h, c) = Returns () (h', c') \<and> contents h' c' = contents h c @ [x]
            \<and> cap c' = (if sz c = 0 then 4 else if sz c = cap c - 1 then cap c * 2 else cap c)
            \<and> (sz c \<noteq> 0 \<longrightarrow> sz c \<noteq> cap c - 1 \<longrightarrow> data c' = data c)
         \<or> (\<exists>e. push_back (Object x) (h, c) = Throws e (h', c')) \<and> contents h' c' = contents h c
            \<and> faults h \<noteq> [] \<and> (cap c' = cap c
                \<or> (sz c = 0 \<or> sz c = cap c - 1) \<and> cap c' = (if sz c = 0 then 4 else cap c * 2)))
      \<and> (faults h = [] \<longrightarrow> faults h' = [])"
proof (rule push_generic [where E = "emplace_back x" and f = "\<lambda>xs. xs @ [x]" and n = "cap c * 2",
      OF _ v m])
  show "\<exists>h' c'. valid h' c' \<and> cap c' = cap c1 \<and> data c' = data c1 \<and> leaked h' = leaked h1
        \<and> framed h1 c1 h' c'
        \<and> (emplace_back x (h1, c1) = Returns () (h', c') \<and> contents h' c' = contents h1 c1 @ [x]
           \<or> emplace_back x (h1, c1) = Throws Copy_failed (h', c') \<and> c' = c1
              \<and> contents h' c' = contents h1 c1 \<and> faults h1 \<noteq> [])
        \<and> (faults h1 = [] \<longrightarrow> faults h' = [])"
    if "valid h1 c1" "unat (sz c1) + 1 < unat (cap c1)" for h1 :: "'a heap" and c1
    using that by (rule emplace_back_spec)
  show "sz c < cap c * 2 \<and> cap c * 2 \<le> 2 ^ 63 \<and> unat (sz c) + 1 < unat (cap c * 2) \<and> 4 \<le> cap c * 2"
    if nz: "sz c \<noteq> 0" and full: "sz c = cap c - 1"
  proof -
    have c0: "cap c \<noteq> 0" using v nz by (auto simp: valid_def)
    note dc = double_cap [OF g [OF full]]
    have S: "unat (sz c) < unat (cap c)" by (rule valid_nat(2) [OF v c0])
    have c4: "4 \<le> unat (cap c)" using m c0 by (simp add: word_le_nat_alt)
    have "sz c < cap c * 2" using S dc(1) by (simp add: word_less_nat_alt)
    moreover have "unat (sz c) + 1 < unat (cap c * 2)" using S c4 dc(1) by simp
    moreover have "4 \<le> cap c * 2" using c4 dc(1) by (simp add: word_le_nat_alt)
    ultimately show ?thesis using dc(2) by simp
  qed
  show "push_back (Object x) (h, c) =
    bind (if empty_cb c then reserve 4 (h, c)
          else if sz c = cap c - 1 then reserve (cap c * 2) (h, c) else Returns () (h, c))
      (\<lambda>_. emplace_back x)"
    by (simp add: push_back_emplace)
qed

lemma push_front_spec:
  fixes h :: "'a heap"
  assumes v: "valid h c" and m: "cap c = 0 \<or> 4 \<le> cap c"
    and g: "sz c = cap c - 1 \<Longrightarrow> cap c \<le> 2 ^ 62"
  shows "\<exists>h' c'. valid h' c' \<and> (cap c' = 0 \<or> 4 \<le> cap c') \<and> leaked h' = leaked h
      \<and> framed h c h' c'
      \<and> (push_front (Object x) (h, c) = Returns () (h', c') \<and> contents h' c' = x # contents h c
            \<and> cap c' = (if sz c = 0 then 4 else if sz c = cap c - 1 then sz c * 2 else cap c)
            \<and> (sz c \<noteq> 0 \<longrightarrow> sz c \<noteq> cap c - 1 \<longrightarrow> data c' = data c)
         \<or> (\<exists>e. push_front (Object x) (h, c) = Throws e (h', c')) \<and> contents h' c' = contents h c
            \<and> faults h \<noteq> [] \<and> (cap c' = cap c
                \<or> (sz c = 0 \<or> sz c = cap c - 1) \<and> cap c' = (if sz c = 0 then 4 else sz c * 2)))
      \<and> (faults h = [] \<longrightarrow> faults h' = [])"
proof (rule push_generic [where E = "emplace_front x" and f = "\<lambda>xs. x # xs" and n = "sz c * 2",
      OF _ v m])
  show "\<exists>h' c'. valid h' c' \<and> cap c' = cap c1 \<and> data c' = data c1 \<and> leaked h' = leaked h1
        \<and> framed h1 c1 h' c'
        \<and> (emplace_front x (h1, c1) = Returns () (h', c') \<and> contents h' c' = x # contents h1 c1
           \<or> emplace_front x (h1, c1) = Throws Copy_failed (h', c') \<and> c' = c1
              \<and> contents h' c' = contents h1 c1 \<and> faults h1 \<noteq> [])
        \<and> (faults h1 = [] \<longrightarrow> faults h' = [])"
    if "valid h1 c1" "unat (sz c1) + 1 < unat (cap c1)" for h1 :: "'a heap" and c1
    using that by (rule emplace_front_spec)
  show "sz c < sz c * 2 \<and> sz c * 2 \<le> 2 ^ 63 \<and> unat (sz c) + 1 < unat (sz c * 2) \<and> 4 \<le> sz c * 2"
    if nz: "sz c \<noteq> 0" and full: "sz c = cap c - 1"
  proof -
    have c0: "cap c \<noteq> 0" using v nz by (auto simp: valid_def)
    have c62: "cap c \<le> 2 ^ 62" by (rule g [OF full])
    have S: "unat (sz c) = unat (cap c) - 1" using full c0 by (simp add: unat_minus_one)
    have "sz c \<le> cap c" using S by (simp add: word_le_nat_alt)
    then have s62: "sz c \<le> 2 ^ 62" using c62 by (rule order_trans)
    note ds = double_cap [OF s62]
    have c4: "4 \<le> unat (cap c)" using m c0 by (simp add: word_le_nat_alt)
    have "sz c < sz c * 2" using S c4 ds(1) by (simp add: word_less_nat_alt)
    moreover have "unat (sz c) + 1 < unat (sz c * 2)" using S c4 ds(1) by simp
    moreover have "4 \<le> sz c * 2" using S c4 ds(1) by (simp add: word_le_nat_alt)
    ultimately show ?thesis using ds(2) by simp
  qed
  show "push_front (Object x) (h, c) =
    bind (if empty_cb c then reserve 4 (h, c)
          else if sz c = cap c - 1 then reserve (sz c * 2) (h, c) else Returns () (h, c))
      (\<lambda>_. emplace_front x)"
    by (simp add: push_front_emplace)
qed

subsection \<open>Element access\<close>

lemma index_valid:
  assumes v: "valid h c" and i: "i < sz c"
  shows "index i (h, c) = Returns (contents h c ! unat i) (h, c)"
proof -
  have c0: "cap c \<noteq> 0" using v i by (auto simp: valid_def)
  note D = validD [OF v c0] and N = valid_nat [OF v c0]
  have ile: "i \<le> cap c" using i D(2) by simp
  have iS: "unat i < unat (sz c)" using i by (simp add: word_less_nat_alt)
  have u: "unat ((ind_begin c + i) mod cap c) = (unat (ind_begin c) + unat i) mod unat (cap c)"
    by (rule unat_ring_add [OF D(1) D(3) ile])
  have "(unat (ind_begin c) + unat i) mod unat (cap c) < unat (cap c)" using N(1) by simp
  then have "load (data c) ((ind_begin c + i) mod cap c) h = Some (contents h c ! unat i)"
    using D(5,6) valid_slot_live [OF v c0 iS] u by (simp add: load_def)
  then show ?thesis using i c0 by (simp add: index_def)
qed

lemma front_valid:
  assumes v: "valid h c" and nz: "sz c \<noteq> 0"
  shows "front (h, c) = Returns (hd (contents h c)) (h, c)"
proof -
  have c0: "cap c \<noteq> 0" using v nz by (auto simp: valid_def)
  note D = validD [OF v c0] and N = valid_nat [OF v c0]
  have S: "0 < unat (sz c)" using nz by (simp add: unat_gt_0)
  have "slots h c ! unat (ind_begin c) = Some (contents h c ! 0)"
    using valid_slot_live [OF v c0 S] N(3) by simp
  then have "load (data c) (ind_begin c) h = Some (contents h c ! 0)"
    using D(5,6) N(3) by (simp add: load_def)
  moreover have "contents h c ! 0 = hd (contents h c)"
    using S by (intro hd_conv_nth [symmetric]) (simp add: length_0_conv [symmetric] del: length_0_conv)
  ultimately show ?thesis using nz by (simp add: front_def word_neq_0_conv)
qed

lemma back_valid:
  assumes v: "valid h c" and nz: "sz c \<noteq> 0"
  shows "back_cb (h, c) = Returns (last (contents h c)) (h, c)"
proof -
  have c0: "cap c \<noteq> 0" using v nz by (auto simp: valid_def)
  note D = validD [OF v c0] and N = valid_nat [OF v c0]
  have S: "0 < unat (sz c)" using nz by (simp add: unat_gt_0)
  have S1: "unat (sz c) - 1 < unat (sz c)" using S by simp
  have "unat ((ind_end c - 1 + cap c) mod cap c) = (unat (ind_end c) + unat (cap c) - 1) mod unat (cap c)"
    by (rule unat_ring_dec [OF D(1) N(5)])
  also have "\<dots> = (unat (ind_begin c) + (unat (sz c) - 1)) mod unat (cap c)"
    unfolding D(4) by (rule ring_dec_end [OF S N(1)])
  finally have u: "unat ((ind_end c - 1 + cap c) mod cap c)
      = (unat (ind_begin c) + (unat (sz c) - 1)) mod unat (cap c)" .
  have "(unat (ind_begin c) + (unat (sz c) - 1)) mod unat (cap c) < unat (cap c)"
    using N(1) by simp
  then have "load (data c) ((ind_end c - 1 + cap c) mod cap c) h
      = Some (contents h c ! (unat (sz c) - 1))"
    using D(5,6) valid_slot_live [OF v c0 S1] u by (simp add: load_def)
  moreover have "contents h c ! (unat (sz c) - 1) = last (contents h c)"
    using S by (subst last_conv_nth) (auto simp: length_0_conv [symmetric] simp del: length_0_conv)
  ultimately show ?thesis using nz c0 by (simp add: back_cb_def word_neq_0_conv)
qed

subsection \<open>Operation sequences\<close>

lemma unat_le_cap62:
  fixes c :: size_t
  assumes "unat c \<le> 2 * M + 4" "M \<le> 1152921504606846976"
  shows "c \<le> 2 ^ 62"
proof -
  have "unat c \<le> 4611686018427387904" using assms by linarith
  then show ?thesis by (simp add: word_le_nat_alt)
qed

lemma exec_refines:
  fixes h :: "'a heap"
  assumes v: "valid h c" and m: "cap c = 0 \<or> 4 \<le> cap c" and nf: "faults h = []"
    and ms: "model_step x (contents h c) = Some ys"
    and S: "unat (sz c) \<le> M" and C: "unat (cap c) \<le> 2 * M + 4"
    and M: "M < 1152921504606846976"
  shows "\<exists>h' c'. exec x (h, c) = Returns () (h', c') \<and> valid h' c' \<and> (cap c' = 0 \<or> 4 \<le> cap c')
      \<and> faults h' = [] \<and> contents h' c' = ys \<and> unat (sz c') \<le> Suc M
      \<and> unat (cap c') \<le> 2 * Suc M + 4"
proof -
  have c62: "cap c \<le> 2 ^ 62" using C M by (intro unat_le_cap62 [of _ M]) simp_all
  show ?thesis
  proof (cases x)
    case (Push_back a)
    from push_back_spec [OF v m c62, of a] obtain h' c' where
      A: "valid h' c'" "cap c' = 0 \<or> 4 \<le> cap c'"
        "push_back (Object a) (h, c) = Returns () (h', c') \<and> contents h' c' = contents h c @ [a]
            \<and> cap c' = (if sz c = 0 then 4 else if sz c = cap c - 1 then cap c * 2 else cap c)
            \<and> (sz c \<noteq> 0 \<longrightarrow> sz c \<noteq> cap c - 1 \<longrightarrow> data c' = data c)
         \<or> (\<exists>e. push_back (Object a) (h, c) = Throws e (h', c')) \<and> contents h' c' = contents h c
            \<and> faults h \<noteq> [] \<and> (cap c' = cap c
                \<or> (sz c = 0 \<or> sz c = cap c - 1) \<and> cap c' = (if sz c = 0 then 4 else cap c * 2))"
        "faults h = [] \<longrightarrow> faults h' = []"
      by blast
    from A(3) nf have B: "push_back (Object a) (h, c) = Returns () (h', c')" "contents h' c' = contents h c @ [a]"
        "cap c' = (if sz c = 0 then 4 else if sz c = cap c - 1 then cap c * 2 else cap c)"
      by blast+
    note P = A(1,2) A(4) [rule_format, OF nf] B
    have "length (contents h' c') = Suc (length (contents h c))" using P(5) by simp
    then have S': "unat (sz c') = Suc (unat (sz c))" by simp
    have C': "unat (cap c') \<le> 2 * Suc M + 4"
    proof (cases "sz c = 0")
      case True
      then show ?thesis using P(6) by simp
    next
      case nz: False
      show ?thesis
      proof (cases "sz c = cap c - 1")
        case True
        have c0: "cap c \<noteq> 0" using v nz by (auto simp: valid_def)
        have "unat (sz c) = unat (cap c) - 1" using True c0 by (simp add: unat_minus_one)
        moreover have "0 < unat (cap c)" using c0 by (simp add: unat_gt_0)
        ultimately have "unat (cap c) \<le> M + 1" using S by linarith
        then show ?thesis using P(6) nz True double_cap(1) [OF c62] by simp
      next
        case False
        then show ?thesis using P(6) nz C by simp
      qed
    qed
    show ?thesis using P(1-5) S' C' S ms Push_back by auto
  next
    case (Push_front a)
    from push_front_spec [OF v m c62, of a] obtain h' c' where
      A: "valid h' c'" "cap c' = 0 \<or> 4 \<le> cap c'"
        "push_front (Object a) (h, c) = Returns () (h', c') \<and> contents h' c' = a # contents h c
            \<and> cap c' = (if sz c = 0 then 4 else if sz c = cap c - 1 then sz c * 2 else cap c)
            \<and> (sz c \<noteq> 0 \<longrightarrow> sz c \<noteq> cap c - 1 \<longrightarrow> data c' = data c)
         \<or> (\<exists>e. push_front (Object a) (h, c) = Throws e (h', c')) \<and> contents h' c' = contents h c
            \<and> faults h \<noteq> [] \<and> (cap c' = cap c
                \<or> (sz c = 0 \<or> sz c = cap c - 1) \<and> cap c' = (if sz c = 0 then 4 else sz c * 2))"
        "faults h = [] \<longrightarrow> faults h' = []"
      by blast
    from A(3) nf have B: "push_front (Object a) (h, c) = Returns () (h', c')" "contents h' c' = a # contents h c"
        "cap c' = (if sz c = 0 then 4 else if sz c = cap c - 1 then sz c * 2 else cap c)"
      by blast+
    note P = A(1,2) A(4) [rule_format, OF nf] B
    have "length (contents h' c') = Suc (length (contents h c))" using P(5) by simp
    then have S': "unat (sz c') = Suc (unat (sz c))" by simp
    have C': "unat (cap c') \<le> 2 * Suc M + 4"
    proof (cases "sz c = 0")
      case True
      then show ?thesis using P(6) by simp
    next
      case nz: False
      show ?thesis
      proof (cases "sz c = cap c - 1")
        case True
        have c0: "cap c \<noteq> 0" using v nz by (auto simp: valid_def)
        have "sz c \<le> cap c" using validD(2) [OF v c0] by simp
        then have "sz c \<le> 2 ^ 62" using c62 by (rule order_trans)
        then have "unat (sz c * 2) = 2 * unat (sz c)" by (rule double_cap(1))
        then show ?thesis using P(6) nz True S by simp
      next
        case False
        then show ?thesis using P(6) nz C by simp
      qed
    qed
    show ?thesis using P(1-5) S' C' S ms Push_front by auto
  next
    case Pop_back
    with ms have ne: "contents h c \<noteq> []" and ys: "ys = butlast (contents h c)"
      by (auto split: if_splits)
    from ne have nz: "sz c \<noteq> 0" by (auto simp: contents_def)
    from pop_back_valid [OF v nz] obtain h' c' where
      P: "pop_back (h, c) = Returns () (h', c')" "valid h' c'"
        "contents h' c' = butlast (contents h c)"
        "c' = c\<lparr>sz := sz c - 1, ind_end := (ind_end c - 1 + cap c) mod cap c\<rparr>"
        "h' = put_block (data c) (Some ((slots h c)[unat (ind_end c') := None])) h"
      by blast
    have "unat (sz c') = unat (sz c) - 1" using P(4) nz by (simp add: unat_minus_one)
    moreover have "cap c' = cap c" using P(4) by simp
    moreover have "faults h' = []" using P(5) nf by simp
    ultimately show ?thesis using P(1-3) ys m S C Pop_back by auto
  next
    case Pop_front
    with ms have ne: "contents h c \<noteq> []" and ys: "ys = tl (contents h c)"
      by (auto split: if_splits)
    from ne have nz: "sz c \<noteq> 0" by (auto simp: contents_def)
    from pop_front_valid [OF v nz] obtain h' c' where
      P: "pop_front (h, c) = Returns () (h', c')" "valid h' c'"
        "contents h' c' = tl (contents h c)"
        "c' = c\<lparr>sz := sz c - 1, ind_begin := (ind_begin c + 1) mod cap c\<rparr>"
        "h' = put_block (data c) (Some ((slots h c)[unat (ind_begin c) := None])) h"
      by blast
    have "unat (sz c') = unat (sz c) - 1" using P(4) nz by (simp add: unat_minus_one)
    moreover have "cap c' = cap c" using P(4) by simp
    moreover have "faults h' = []" using P(5) nf by simp
    ultimately show ?thesis using P(1-3) ys m S C Pop_front by auto
  qed
qed

lemma run_refines:
  fixes h :: "'a heap"
  assumes "valid h c" and "cap c = 0 \<or> 4 \<le> cap c" and "faults h = []"
    and "model_run ops (contents h c) = Some xs"
    and "unat (sz c) \<le> M" and "unat (cap c) \<le> 2 * M + 4"
    and "M + length ops \<le> 1152921504606846976"
  shows "\<exists>h' c'. run ops (h, c) = Returns () (h', c') \<and> valid h' c' \<and> faults h' = []
      \<and> contents h' c' = xs"
  using assms
proof (induction ops arbitrary: h c M)
  case Nil
  then show ?case by simp
next
  case (Cons x ops)
  from Cons.prems(4) obtain ys where ys: "model_step x (contents h c) = Some ys"
    and rest: "model_run ops ys = Some xs"
    by (auto split: option.splits)
  have M: "M < 1152921504606846976" using Cons.prems(7) by simp
  from exec_refines [OF Cons.prems(1-3) ys Cons.prems(5,6) M] obtain h1 c1 where
    E: "exec x (h, c) = Returns () (h1, c1)" "valid h1 c1" "cap c1 = 0 \<or> 4 \<le> cap c1"
      "faults h1 = []" "contents h1 c1 = ys" "unat (sz c1) \<le> Suc M"
      "unat (cap c1) \<le> 2 * Suc M + 4"
    by blast
  have "model_run ops (contents h1 c1) = Some xs" using rest E(5) by simp
  moreover have "Suc M + length ops \<le> 1152921504606846976" using Cons.prems(7) by simp
  ultimately obtain h' c' where
    "run ops (h1, c1) = Returns () (h', c')" "valid h' c'" "faults h' = []" "contents h' c' = xs"
    using Cons.IH [OF E(2,3,4) _ E(6,7)] by blast
  then show ?case using E(1) by simp
qed

subsection \<open>Iterators\<close>

lemma get_pos_position:
  assumes "it_cap a \<noteq> 0" "it_cap a \<le> 2 ^ 63" "it_ind a < it_cap a" "it_ind_begin a < it_cap a"
  shows "\<exists>x. get_pos a = Some x \<and> uint x = position_of a \<and> unat x < unat (it_cap a)
    \<and> unat x = (unat (it_ind a) + unat (it_cap a) - unat (it_ind_begin a)) mod unat (it_cap a)"
proof -
  let ?x = "(it_ind a + it_cap a - it_ind_begin a) mod it_cap a"
  have u: "unat ?x = (unat (it_ind a) + unat (it_cap a) - unat (it_ind_begin a)) mod unat (it_cap a)"
    using assms(2-4) by (rule unat_ring_pos)
  have le: "unat (it_ind_begin a) \<le> unat (it_ind a) + unat (it_cap a)"
    using assms(4) by (simp add: word_less_nat_alt)
  have "uint ?x = int (unat ?x)" by simp
  also have "\<dots> = int ((unat (it_ind a) + unat (it_cap a) - unat (it_ind_begin a)) mod unat (it_cap a))"
    by (simp only: u)
  also have "\<dots> = (int (unat (it_ind a)) + int (unat (it_cap a)) - int (unat (it_ind_begin a)))
      mod int (unat (it_cap a))"
    using le by (simp add: zmod_int of_nat_diff)
  also have "\<dots> = position_of a"
    by (simp add: position_of_def logical_position_def algebra_simps)
  finally have "uint ?x = position_of a" .
  moreover have "unat ?x < unat (it_cap a)"
    unfolding u using assms(1) by (simp add: unat_gt_0)
  ultimately show ?thesis using assms(1) u by (simp add: get_pos_def)
qed

lemma sint_eq_uint_small:
  fixes x :: size_t
  assumes "uint x < 9223372036854775808"
  shows "sint x = uint x"
proof -
  have "signed_take_bit 63 (uint x) = uint x"
    using assms by (intro signed_take_bit_int_eq_self) (simp_all add: order_trans [of _ 0])
  then show ?thesis by (simp add: sint_uint)
qed

lemma sint_diff_small:
  fixes x y :: size_t
  assumes "uint x < 9223372036854775808" "uint y < 9223372036854775808"
  shows "sint (x - y) = uint x - uint y"
proof -
  have "signed_take_bit 63 (uint x - uint y) = uint x - uint y"
  proof (rule signed_take_bit_int_eq_self)
    have x0: "0 \<le> uint x" and y0: "0 \<le> uint y" by simp_all
    have "- 9223372036854775808 \<le> uint x - uint y" using x0 assms(2) by linarith
    then show "- (2 ^ 63) \<le> uint x - uint y" by simp
    have "uint x - uint y < 9223372036854775808" using assms(1) y0 by linarith
    then show "uint x - uint y < 2 ^ 63" by simp
  qed
  then show ?thesis
    using sint_eq_uint_small [OF assms(1)] sint_eq_uint_small [OF assms(2)]
    by (simp add: sint_word_diff)
qed

lemma iterator_positions:
  assumes same: "it_cap b = it_cap a" "it_ind_begin b = it_ind_begin a"
    and c: "it_cap a \<noteq> 0" "it_cap a \<le> 2 ^ 63"
    and i: "it_ind a < it_cap a" "it_ind b < it_cap a" "it_ind_begin a < it_cap a"
  obtains x y where "get_pos a = Some x" "get_pos b = Some y"
    "uint x = position_of a" "uint y = position_of b"
    "uint x < 9223372036854775808" "uint y < 9223372036854775808"
    "(x = y) = (it_ind a = it_ind b)"
proof -
  from get_pos_position [OF c i(1,3)] obtain x where
    x: "get_pos a = Some x" "uint x = position_of a" "unat x < unat (it_cap a)"
      "unat x = (unat (it_ind a) + unat (it_cap a) - unat (it_ind_begin a)) mod unat (it_cap a)"
    by blast
  have cb: "it_cap b \<noteq> 0" "it_cap b \<le> 2 ^ 63" "it_ind b < it_cap b" "it_ind_begin b < it_cap b"
    using same c i by simp_all
  from get_pos_position [OF cb] obtain y where
    y: "get_pos b = Some y" "uint y = position_of b" "unat y < unat (it_cap b)"
      "unat y = (unat (it_ind b) + unat (it_cap b) - unat (it_ind_begin b)) mod unat (it_cap b)"
    by blast
  have C: "unat (it_cap a) \<le> 9223372036854775808" using c(2) by (simp add: word_le_nat_alt)
  have small: "uint w < 9223372036854775808" if "unat w < unat (it_cap a)" for w :: size_t
  proof -
    have "unat w < 9223372036854775808" using that C by linarith
    then have "int (unat w) < 9223372036854775808" by linarith
    then show ?thesis by simp
  qed
  have bx: "uint x < 9223372036854775808" using x(3) by (rule small)
  have "unat y < unat (it_cap a)" using y(3) same by simp
  then have by': "uint y < 9223372036854775808" by (rule small)
  have inj: "(x = y) = (it_ind a = it_ind b)"
  proof
    assume "x = y"
    then have "unat x = unat y" by simp
    then have e: "(unat (it_ind a) + unat (it_cap a) - unat (it_ind_begin a)) mod unat (it_cap a)
        = (unat (it_ind b) + unat (it_cap a) - unat (it_ind_begin a)) mod unat (it_cap a)"
      unfolding x(4) y(4) same .
    have l: "unat (it_ind_begin a) < unat (it_cap a)" "unat (it_ind a) < unat (it_cap a)"
      "unat (it_ind b) < unat (it_cap a)"
      using i by (simp_all add: word_less_nat_alt)
    have "unat (it_ind a) = unat (it_ind b)" by (rule ring_pos_inj [OF l e])
    then show "it_ind a = it_ind b" by (simp add: word_unat_eq_iff)
  next
    assume "it_ind a = it_ind b"
    then have "get_pos a = get_pos b" using same by (simp add: get_pos_def)
    then show "x = y" using x(1) y(1) by simp
  qed
  show ?thesis using that [OF x(1) y(1) x(2) y(2) bx by' inj] .
qed

subsection \<open>Growth\<close>

lemma cap_ok_min: "cap_ok c \<Longrightarrow> cap c = 0 \<or> 4 \<le> cap c"
  by (auto simp: cap_ok_def)

lemma cap_ok_max: "cap_ok c \<Longrightarrow> cap c \<le> 2 ^ 62"
  by (auto simp: cap_ok_def)

lemma grow_back_bounds:
  assumes v: "valid h c" and m: "cap c = 0 \<or> 4 \<le> cap c" and c62: "cap c \<le> 2 ^ 62"
    and nz: "sz c \<noteq> 0"
  shows "sz c < cap c * 2" and "cap c * 2 \<le> 2 ^ 63" and "unat (sz c) + 1 < unat (cap c * 2)"
    and "4 \<le> cap c * 2" and "unat (cap c * 2) = 2 * unat (cap c)"
proof -
  have c0: "cap c \<noteq> 0" using v nz by (auto simp: valid_def)
  note dc = double_cap [OF c62]
  have S: "unat (sz c) < unat (cap c)" by (rule valid_nat(2) [OF v c0])
  have c4: "4 \<le> unat (cap c)" using m c0 by (simp add: word_le_nat_alt)
  show "sz c < cap c * 2" using S dc(1) by (simp add: word_less_nat_alt)
  show "unat (sz c) + 1 < unat (cap c * 2)" using S c4 dc(1) by simp
  show "4 \<le> cap c * 2" using c4 dc(1) by (simp add: word_le_nat_alt)
  show "cap c * 2 \<le> 2 ^ 63" by (rule dc(2))
  show "unat (cap c * 2) = 2 * unat (cap c)" by (rule dc(1))
qed

lemma grow_front_bounds:
  assumes v: "valid h c" and m: "cap c = 0 \<or> 4 \<le> cap c" and c62: "cap c \<le> 2 ^ 62"
    and nz: "sz c \<noteq> 0" and full: "sz c = cap c - 1"
  shows "sz c < sz c * 2" and "sz c * 2 \<le> 2 ^ 63" and "unat (sz c) + 1 < unat (sz c * 2)"
    and "4 \<le> sz c * 2" and "unat (sz c * 2) = 2 * unat (sz c)"
proof -
  have c0: "cap c \<noteq> 0" using v nz by (auto simp: valid_def)
  have S: "unat (sz c) = unat (cap c) - 1" using full c0 by (simp add: unat_minus_one)
  have "sz c \<le> cap c" using S by (simp add: word_le_nat_alt)
  then have s62: "sz c \<le> 2 ^ 62" using c62 by (rule order_trans)
  note ds = double_cap [OF s62]
  have c4: "4 \<le> unat (cap c)" using m c0 by (simp add: word_le_nat_alt)
  show "sz c < sz c * 2" using S c4 ds(1) by (simp add: word_less_nat_alt)
  show "unat (sz c) + 1 < unat (sz c * 2)" using S c4 ds(1) by simp
  show "4 \<le> sz c * 2" using S c4 ds(1) by (simp add: word_le_nat_alt)
  show "sz c * 2 \<le> 2 ^ 63" by (rule ds(2))
  show "unat (sz c * 2) = 2 * unat (sz c)" by (rule ds(1))
qed


lemma reserve_no_faults:
  fixes h :: "'a heap"
  assumes v: "valid h c" and lt: "sz c < n" and n63: "n \<le> 2 ^ 63" and nf: "faults h = []"
  shows "reserve n (h, c) =
        Returns ()
          (put_block (data c) None
             (h\<lparr>blocks := blocks h @ [Some (migrated (contents h c) (unat (sz c)) (unat n))]\<rparr>),
           \<lparr>sz = sz c, cap = n, data = Some (length (blocks h)), ind_begin = 0,
            ind_end = sz c\<rparr>)"
proof -
  have eq: "h\<lparr>faults := [], blocks := blocks h @ [Some (migrated (contents h c) (unat (sz c)) (unat n))]\<rparr>
      = h\<lparr>blocks := blocks h @ [Some (migrated (contents h c) (unat (sz c)) (unat n))]\<rparr>"
    using nf by simp
  have "reserve n (h, c) =
        Returns ()
          (put_block (data c) None
             (h\<lparr>faults := [],
                blocks := blocks h @ [Some (migrated (contents h c) (unat (sz c)) (unat n))]\<rparr>),
           \<lparr>sz = sz c, cap = n, data = Some (length (blocks h)), ind_begin = 0,
            ind_end = sz c\<rparr>)"
    using reserve_valid [OF v lt n63] nf by simp
  then show ?thesis by (simp only: eq)
qed


subsection \<open>The first insertion into an unallocated container\<close>

lemma contents_new [simp]: "contents h circular_buffer_new = []"
  by (simp add: contents_def circular_buffer_new_def)

lemma reserve_new:
  fixes h :: "'a heap"
  assumes "faults h = []"
  shows "reserve 4 (h, circular_buffer_new) =
    Returns () (h\<lparr>blocks := blocks h @ [Some [None, None, None, None]]\<rparr>,
                \<lparr>sz = 0, cap = 4, data = Some (length (blocks h)), ind_begin = 0, ind_end = 0\<rparr>)"
proof -
  have lt: "sz circular_buffer_new < 4" by (simp add: circular_buffer_new_def)
  have "replicate 4 (None :: 'a option) = [None, None, None, None]"
    by (simp add: eval_nat_numeral)
  then have m: "migrated ([] :: 'a list) 0 4 = [None, None, None, None]"
    by (simp add: migrated_def)
  have s: "sz circular_buffer_new = 0" "data circular_buffer_new = None"
    by (simp_all add: circular_buffer_new_def)
  show ?thesis
    unfolding reserve_no_faults [OF valid_new lt four_le_63 assms] by (simp add: s m)
qed

lemma push_back_new:
  fixes h :: "'a heap"
  assumes "faults h = []"
  shows "push_back (Object x) (h, circular_buffer_new) =
    Returns () (h\<lparr>blocks := blocks h @ [Some [Some x, None, None, None]]\<rparr>,
                \<lparr>sz = 1, cap = 4, data = Some (length (blocks h)), ind_begin = 0, ind_end = 1\<rparr>)"
proof -
  let ?h1 = "h\<lparr>blocks := blocks h @ [Some [None, None, None, None]]\<rparr>"
  have f: "fails ?h1 = (False, ?h1)" using assms by (simp add: fails_def)
  have "?h1\<lparr>blocks := blocks h @ [Some [Some x, None, None, None]], leaked := leaked h\<rparr>
      = h\<lparr>blocks := blocks h @ [Some [Some x, None, None, None]]\<rparr>" by simp
  then show ?thesis
    using reserve_new [OF assms] f
    by (simp add: push_back_emplace empty_cb_def emplace_back_def placement_new_def
        block_at_def put_block_def circular_buffer_new_def)
qed

lemma push_front_new:
  fixes h :: "'a heap"
  assumes "faults h = []"
  shows "push_front (Object x) (h, circular_buffer_new) =
    Returns () (h\<lparr>blocks := blocks h @ [Some [None, None, None, Some x]]\<rparr>,
                \<lparr>sz = 1, cap = 4, data = Some (length (blocks h)), ind_begin = 3, ind_end = 0\<rparr>)"
proof -
  let ?h1 = "h\<lparr>blocks := blocks h @ [Some [None, None, None, None]]\<rparr>"
  have f: "fails ?h1 = (False, ?h1)" using assms by (simp add: fails_def)
  have "?h1\<lparr>blocks := blocks h @ [Some [None, None, None, Some x]], leaked := leaked h\<rparr>
      = h\<lparr>blocks := blocks h @ [Some [None, None, None, Some x]]\<rparr>" by simp
  then show ?thesis
    using reserve_new [OF assms] f
    by (simp add: push_front_emplace empty_cb_def emplace_front_def placement_new_def
        block_at_def put_block_def circular_buffer_new_def)
qed

subsection \<open>Where a push constructs the element\<close>



subsection \<open>A failure while growing\<close>

lemma push_back_growth_fails:
  fixes h :: "'a heap"
  assumes v: "valid h c" and ok: "cap_ok c" and grow: "sz c = 0 \<or> sz c = cap c - 1"
    and f: "True \<in> set (take (Suc (unat (sz c))) (faults h))"
  shows "\<exists>e h'. push_back r (h, c) = Throws e (h', c) \<and> same_storage h h'"
proof (cases "sz c = 0")
  case True
  have lt: "sz c < 4" using True by simp
  from reserve_valid [OF v lt four_le_63] f obtain e h' where
    "reserve 4 (h, c) = Throws e (h', c)" "same_storage h h'" by blast
  then show ?thesis using True by (auto simp: push_back_read empty_cb_def)
next
  case False
  then have full: "sz c = cap c - 1" using grow by simp
  note B = grow_back_bounds [OF v cap_ok_min [OF ok] cap_ok_max [OF ok] False]
  from reserve_valid [OF v B(1,2)] f obtain e h' where
    "reserve (cap c * 2) (h, c) = Throws e (h', c)" "same_storage h h'" by blast
  then show ?thesis using False full by (auto simp: push_back_read empty_cb_def)
qed

lemma push_front_growth_fails:
  fixes h :: "'a heap"
  assumes v: "valid h c" and ok: "cap_ok c" and grow: "sz c = 0 \<or> sz c = cap c - 1"
    and f: "True \<in> set (take (Suc (unat (sz c))) (faults h))"
  shows "\<exists>e h'. push_front r (h, c) = Throws e (h', c) \<and> same_storage h h'"
proof (cases "sz c = 0")
  case True
  have lt: "sz c < 4" using True by simp
  from reserve_valid [OF v lt four_le_63] f obtain e h' where
    "reserve 4 (h, c) = Throws e (h', c)" "same_storage h h'" by blast
  then show ?thesis using True by (auto simp: push_front_read empty_cb_def)
next
  case False
  then have full: "sz c = cap c - 1" using grow by simp
  note B = grow_front_bounds [OF v cap_ok_min [OF ok] cap_ok_max [OF ok] False full]
  from reserve_valid [OF v B(1,2)] f obtain e h' where
    "reserve (sz c * 2) (h, c) = Throws e (h', c)" "same_storage h h'" by blast
  then show ?thesis using False full by (auto simp: push_front_read empty_cb_def)
qed

lemma insert_growth_fails:
  fixes h :: "'a heap"
  assumes v: "valid h c" and ok: "cap_ok c" and grow: "sz c = 0 \<or> sz c = cap c - 1"
    and f: "True \<in> set (take (Suc (unat (sz c))) (faults h))"
    and pos: "iter_eq pos (begin_cb c) \<or> iter_eq pos (end_cb c) \<or> it_cap pos \<noteq> 0"
  shows "\<exists>e h'. insert_cb pos r (h, c) = Some (Throws e (h', c)) \<and> same_storage h h'"
proof -
  from push_back_growth_fails [OF v ok grow f] obtain e1 h1 where
    b: "push_back r (h, c) = Throws e1 (h1, c)" "same_storage h h1" by blast
  from push_front_growth_fails [OF v ok grow f] obtain e2 h2 where
    f: "push_front r (h, c) = Throws e2 (h2, c)" "same_storage h h2" by blast
  show ?thesis
  proof (cases "iter_eq pos (begin_cb c)")
    case True
    then show ?thesis using f by (simp add: insert_cb_def)
  next
    case nb: False
    show ?thesis
    proof (cases "iter_eq pos (end_cb c)")
      case True
      then show ?thesis using nb b by (simp add: insert_cb_def)
    next
      case False
      then have "it_cap pos \<noteq> 0" using nb pos by simp
      then obtain p where p: "get_pos pos = Some p" by (simp add: get_pos_def)
      show ?thesis
      proof (cases "p \<le> sz c div 2")
        case True
        then show ?thesis using nb False p f by (simp add: insert_cb_def)
      next
        case np: False
        then show ?thesis using nb False p b by (simp add: insert_cb_def)
      qed
    qed
  qed
qed

subsection \<open>Arguments passed by reference\<close>

lemma push_back_cases:
  "push_back r s = Undefined \<or> (\<exists>v. push_back r s = push_back (Object v) s)"
proof -
  define G where "G = (if empty_cb (snd s) then reserve 4 s
           else if sz (snd s) = cap (snd s) - 1 then reserve (cap (snd s) * 2) s
           else Returns () s)"
  have r: "push_back r s = bind G (\<lambda>_ s1. case read r (fst s1) of None \<Rightarrow> Undefined
      | Some v \<Rightarrow> emplace_back v s1)"
    and o: "push_back (Object v) s = bind G (\<lambda>_. emplace_back v)" for v
    unfolding G_def by (rule push_back_read, rule push_back_emplace)
  show ?thesis
  proof (cases G)
    case (Returns u s1)
    then show ?thesis unfolding r o by (cases "read r (fst s1)") auto
  qed (simp_all add: r o)
qed

lemma push_front_cases:
  "push_front r s = Undefined \<or> (\<exists>v. push_front r s = push_front (Object v) s)"
proof -
  define G where "G = (if empty_cb (snd s) then reserve 4 s
           else if sz (snd s) = cap (snd s) - 1 then reserve (sz (snd s) * 2) s
           else Returns () s)"
  have r: "push_front r s = bind G (\<lambda>_ s1. case read r (fst s1) of None \<Rightarrow> Undefined
      | Some v \<Rightarrow> emplace_front v s1)"
    and o: "push_front (Object v) s = bind G (\<lambda>_. emplace_front v)" for v
    unfolding G_def by (rule push_front_read, rule push_front_emplace)
  show ?thesis
  proof (cases G)
    case (Returns u s1)
    then show ?thesis unfolding r o by (cases "read r (fst s1)") auto
  qed (simp_all add: r o)
qed

lemma insert_cb_cases:
  assumes "state_after (insert_cb pos r s) = Some t"
  shows "\<exists>v. insert_cb pos r s = insert_cb pos (Object v) s"
proof -
  note F = push_front_cases [of r s] and B = push_back_cases [of r s]
  show ?thesis
  proof (cases "iter_eq pos (begin_cb (snd s))")
    case True
    then have "push_front r s \<noteq> Undefined" using assms by (auto simp: insert_cb_def)
    with F obtain v where "push_front r s = push_front (Object v) s" by blast
    then show ?thesis using True by (auto simp: insert_cb_def)
  next
    case nb: False
    show ?thesis
    proof (cases "iter_eq pos (end_cb (snd s))")
      case True
      then have "push_back r s \<noteq> Undefined" using assms nb by (auto simp: insert_cb_def)
      with B obtain v where "push_back r s = push_back (Object v) s" by blast
      then show ?thesis using True nb by (auto simp: insert_cb_def)
    next
      case ne: False
      show ?thesis
      proof (cases "get_pos pos")
        case None
        then show ?thesis using nb ne by (simp add: insert_cb_def)
      next
        case (Some p)
        show ?thesis
        proof (cases "p \<le> sz (snd s) div 2")
          case True
          then have "push_front r s \<noteq> Undefined"
            using assms nb ne Some by (auto simp: insert_cb_def)
          with F obtain v where "push_front r s = push_front (Object v) s" by blast
          then show ?thesis using True nb ne Some by (auto simp: insert_cb_def)
        next
          case False
          then have "push_back r s \<noteq> Undefined"
            using assms nb ne Some by (auto simp: insert_cb_def)
          with B obtain v where "push_back r s = push_back (Object v) s" by blast
          then show ?thesis using False nb ne Some by (auto simp: insert_cb_def)
        qed
      qed
    qed
  qed
qed

lemma reserve_keeps_other:
  fixes h :: "'a heap"
  assumes v: "valid h c" and lt: "sz c < n" and n63: "n \<le> 2 ^ 63"
    and r: "reserve n (h, c) = Returns () (h1, c1)"
    and p: "p \<noteq> data c" and b: "block_at h p \<noteq> None"
  shows "block_at h1 p = block_at h p"
proof -
  from reserve_valid [OF v lt n63] r have
    e: "(h1, c1) = (put_block (data c) None
             (h\<lparr>faults := drop (Suc (unat (sz c))) (faults h),
                blocks := blocks h @ [Some (migrated (contents h c) (unat (sz c)) (unat n))]\<rparr>),
           \<lparr>sz = sz c, cap = n, data = Some (length (blocks h)), ind_begin = 0,
            ind_end = sz c\<rparr>)"
    by (cases "True \<in> set (take (Suc (unat (sz c))) (faults h))") auto
  note fr = reserve_result(4) [OF v lt n63]
  obtain a where a: "p = Some a" "a < length (blocks h)"
    using b by (cases p) (auto simp: block_at_def split: if_splits)
  show ?thesis using fr e a p by (simp add: framed_def)
qed


lemma growth_keeps_read:
  fixes h :: "'a heap"
  assumes v: "valid h c" and sv: "survives_growth h c r"
    and n: "sz c \<noteq> 0 \<Longrightarrow> sz c = cap c - 1 \<Longrightarrow> sz c < n \<and> n \<le> 2 ^ 63"
    and G: "(if sz c = 0 then reserve 4 (h, c)
             else if sz c = cap c - 1 then reserve n (h, c) else Returns () (h, c))
            = Returns () (h1, c1)"
  shows "read r h1 = read r h"
proof (cases r)
  case (Object x)
  then show ?thesis by simp
next
  case (Element p i)
  then have l: "load p i h \<noteq> None" and d: "p \<noteq> data c \<or> sz c \<noteq> 0 \<and> sz c \<noteq> cap c - 1"
    using sv by (simp_all add: survives_growth_def)
  have b: "block_at h p \<noteq> None" using l by (auto simp: load_def split: option.splits)
  have "block_at h1 p = block_at h p"
  proof (cases "sz c = 0")
    case True
    then have "reserve 4 (h, c) = Returns () (h1, c1)" using G by simp
    moreover have "sz c < 4" using True by simp
    moreover have "p \<noteq> data c" using d True by simp
    ultimately show ?thesis using reserve_keeps_other [OF v _ four_le_63 _ _ b] by blast
  next
    case nz: False
    show ?thesis
    proof (cases "sz c = cap c - 1")
      case True
      then have "reserve n (h, c) = Returns () (h1, c1)" using G nz by simp
      moreover have "p \<noteq> data c" using d True by simp
      ultimately show ?thesis using reserve_keeps_other [OF v _ _ _ _ b] n [OF nz True] by blast
    next
      case False
      then show ?thesis using G nz by simp
    qed
  qed
  then show ?thesis using Element by (simp add: read_def load_def)
qed

lemma push_survives:
  fixes h :: "'a heap"
  assumes v: "valid h c" and m: "cap c = 0 \<or> 4 \<le> cap c"
    and g: "sz c = cap c - 1 \<Longrightarrow> cap c \<le> 2 ^ 62"
    and sv: "survives_growth h c r"
  shows "\<exists>x. read r h = Some x \<and> push_back r (h, c) = push_back (Object x) (h, c)
      \<and> push_front r (h, c) = push_front (Object x) (h, c)"
proof -
  obtain x where x: "read r h = Some x"
    using sv by (cases r) (auto simp: survives_growth_def read_def)
  have nb: "sz c < cap c * 2 \<and> cap c * 2 \<le> 2 ^ 63" if "sz c \<noteq> 0" "sz c = cap c - 1"
    using grow_back_bounds(1,2) [OF v m g [OF that(2)] that(1)] by simp
  have nf: "sz c < sz c * 2 \<and> sz c * 2 \<le> 2 ^ 63" if "sz c \<noteq> 0" "sz c = cap c - 1"
    using grow_front_bounds(1,2) [OF v m g [OF that(2)] that] by simp
  define Gb where "Gb = (if sz c = 0 then reserve 4 (h, c)
             else if sz c = cap c - 1 then reserve (cap c * 2) (h, c) else Returns () (h, c))"
  define Gf where "Gf = (if sz c = 0 then reserve 4 (h, c)
             else if sz c = cap c - 1 then reserve (sz c * 2) (h, c) else Returns () (h, c))"
  have rb: "read r h1 = Some x" if "Gb = Returns () (h1, c1)" for h1 c1
    using growth_keeps_read [OF v sv nb that [unfolded Gb_def]] x by simp
  have rf: "read r h1 = Some x" if "Gf = Returns () (h1, c1)" for h1 c1
    using growth_keeps_read [OF v sv nf that [unfolded Gf_def]] x by simp
  have pb: "push_back r (h, c) = bind Gb (\<lambda>_ s1. case read r (fst s1) of None \<Rightarrow> Undefined
      | Some v \<Rightarrow> emplace_back v s1)"
    and ob: "push_back (Object x) (h, c) = bind Gb (\<lambda>_. emplace_back x)"
    by (simp_all add: push_back_read Gb_def empty_cb_def)
  have pf: "push_front r (h, c) = bind Gf (\<lambda>_ s1. case read r (fst s1) of None \<Rightarrow> Undefined
      | Some v \<Rightarrow> emplace_front v s1)"
    and "of": "push_front (Object x) (h, c) = bind Gf (\<lambda>_. emplace_front x)"
    by (simp_all add: push_front_read Gf_def empty_cb_def)
  have "push_back r (h, c) = push_back (Object x) (h, c)"
  proof (cases Gb)
    case (Returns u s1)
    then show ?thesis unfolding pb ob using rb [of "fst s1" "snd s1"] by simp
  qed (simp_all add: pb ob)
  moreover have "push_front r (h, c) = push_front (Object x) (h, c)"
  proof (cases Gf)
    case (Returns u s1)
    then show ?thesis unfolding pf "of" using rf [of "fst s1" "snd s1"] by simp
  qed (simp_all add: pf "of")
  ultimately show ?thesis using x by blast
qed

lemma insert_cb_survives:
  fixes h :: "'a heap"
  assumes v: "valid h c" and m: "cap c = 0 \<or> 4 \<le> cap c"
    and g: "sz c = cap c - 1 \<Longrightarrow> cap c \<le> 2 ^ 62"
    and sv: "survives_growth h c r"
  shows "\<exists>x. read r h = Some x \<and> insert_cb pos r (h, c) = insert_cb pos (Object x) (h, c)"
proof -
  from push_survives [OF assms] obtain x where
    x: "read r h = Some x" and pb: "push_back r (h, c) = push_back (Object x) (h, c)"
    and pf: "push_front r (h, c) = push_front (Object x) (h, c)" by blast
  have "insert_cb pos r (h, c) = insert_cb pos (Object x) (h, c)"
    unfolding insert_cb_def pb pf ..
  then show ?thesis using x by blast
qed

subsection \<open>Exchanging two elements\<close>

lemma shape_faults [simp]: "shape (h\<lparr>faults := fs\<rparr>) = shape h"
  by (simp add: shape_def)

lemma shape_block_at:
  assumes "shape h' = shape h"
  shows "map_option (map (\<lambda>s. s \<noteq> None)) (block_at h' p)
       = map_option (map (\<lambda>s. s \<noteq> None)) (block_at h p)"
proof (cases p)
  case None
  then show ?thesis by simp
next
  case (Some a)
  have l: "length (blocks h') = length (blocks h)"
    using arg_cong [OF assms, of length] by (simp add: shape_def)
  show ?thesis
  proof (cases "a < length (blocks h)")
    case True
    have "shape h' ! a = shape h ! a" using assms by simp
    then show ?thesis using True l Some by (simp add: shape_def block_at_def)
  next
    case False
    then show ?thesis using l Some by (simp add: block_at_def)
  qed
qed

lemma shape_valid:
  assumes "shape h' = shape h"
  shows "valid h' c = valid h c"
proof (cases "cap c = 0")
  case True
  then show ?thesis by (simp add: valid_def)
next
  case False
  note e = shape_block_at [OF assms, of "data c"]
  show ?thesis
  proof (cases "block_at h (data c)")
    case None
    then have "block_at h' (data c) = None" using e by simp
    then show ?thesis using None by (simp add: valid_def)
  next
    case (Some ss)
    then obtain ss' where s': "block_at h' (data c) = Some ss'"
      and m: "map (\<lambda>s. s \<noteq> None) ss' = map (\<lambda>s. s \<noteq> None) ss"
      using e by (cases "block_at h' (data c)") auto
    have l: "length ss' = length ss" using arg_cong [OF m, of length] by simp
    have n: "(ss' ! j \<noteq> None) = (ss ! j \<noteq> None)" if "j < length ss" for j
      using arg_cong [OF m, of "\<lambda>xs. xs ! j"] that l by simp
    have "list_all (\<lambda>j. (ss' ! j \<noteq> None) = live_at c j) [0..<unat (cap c)]
        = list_all (\<lambda>j. (ss ! j \<noteq> None) = live_at c j) [0..<unat (cap c)]"
      if "length ss = unat (cap c)"
      using that n by (auto simp: list_all_iff)
    then show ?thesis using Some s' l False by (auto simp: valid_def)
  qed
qed

lemma shape_put_block_live:
  assumes "block_at h p = Some ss" and "i < length ss" and "ss ! i \<noteq> None"
  shows "shape (put_block p (Some (ss[i := Some v])) h) = shape h"
proof -
  obtain a where a: "p = Some a" "a < length (blocks h)" "blocks h ! a = Some ss"
    using assms(1) by (cases p) (auto simp: block_at_def split: if_splits)
  have "map (\<lambda>s. s \<noteq> None) (ss[i := Some v]) = map (\<lambda>s. s \<noteq> None) ss"
    using assms(2,3) by (simp add: map_update list_update_same_conv)
  then have "(map (map_option (map (\<lambda>s. s \<noteq> None))) (blocks h))
      [a := map_option (map (\<lambda>s. s \<noteq> None)) (Some (ss[i := Some v]))]
      = map (map_option (map (\<lambda>s. s \<noteq> None))) (blocks h)"
    using a by (simp add: list_update_same_conv)
  then show ?thesis using a by (simp add: shape_def put_block_def map_update)
qed

lemma assign_shape:
  assumes "assign p i v h = Returns r h'"
  shows "shape h' = shape h \<and> leaked h' = leaked h \<and> faults h' = faults h"
proof -
  from assms obtain ss w where b: "block_at h p = Some ss" and l: "load p i h = Some w"
    and h': "h' = put_block p (Some (ss[unat i := Some v])) h"
    by (auto simp: assign_def split: option.splits)
  from l b have "unat i < length ss" "ss ! unat i \<noteq> None"
    by (auto simp: load_def split: if_splits)
  from shape_put_block_live [OF b this] show ?thesis by (simp add: h')
qed

lemma assign_outcome:
  "assign p i v h = Throws e h' \<longleftrightarrow> False"
  "assign p i v h = Assertion_failed \<longleftrightarrow> False"
  by (auto simp: assign_def split: option.splits)

lemma copy_local_shape:
  assumes "copy_local p i h = Returns v h' \<or> copy_local p i h = Throws e h'"
  shows "shape h' = shape h \<and> leaked h' = leaked h"
  using assms by (auto simp: copy_local_eq split: option.splits if_splits)

lemma copy_local_no_assert: "copy_local p i h \<noteq> Assertion_failed"
  by (auto simp: copy_local_eq split: option.splits if_splits)

lemma swap_values_shape:
  assumes "swap_values it1 it2 h = Returns r h' \<or> swap_values it1 it2 h = Throws e h'"
  shows "shape h' = shape h \<and> leaked h' = leaked h"
proof (cases "copy_local (it_data it1) (it_ind it1) h")
  case (Returns tmp h1)
  note c = copy_local_shape [of _ _ h tmp h1 e, OF disjI1, OF Returns]
  show ?thesis
  proof (cases "load (it_data it2) (it_ind it2) h1")
    case None
    then show ?thesis using assms Returns by (simp add: swap_values_def)
  next
    case (Some v2)
    show ?thesis
    proof (cases "assign (it_data it1) (it_ind it1) v2 h1")
      case r2: (Returns u h2)
      note a1 = assign_shape [OF r2]
      show ?thesis
      proof (cases "assign (it_data it2) (it_ind it2) tmp h2")
        case r3: (Returns u' h3)
        note a2 = assign_shape [OF r3]
        have "h' = h3" using assms Returns Some r2 r3 by (simp add: swap_values_def)
        then show ?thesis using a1 a2 c by simp
      next
        case (Throws e' h3)
        then show ?thesis by (simp add: assign_outcome)
      next
        case Assertion_failed
        then show ?thesis by (simp add: assign_outcome)
      next
        case Undefined
        then show ?thesis using assms Returns Some r2 by (simp add: swap_values_def)
      qed
    next
      case (Throws e' h2)
      then show ?thesis by (simp add: assign_outcome)
    next
      case Assertion_failed
      then show ?thesis by (simp add: assign_outcome)
    next
      case Undefined
      then show ?thesis using assms Returns Some by (simp add: swap_values_def)
    qed
  qed
next
  case (Throws e' h1)
  note c = copy_local_shape [of _ _ h undefined h1 e', OF disjI2, OF Throws]
  have "h' = h1" using assms Throws by (simp add: swap_values_def)
  then show ?thesis using c by simp
next
  case Assertion_failed
  then show ?thesis using assms by (simp add: swap_values_def)
next
  case Undefined
  then show ?thesis using assms by (simp add: swap_values_def)
qed

lemma swap_values_no_assert: "swap_values it1 it2 h \<noteq> Assertion_failed"
proof (cases "copy_local (it_data it1) (it_ind it1) h")
  case (Returns tmp h1)
  show ?thesis
  proof (cases "load (it_data it2) (it_ind it2) h1")
    case None
    then show ?thesis using Returns by (simp add: swap_values_def)
  next
    case (Some v2)
    show ?thesis
    proof (cases "assign (it_data it1) (it_ind it1) v2 h1")
      case r2: (Returns u h2)
      show ?thesis using Returns Some r2
        by (cases "assign (it_data it2) (it_ind it2) tmp h2")
          (simp_all add: swap_values_def assign_outcome)
    qed (simp_all add: swap_values_def assign_outcome Returns Some)
  qed
qed (simp_all add: swap_values_def copy_local_no_assert)

subsection \<open>The four loops keep the container record and the shape of the heap\<close>

lemma kept_step:
  assumes "kept (h', snd s) out" and "shape h' = shape (fst s) \<and> leaked h' = leaked (fst s)"
  shows "kept s out"
  using assms by (cases out) (simp_all add: kept_def)

lemma kept_simps [simp]:
  "kept s Undefined" "kept s Assertion_failed"
  "kept s (Returns r s') = (snd s' = snd s \<and> shape (fst s') = shape (fst s)
      \<and> leaked (fst s') = leaked (fst s))"
  "kept s (Throws e s') = (snd s' = snd s \<and> shape (fst s') = shape (fst s)
      \<and> leaked (fst s') = leaked (fst s))"
  by (simp_all add: kept_def)

lemma insert_front_loop_kept:
  fixes s :: "'a state"
  assumes "insert_front_loop it1 it2 pos s = Some out"
  shows "kept s out"
  apply (rule insert_front_loop.raw_induct [where P = "\<lambda>_ _ _ s out. kept s out", OF _ assms])
  subgoal premises p for f it1 it2 pos s out
  proof (cases "iter_neq it2 pos")
    case False
    then show ?thesis using p(2) by auto
  next
    case True
    show ?thesis
    proof (cases "swap_values it1 it2 (fst s)")
      case (Returns u h')
      note sh = swap_values_shape [OF disjI1, OF Returns]
      show ?thesis
      proof (cases "inc it1")
        case None
        then show ?thesis using p(2) True Returns by auto
      next
        case s1: (Some it1')
        show ?thesis
        proof (cases "inc it2")
          case None
          then show ?thesis using p(2) True Returns s1 by auto
        next
          case (Some it2')
          then have "f it1' it2' pos (h', snd s) = Some out"
            using p(2) True Returns s1 by simp
          from kept_step [OF p(1) [OF this] sh] show ?thesis .
        qed
      qed
    next
      case (Throws e h')
      note sh = swap_values_shape [OF disjI2, OF Throws]
      show ?thesis using p(2) True Throws sh by auto
    next
      case Assertion_failed
      then show ?thesis using p(2) True by auto
    next
      case Undefined
      then show ?thesis using p(2) True by auto
    qed
  qed
  done

lemma insert_back_loop_kept:
  fixes s :: "'a state"
  assumes "insert_back_loop it1 it2 pos s = Some out"
  shows "kept s out"
  apply (rule insert_back_loop.raw_induct [where P = "\<lambda>_ _ _ s out. kept s out", OF _ assms])
  subgoal premises p for f it1 it2 pos s out
  proof (cases "iter_neq it2 pos")
    case False
    then show ?thesis using p(2) by auto
  next
    case True
    show ?thesis
    proof (cases "swap_values it1 it2 (fst s)")
      case (Returns u h')
      note sh = swap_values_shape [OF disjI1, OF Returns]
      show ?thesis
      proof (cases "dec it1")
        case None
        then show ?thesis using p(2) True Returns by auto
      next
        case s1: (Some it1')
        show ?thesis
        proof (cases "dec it2")
          case None
          then show ?thesis using p(2) True Returns s1 by auto
        next
          case (Some it2')
          then have "f it1' it2' pos (h', snd s) = Some out"
            using p(2) True Returns s1 by simp
          from kept_step [OF p(1) [OF this] sh] show ?thesis .
        qed
      qed
    next
      case (Throws e h')
      note sh = swap_values_shape [OF disjI2, OF Throws]
      show ?thesis using p(2) True Throws sh by auto
    next
      case Assertion_failed
      then show ?thesis using p(2) True by auto
    next
      case Undefined
      then show ?thesis using p(2) True by auto
    qed
  qed
  done

lemma erase_back_loop_kept:
  fixes s :: "'a state"
  assumes "erase_back_loop it1 it2 s = Some out"
  shows "kept s out"
  apply (rule erase_back_loop.raw_induct [where P = "\<lambda>_ _ s out. kept s out", OF _ assms])
  subgoal premises p for f it1 it2 s out
  proof (cases "iter_neq it2 (end_cb (snd s))")
    case False
    then show ?thesis using p(2) by auto
  next
    case True
    show ?thesis
    proof (cases "swap_values it1 it2 (fst s)")
      case (Returns u h')
      note sh = swap_values_shape [OF disjI1, OF Returns]
      show ?thesis
      proof (cases "inc it1")
        case None
        then show ?thesis using p(2) True Returns by auto
      next
        case s1: (Some it1')
        show ?thesis
        proof (cases "inc it2")
          case None
          then show ?thesis using p(2) True Returns s1 by auto
        next
          case (Some it2')
          then have "f it1' it2' (h', snd s) = Some out"
            using p(2) True Returns s1 by simp
          from kept_step [OF p(1) [OF this] sh] show ?thesis .
        qed
      qed
    next
      case (Throws e h')
      note sh = swap_values_shape [OF disjI2, OF Throws]
      show ?thesis using p(2) True Throws sh by auto
    next
      case Assertion_failed
      then show ?thesis using p(2) True by auto
    next
      case Undefined
      then show ?thesis using p(2) True by auto
    qed
  qed
  done

lemma erase_front_loop_kept:
  fixes s :: "'a state"
  assumes "erase_front_loop it2 s = Some out"
  shows "kept s out"
  apply (rule erase_front_loop.raw_induct [where P = "\<lambda>_ s out. kept s out", OF _ assms])
  subgoal premises p for f it2 s out
  proof (cases "iter_neq it2 (begin_cb (snd s))")
    case False
    then show ?thesis using p(2) by auto
  next
    case True
    show ?thesis
    proof (cases "iter_minus it2 1")
      case None
      then show ?thesis using p(2) True by auto
    next
      case m: (Some it1)
      show ?thesis
      proof (cases "swap_values it1 it2 (fst s)")
        case (Returns u h')
        note sh = swap_values_shape [OF disjI1, OF Returns]
        show ?thesis
        proof (cases "dec it2")
          case None
          then show ?thesis using p(2) True m Returns by auto
        next
          case (Some it2')
          then have "f it2' (h', snd s) = Some out"
            using p(2) True m Returns by simp
          from kept_step [OF p(1) [OF this] sh] show ?thesis .
        qed
      next
        case (Throws e h')
        note sh = swap_values_shape [OF disjI2, OF Throws]
        show ?thesis using p(2) True m Throws sh by auto
      next
        case Assertion_failed
        then show ?thesis using p(2) True m by auto
      next
        case Undefined
        then show ?thesis using p(2) True m by auto
      qed
    qed
  qed
  done

subsection \<open>The state a push leaves, whether it returns or throws\<close>

lemma alloc_fails_iff:
  "(True \<in> set (take (Suc 0) (faults h))) = fst (fails h)"
  by (cases "faults h") (auto simp: fails_eq)

lemma emplace_on_reserved:
  fixes h :: "'a heap"
  assumes v: "valid h c" and z: "sz c = 0" and nfail: "\<not> fst (fails h)"
    and E: "\<And>(h1 :: 'a heap) c1 v. valid h1 c1 \<Longrightarrow> unat (sz c1) + 1 < unat (cap c1) \<Longrightarrow>
        state_after (Some (F v (h1, c1))) = Some (h', c') \<Longrightarrow> cap c' = cap c1"
    and st: "state_after (Some (bind (reserve 4 (h, c))
        (\<lambda>_ s1. case read r (fst s1) of None \<Rightarrow> Undefined | Some v \<Rightarrow> F v s1))) = Some (h', c')"
  shows "cap c' = 4"
proof -
  have lt: "sz c < 4" using z by simp
  define h1 where "h1 = put_block (data c) None
             (h\<lparr>faults := drop (Suc (unat (sz c))) (faults h),
                blocks := blocks h @ [Some (migrated (contents h c) (unat (sz c)) (unat (4 :: size_t)))]\<rparr>)"
  define c1 where "c1 = \<lparr>sz = sz c, cap = 4, data = Some (length (blocks h)), ind_begin = 0,
            ind_end = sz c\<rparr>"
  have "True \<notin> set (take (Suc (unat (sz c))) (faults h))"
    using nfail alloc_fails_iff [of h] z by simp
  then have r: "reserve 4 (h, c) = Returns () (h1, c1)"
    using reserve_valid [OF v lt four_le_63] by (simp add: h1_def c1_def)
  have v1: "valid h1 c1" unfolding h1_def c1_def by (rule reserve_result(1) [OF v lt four_le_63])
  have room: "unat (sz c1) + 1 < unat (cap c1)" using z by (simp add: c1_def)
  from st r obtain x where "state_after (Some (F x (h1, c1))) = Some (h', c')"
    by (cases "read r h1") auto
  from E [OF v1 room this] show ?thesis by (simp add: c1_def)
qed

lemma emplace_back_cap:
  fixes h1 :: "'a heap"
  assumes "valid h1 c1" and "unat (sz c1) + 1 < unat (cap c1)"
    and "state_after (Some (emplace_back v (h1, c1))) = Some (h', c')"
  shows "cap c' = cap c1"
  using emplace_back_spec [OF assms(1,2), of v] assms(3) by auto

lemma emplace_front_cap:
  fixes h1 :: "'a heap"
  assumes "valid h1 c1" and "unat (sz c1) + 1 < unat (cap c1)"
    and "state_after (Some (emplace_front v (h1, c1))) = Some (h', c')"
  shows "cap c' = cap c1"
  using emplace_front_spec [OF assms(1,2), of v] assms(3) by auto

lemma push_on_empty_throws:
  fixes h :: "'a heap"
  assumes v: "valid h c" and z: "sz c = 0" and fail: "fst (fails h)"
  shows "\<exists>h'. push_back r (h, c) = Throws Bad_alloc (h', c) \<and> same_storage h h'"
    and "\<exists>h'. push_front r (h, c) = Throws Bad_alloc (h', c) \<and> same_storage h h'"
proof -
  have lt: "sz c < 4" using z by simp
  have f: "faults h \<noteq> [] \<and> hd (faults h)" using fail by (simp add: fails_eq)
  have "clear (h\<lparr>faults := tl (faults h)\<rparr>, circular_buffer_new\<lparr>cap := 4\<rparr>)
        = Returns () (h\<lparr>faults := tl (faults h)\<rparr>, circular_buffer_new)"
    by (rule clear_null) (simp_all add: circular_buffer_new_def)
  then have r: "reserve 4 (h, c) = Throws Bad_alloc (h\<lparr>faults := tl (faults h)\<rparr>, c)"
    using f lt by (simp add: reserve_def operator_new_eq unwind_def destructor_def)
  show "\<exists>h'. push_back r (h, c) = Throws Bad_alloc (h', c) \<and> same_storage h h'"
    using r z by (intro exI [of _ "h\<lparr>faults := tl (faults h)\<rparr>"])
      (simp add: push_back_read empty_cb_def)
  show "\<exists>h'. push_front r (h, c) = Throws Bad_alloc (h', c) \<and> same_storage h h'"
    using r z by (intro exI [of _ "h\<lparr>faults := tl (faults h)\<rparr>"])
      (simp add: push_front_read empty_cb_def)
qed

lemma push_empty_capacity:
  fixes h :: "'a heap"
  assumes v: "valid h c" and z: "sz c = 0"
  shows "state_after (Some (push_back r (h, c))) = Some (h', c') \<Longrightarrow>
      (if fst (fails h) then c' = c else cap c' = 4)"
    and "state_after (Some (push_front r (h, c))) = Some (h', c') \<Longrightarrow>
      (if fst (fails h) then c' = c else cap c' = 4)"
proof -
  assume st: "state_after (Some (push_back r (h, c))) = Some (h', c')"
  show "if fst (fails h) then c' = c else cap c' = 4"
  proof (cases "fst (fails h)")
    case True
    from push_on_empty_throws(1) [OF v z True, of r] st show ?thesis using True by auto
  next
    case False
    have "state_after (Some (bind (reserve 4 (h, c))
        (\<lambda>_ s1. case read r (fst s1) of None \<Rightarrow> Undefined | Some v \<Rightarrow> emplace_back v s1)))
        = Some (h', c')"
      using st z by (simp add: push_back_read empty_cb_def)
    from emplace_on_reserved [of h c emplace_back h' c' r, OF v z False emplace_back_cap this]
    show ?thesis using False by simp
  qed
next
  assume st: "state_after (Some (push_front r (h, c))) = Some (h', c')"
  show "if fst (fails h) then c' = c else cap c' = 4"
  proof (cases "fst (fails h)")
    case True
    from push_on_empty_throws(2) [OF v z True, of r] st show ?thesis using True by auto
  next
    case False
    have "state_after (Some (bind (reserve 4 (h, c))
        (\<lambda>_ s1. case read r (fst s1) of None \<Rightarrow> Undefined | Some v \<Rightarrow> emplace_front v s1)))
        = Some (h', c')"
      using st z by (simp add: push_front_read empty_cb_def)
    from emplace_on_reserved [of h c emplace_front h' c' r, OF v z False emplace_front_cap this]
    show ?thesis using False by simp
  qed
qed

lemma push_back_after:
  fixes h :: "'a heap"
  assumes v: "valid h c" and m: "cap c = 0 \<or> 4 \<le> cap c" and c62: "cap c \<le> 2 ^ 62"
  shows "\<exists>h1 c1. (push_back (Object x) (h, c) = Returns () (h1, c1)
          \<or> (\<exists>e. push_back (Object x) (h, c) = Throws e (h1, c1)))
      \<and> valid h1 c1 \<and> (cap c1 = 0 \<or> 4 \<le> cap c1) \<and> leaked h1 = leaked h
      \<and> (sz c \<noteq> 0 \<longrightarrow> cap c \<le> cap c1) \<and> (sz c = 0 \<longrightarrow> (if fst (fails h) then c1 = c else cap c1 = 4))
      \<and> framed h c h1 c1"
proof -
  from push_back_spec [OF v m c62, of x] obtain h1 c1 where
    P: "valid h1 c1" "cap c1 = 0 \<or> 4 \<le> cap c1" "leaked h1 = leaked h" "framed h c h1 c1"
      "push_back (Object x) (h, c) = Returns () (h1, c1)
          \<and> cap c1 = (if sz c = 0 then 4 else if sz c = cap c - 1 then cap c * 2 else cap c)
       \<or> (\<exists>e. push_back (Object x) (h, c) = Throws e (h1, c1))
          \<and> (cap c1 = cap c
                \<or> (sz c = 0 \<or> sz c = cap c - 1) \<and> cap c1 = (if sz c = 0 then 4 else cap c * 2))"
    by blast
  have d: "cap c \<le> cap c * 2" if "sz c \<noteq> 0"
    using grow_back_bounds(5) [OF v m c62 that] by (simp add: word_le_nat_alt)
  have "sz c \<noteq> 0 \<longrightarrow> cap c \<le> cap c1" using P(5) d by auto
  moreover have "sz c = 0 \<longrightarrow> (if fst (fails h) then c1 = c else cap c1 = 4)"
    using push_empty_capacity [OF v, of "Object x" h1 c1] P(5) by auto
  moreover have "push_back (Object x) (h, c) = Returns () (h1, c1)
          \<or> (\<exists>e. push_back (Object x) (h, c) = Throws e (h1, c1))" using P(5) by blast
  ultimately show ?thesis using P(1-4) by blast
qed

lemma push_front_after:
  fixes h :: "'a heap"
  assumes v: "valid h c" and m: "cap c = 0 \<or> 4 \<le> cap c" and c62: "cap c \<le> 2 ^ 62"
  shows "\<exists>h1 c1. (push_front (Object x) (h, c) = Returns () (h1, c1)
          \<or> (\<exists>e. push_front (Object x) (h, c) = Throws e (h1, c1)))
      \<and> valid h1 c1 \<and> (cap c1 = 0 \<or> 4 \<le> cap c1) \<and> leaked h1 = leaked h
      \<and> (sz c \<noteq> 0 \<longrightarrow> cap c \<le> cap c1) \<and> (sz c = 0 \<longrightarrow> (if fst (fails h) then c1 = c else cap c1 = 4))
      \<and> framed h c h1 c1"
proof -
  from push_front_spec [OF v m c62, of x] obtain h1 c1 where
    P: "valid h1 c1" "cap c1 = 0 \<or> 4 \<le> cap c1" "leaked h1 = leaked h" "framed h c h1 c1"
      "push_front (Object x) (h, c) = Returns () (h1, c1)
          \<and> cap c1 = (if sz c = 0 then 4 else if sz c = cap c - 1 then sz c * 2 else cap c)
       \<or> (\<exists>e. push_front (Object x) (h, c) = Throws e (h1, c1))
          \<and> (cap c1 = cap c
                \<or> (sz c = 0 \<or> sz c = cap c - 1) \<and> cap c1 = (if sz c = 0 then 4 else sz c * 2))"
    by blast
  have d: "cap c \<le> sz c * 2" if nz: "sz c \<noteq> 0" and full: "sz c = cap c - 1"
  proof -
    have c0: "cap c \<noteq> 0" using v nz by (auto simp: valid_def)
    have "unat (sz c) = unat (cap c) - 1" using full c0 by (simp add: unat_minus_one)
    moreover have "0 < unat (cap c)" using c0 by (simp add: unat_gt_0)
    ultimately have "unat (cap c) = unat (sz c) + 1" by simp
    then show ?thesis
      using grow_front_bounds(3) [OF v m c62 nz full] by (simp add: word_le_nat_alt)
  qed
  have "sz c \<noteq> 0 \<longrightarrow> cap c \<le> cap c1" using P(5) d by auto
  moreover have "sz c = 0 \<longrightarrow> (if fst (fails h) then c1 = c else cap c1 = 4)"
    using push_empty_capacity [OF v, of "Object x" h1 c1] P(5) by auto
  moreover have "push_front (Object x) (h, c) = Returns () (h1, c1)
          \<or> (\<exists>e. push_front (Object x) (h, c) = Throws e (h1, c1))" using P(5) by blast
  ultimately show ?thesis using P(1-4) by blast
qed

lemma kept_state:
  assumes "kept (h1, c1) out" and "state_after (Some out) = Some (h', c')"
  shows "c' = c1 \<and> shape h' = shape h1 \<and> leaked h' = leaked h1"
  using assms by (cases out) auto

lemma state_after_bind_returns:
  assumes "state_after (Some (bind (P :: (unit, 'a state) outcome) (\<lambda>_ s'. case g s' of None \<Rightarrow> Undefined
      | Some it \<Rightarrow> Returns (it :: basic_iterator) s'))) = Some t"
  shows "state_after (Some P) = Some t"
  using assms by (cases P) (auto split: option.splits)

subsection \<open>\<open>insert\<close>\<close>

lemma insert_cb_after:
  fixes h :: "'a heap"
  assumes v: "valid h c" and m: "cap c = 0 \<or> 4 \<le> cap c" and c62: "cap c \<le> 2 ^ 62"
    and st: "state_after (insert_cb pos (Object x) (h, c)) = Some (h', c')"
  shows "valid h' c' \<and> (cap c' = 0 \<or> 4 \<le> cap c') \<and> leaked h' = leaked h
      \<and> (sz c \<noteq> 0 \<longrightarrow> cap c \<le> cap c') \<and> (sz c = 0 \<longrightarrow> (if fst (fails h) then c' = c else cap c' = 4))"
proof -
  from push_front_after [OF v m c62, of x] obtain hf cf where
    F: "push_front (Object x) (h, c) = Returns () (hf, cf) \<or> (\<exists>e. push_front (Object x) (h, c) = Throws e (hf, cf))"
      "valid hf cf" "cap cf = 0 \<or> 4 \<le> cap cf" "leaked hf = leaked h"
      "sz c \<noteq> 0 \<longrightarrow> cap c \<le> cap cf" "sz c = 0 \<longrightarrow> (if fst (fails h) then cf = c else cap cf = 4)"
    by blast
  from push_back_after [OF v m c62, of x] obtain hb cb where
    B: "push_back (Object x) (h, c) = Returns () (hb, cb) \<or> (\<exists>e. push_back (Object x) (h, c) = Throws e (hb, cb))"
      "valid hb cb" "cap cb = 0 \<or> 4 \<le> cap cb" "leaked hb = leaked h"
      "sz c \<noteq> 0 \<longrightarrow> cap c \<le> cap cb" "sz c = 0 \<longrightarrow> (if fst (fails h) then cb = c else cap cb = 4)"
    by blast
  have QF: ?thesis if "c' = cf \<and> shape h' = shape hf \<and> leaked h' = leaked hf"
    using that F(2-6) shape_valid [of h' hf cf] by simp
  have QB: ?thesis if "c' = cb \<and> shape h' = shape hb \<and> leaked h' = leaked hb"
    using that B(2-6) shape_valid [of h' hb cb] by simp
  have SF: "state_after (Some (push_front (Object x) (h, c))) = Some (hf, cf)" using F(1) by auto
  have SB: "state_after (Some (push_back (Object x) (h, c))) = Some (hb, cb)" using B(1) by auto
  show ?thesis
  proof (cases "iter_eq pos (begin_cb c)")
    case True
    then have "state_after (Some (bind (push_front (Object x) (h, c))
        (\<lambda>_ s'. Returns (begin_cb (snd s')) s'))) = Some (h', c')"
      using st by (simp add: insert_cb_def)
    then have "(h', c') = (hf, cf)" using F(1) by auto
    then have "c' = cf \<and> shape h' = shape hf \<and> leaked h' = leaked hf" by simp
    then show ?thesis by (rule QF)
  next
    case nb: False
    show ?thesis
    proof (cases "iter_eq pos (end_cb c)")
      case True
      then have "state_after (Some (bind (push_back (Object x) (h, c))
          (\<lambda>_ s'. case dec (end_cb (snd s')) of None \<Rightarrow> Undefined
                    | Some it \<Rightarrow> Returns it s'))) = Some (h', c')"
        using st nb by (simp add: insert_cb_def)
      from state_after_bind_returns [OF this] have "(h', c') = (hb, cb)" using SB by simp
      then have "c' = cb \<and> shape h' = shape hb \<and> leaked h' = leaked hb" by simp
    then show ?thesis by (rule QB)
    next
      case ne: False
      show ?thesis
      proof (cases "get_pos pos")
        case None
        then show ?thesis using st nb ne by (simp add: insert_cb_def)
      next
        case (Some p)
        show ?thesis
        proof (cases "p \<le> sz c div 2")
          case True
          from F(1) show ?thesis
          proof
            assume r: "push_front (Object x) (h, c) = Returns () (hf, cf)"
            show ?thesis
            proof (cases "inc (begin_cb cf)")
              case None
              then show ?thesis using st nb ne Some True r by (simp add: insert_cb_def)
            next
              case i: (Some it2)
              then have e: "insert_cb pos (Object x) (h, c) = insert_front_loop (begin_cb cf) it2 pos (hf, cf)"
                using nb ne Some True r by (simp add: insert_cb_def)
              show ?thesis
              proof (cases "insert_front_loop (begin_cb cf) it2 pos (hf, cf)")
                case None
                then show ?thesis using st e by simp
              next
                case (Some out)
                from kept_state [OF insert_front_loop_kept [OF Some]] st e Some
                have "c' = cf \<and> shape h' = shape hf \<and> leaked h' = leaked hf" by simp
                then show ?thesis by (rule QF)
              qed
            qed
          next
            assume "\<exists>e. push_front (Object x) (h, c) = Throws e (hf, cf)"
            then obtain e where "push_front (Object x) (h, c) = Throws e (hf, cf)" ..
            then have "(h', c') = (hf, cf)"
              using st nb ne Some True by (simp add: insert_cb_def)
            then have "c' = cf \<and> shape h' = shape hf \<and> leaked h' = leaked hf" by simp
    then show ?thesis by (rule QF)
          qed
        next
          case False
          from B(1) show ?thesis
          proof
            assume r: "push_back (Object x) (h, c) = Returns () (hb, cb)"
            show ?thesis
            proof (cases "dec (end_cb cb)")
              case None
              then show ?thesis using st nb ne Some False r by (simp add: insert_cb_def)
            next
              case i: (Some it2)
              show ?thesis
              proof (cases "dec it2")
                case None
                then show ?thesis using st nb ne Some False r i by (simp add: insert_cb_def)
              next
                case j: (Some it1)
                then have e: "insert_cb pos (Object x) (h, c) = insert_back_loop it1 it2 pos (hb, cb)"
                  using nb ne Some False r i by (simp add: insert_cb_def)
                show ?thesis
                proof (cases "insert_back_loop it1 it2 pos (hb, cb)")
                  case None
                  then show ?thesis using st e by simp
                next
                  case (Some out)
                  from kept_state [OF insert_back_loop_kept [OF Some]] st e Some
                  have "c' = cb \<and> shape h' = shape hb \<and> leaked h' = leaked hb" by simp
                  then show ?thesis by (rule QB)
                qed
              qed
            qed
          next
            assume "\<exists>e. push_back (Object x) (h, c) = Throws e (hb, cb)"
            then obtain e where "push_back (Object x) (h, c) = Throws e (hb, cb)" ..
            then have "(h', c') = (hb, cb)"
              using st nb ne Some False by (simp add: insert_cb_def)
            then have "c' = cb \<and> shape h' = shape hb \<and> leaked h' = leaked hb" by simp
    then show ?thesis by (rule QB)
          qed
        qed
      qed
    qed
  qed
qed

subsection \<open>\<open>erase\<close>\<close>

lemma pop_front_after:
  assumes v: "valid h c" and nz: "sz c \<noteq> 0"
  shows "\<exists>h1 c1. pop_front (h, c) = Returns () (h1, c1) \<and> valid h1 c1 \<and> cap c1 = cap c
      \<and> sz c1 = sz c - 1 \<and> leaked h1 = leaked h"
proof -
  from pop_front_valid [OF v nz] obtain h1 c1 where
    "pop_front (h, c) = Returns () (h1, c1)" "valid h1 c1"
    "c1 = c\<lparr>sz := sz c - 1, ind_begin := (ind_begin c + 1) mod cap c\<rparr>"
    "h1 = put_block (data c) (Some ((slots h c)[unat (ind_begin c) := None])) h"
    by blast
  then show ?thesis by (intro exI [of _ h1] exI [of _ c1]) simp
qed

lemma pop_back_after:
  assumes v: "valid h c" and nz: "sz c \<noteq> 0"
  shows "\<exists>h1 c1. pop_back (h, c) = Returns () (h1, c1) \<and> valid h1 c1 \<and> cap c1 = cap c
      \<and> sz c1 = sz c - 1 \<and> leaked h1 = leaked h"
proof -
  from pop_back_valid [OF v nz] obtain h1 c1 where
    "pop_back (h, c) = Returns () (h1, c1)" "valid h1 c1"
    "c1 = c\<lparr>sz := sz c - 1, ind_end := (ind_end c - 1 + cap c) mod cap c\<rparr>"
    "h1 = put_block (data c) (Some ((slots h c)[unat (ind_end c1) := None])) h"
    by blast
  then show ?thesis by (intro exI [of _ h1] exI [of _ c1]) simp
qed

lemma erase_after:
  fixes h :: "'a heap"
  assumes v: "valid h c"
    and st: "state_after (erase pos (h, c)) = Some (h', c')"
  shows "valid h' c' \<and> cap c' = cap c \<and> leaked h' = leaked h
      \<and> (sz c' = sz c - 1 \<or> c' = c) \<and> sz c \<noteq> 0"
proof (cases "get_pos pos")
  case None
  then show ?thesis using st by (simp add: erase_def)
next
  case (Some p)
  show ?thesis
  proof (cases "p < sz c")
    case False
    then show ?thesis using st Some by (simp add: erase_def)
  next
    case True
    then have nz: "sz c \<noteq> 0" by auto
    then have c0: "cap c \<noteq> 0" using v by (auto simp: valid_def)
    from pop_front_after [OF v nz] obtain hf cf where
      F: "pop_front (h, c) = Returns () (hf, cf)" "valid hf cf" "cap cf = cap c"
        "sz cf = sz c - 1" "leaked hf = leaked h" by blast
    from pop_back_after [OF v nz] obtain hb cb where
      B: "pop_back (h, c) = Returns () (hb, cb)" "valid hb cb" "cap cb = cap c"
        "sz cb = sz c - 1" "leaked hb = leaked h" by blast
    show ?thesis
    proof (cases "iter_eq pos (begin_cb c)")
      case True
      then show ?thesis using st Some \<open>p < sz c\<close> F nz by (auto simp: erase_def)
    next
      case nb: False
      obtain lst where l: "dec (end_cb c) = Some lst" using c0 by (simp add: dec_def end_cb_def)
      show ?thesis
      proof (cases "iter_eq pos lst")
        case True
        have "dec (end_cb cb) \<noteq> None" using B(3) c0 by (simp add: dec_def end_cb_def)
        then show ?thesis
          using st Some \<open>p < sz c\<close> nb l True B nz by (auto simp: erase_def)
      next
        case nl: False
        define mem where "mem = (p + ind_begin c) mod cap c"
        define it where "it = \<lparr>it_ind = mem, it_cap = cap c, it_data = data c,
            it_ind_begin = ind_begin c\<rparr>"
        show ?thesis
        proof (cases "p \<le> sz c div 2")
          case front: True
          have e: "erase pos (h, c) =
              (case erase_front_loop it (h, c) of
                 None \<Rightarrow> None
               | Some (Returns _ s1) \<Rightarrow>
                   Some (bind (pop_front s1)
                     (\<lambda>_ s2. case iter_plus
                           \<lparr>it_ind = mem, it_cap = cap (snd s2), it_data = data (snd s2),
                            it_ind_begin = ind_begin (snd s2)\<rparr> 1 of
                         None \<Rightarrow> Undefined
                       | Some r \<Rightarrow> Returns r s2))
               | Some (Throws e s1) \<Rightarrow> Some (Throws e s1)
               | Some Assertion_failed \<Rightarrow> Some Assertion_failed
               | Some Undefined \<Rightarrow> Some Undefined)"
            unfolding mem_def it_def
            using Some \<open>p < sz c\<close> nb l nl c0 front
            by (simp add: erase_def Let_def)
          show ?thesis
          proof (cases "erase_front_loop it (h, c)")
            case None
            then show ?thesis using st e by simp
          next
            case so: (Some out)
            note k = erase_front_loop_kept [OF so]
            show ?thesis
            proof (cases out)
              case (Returns u s1)
              then obtain h1 where s1: "s1 = (h1, c)" and sh: "shape h1 = shape h"
                and lk: "leaked h1 = leaked h" using k by (cases s1) auto
              have v1: "valid h1 c" using v shape_valid [OF sh] by simp
              from pop_front_after [OF v1 nz] obtain h2 c2 where
                P: "pop_front (h1, c) = Returns () (h2, c2)" "valid h2 c2" "cap c2 = cap c"
                  "sz c2 = sz c - 1" "leaked h2 = leaked h1" by blast
              have "iter_plus \<lparr>it_ind = mem, it_cap = cap c2, it_data = data c2,
                  it_ind_begin = ind_begin c2\<rparr> 1 \<noteq> None"
                using P(3) c0 by (simp add: iter_plus_def)
              then have "state_after (erase pos (h, c)) = Some (h2, c2)"
                using e so Returns s1 P(1) by auto
              then show ?thesis using st P lk nz by simp
            next
              case (Throws ex s1)
              then obtain h1 where s1: "s1 = (h1, c)" and sh: "shape h1 = shape h"
                and lk: "leaked h1 = leaked h" using k by (cases s1) auto
              have v1: "valid h1 c" using v shape_valid [OF sh] by simp
              have "state_after (erase pos (h, c)) = Some (h1, c)"
                using e so Throws s1 by simp
              then show ?thesis using st v1 lk nz by simp
            next
              case Assertion_failed
              then show ?thesis using st e so by simp
            next
              case Undefined
              then show ?thesis using st e so by simp
            qed
          qed
        next
          case bk: False
          obtain it2 where ip: "iter_plus it 1 = Some it2"
            using c0 by (simp add: iter_plus_def it_def)
          have e: "erase pos (h, c) =
              (case erase_back_loop it it2 (h, c) of
                 None \<Rightarrow> None
               | Some (Returns _ s1) \<Rightarrow>
                   Some (bind (pop_back s1)
                     (\<lambda>_ s2. Returns
                        \<lparr>it_ind = mem, it_cap = cap (snd s2), it_data = data (snd s2),
                         it_ind_begin = ind_begin (snd s2)\<rparr> s2))
               | Some (Throws e s1) \<Rightarrow> Some (Throws e s1)
               | Some Assertion_failed \<Rightarrow> Some Assertion_failed
               | Some Undefined \<Rightarrow> Some Undefined)"
            unfolding mem_def it_def
            using Some \<open>p < sz c\<close> nb l nl c0 bk ip [unfolded it_def mem_def]
            by (simp add: erase_def Let_def)
          show ?thesis
          proof (cases "erase_back_loop it it2 (h, c)")
            case None
            then show ?thesis using st e by simp
          next
            case so: (Some out)
            note k = erase_back_loop_kept [OF so]
            show ?thesis
            proof (cases out)
              case (Returns u s1)
              then obtain h1 where s1: "s1 = (h1, c)" and sh: "shape h1 = shape h"
                and lk: "leaked h1 = leaked h" using k by (cases s1) auto
              have v1: "valid h1 c" using v shape_valid [OF sh] by simp
              from pop_back_after [OF v1 nz] obtain h2 c2 where
                P: "pop_back (h1, c) = Returns () (h2, c2)" "valid h2 c2" "cap c2 = cap c"
                  "sz c2 = sz c - 1" "leaked h2 = leaked h1" by blast
              have "state_after (erase pos (h, c)) = Some (h2, c2)"
                using e so Returns s1 P(1) by auto
              then show ?thesis using st P lk nz by simp
            next
              case (Throws ex s1)
              then obtain h1 where s1: "s1 = (h1, c)" and sh: "shape h1 = shape h"
                and lk: "leaked h1 = leaked h" using k by (cases s1) auto
              have v1: "valid h1 c" using v shape_valid [OF sh] by simp
              have "state_after (erase pos (h, c)) = Some (h1, c)"
                using e so Throws s1 by simp
              then show ?thesis using st v1 lk nz by simp
            next
              case Assertion_failed
              then show ?thesis using st e so by simp
            next
              case Undefined
              then show ?thesis using st e so by simp
            qed
          qed
        qed
      qed
    qed
  qed
qed

subsection \<open>The state a call with a reference argument leaves\<close>

lemma push_back_state:
  fixes h :: "'a heap"
  assumes v: "valid h c" and m: "cap c = 0 \<or> 4 \<le> cap c" and c62: "cap c \<le> 2 ^ 62"
    and st: "state_after (Some (push_back r (h, c))) = Some (h1, c1)"
  shows "valid h1 c1 \<and> (cap c1 = 0 \<or> 4 \<le> cap c1) \<and> leaked h1 = leaked h
      \<and> (sz c \<noteq> 0 \<longrightarrow> cap c \<le> cap c1)
      \<and> (sz c = 0 \<longrightarrow> (if fst (fails h) then c1 = c else cap c1 = 4))
      \<and> framed h c h1 c1"
proof -
  from push_back_cases [of r "(h, c)"] st obtain x where
    e: "push_back r (h, c) = push_back (Object x) (h, c)" by auto
  from push_back_after [OF v m c62, of x] st show ?thesis unfolding e by auto
qed

lemma push_front_state:
  fixes h :: "'a heap"
  assumes v: "valid h c" and m: "cap c = 0 \<or> 4 \<le> cap c" and c62: "cap c \<le> 2 ^ 62"
    and st: "state_after (Some (push_front r (h, c))) = Some (h1, c1)"
  shows "valid h1 c1 \<and> (cap c1 = 0 \<or> 4 \<le> cap c1) \<and> leaked h1 = leaked h
      \<and> (sz c \<noteq> 0 \<longrightarrow> cap c \<le> cap c1)
      \<and> (sz c = 0 \<longrightarrow> (if fst (fails h) then c1 = c else cap c1 = 4))
      \<and> framed h c h1 c1"
proof -
  from push_front_cases [of r "(h, c)"] st obtain x where
    e: "push_front r (h, c) = push_front (Object x) (h, c)" by auto
  from push_front_after [OF v m c62, of x] st show ?thesis unfolding e by auto
qed

lemma insert_cb_state:
  fixes h :: "'a heap"
  assumes v: "valid h c" and m: "cap c = 0 \<or> 4 \<le> cap c" and c62: "cap c \<le> 2 ^ 62"
    and st: "state_after (insert_cb pos r (h, c)) = Some (h', c')"
  shows "valid h' c' \<and> (cap c' = 0 \<or> 4 \<le> cap c') \<and> leaked h' = leaked h
      \<and> (sz c \<noteq> 0 \<longrightarrow> cap c \<le> cap c')
      \<and> (sz c = 0 \<longrightarrow> (if fst (fails h) then c' = c else cap c' = 4))"
proof -
  from insert_cb_cases [OF st] obtain x where
    e: "insert_cb pos r (h, c) = insert_cb pos (Object x) (h, c)" by blast
  from insert_cb_after [OF v m c62 st [unfolded e]] show ?thesis .
qed

lemma index_ref_valid:
  assumes v: "valid h c" and i: "i < sz c"
  shows "\<exists>r. index_ref i (h, c) = Returns r (h, c) \<and> read r h = Some (contents h c ! unat i)
      \<and> r = Element (data c) ((ind_begin c + i) mod cap c)"
proof -
  have c0: "cap c \<noteq> 0" using v i by (auto simp: valid_def)
  from index_valid [OF v i] have "load (data c) ((ind_begin c + i) mod cap c) h
      = Some (contents h c ! unat i)"
    using i c0 by (auto simp: index_def split: option.splits)
  then show ?thesis using i c0 by (simp add: index_ref_def read_def)
qed

subsection \<open>Copying\<close>

lemma framed_valid_other:
  assumes fr: "framed h c h' c'" and vo: "valid h oth"
    and d: "data oth = None \<or> data oth \<noteq> data c"
  shows "valid h' oth" and "contents h' oth = contents h oth"
    and "data oth = None \<or> data oth \<noteq> data c'"
proof -
  have b: "block_at h' (data oth) = block_at h (data oth)
      \<and> (data oth = None \<or> data oth \<noteq> data c')"
  proof (cases "data oth")
    case None
    then show ?thesis by simp
  next
    case (Some a)
    then have a: "a < length (blocks h)" using valid_owned [OF vo] by simp
    have ne: "Some a \<noteq> data c" using d Some by auto
    have 1: "block_at h' (Some a) = block_at h (Some a)"
      using fr a ne by (simp add: framed_def)
    have "data c' = data c \<or> data c' = None \<or> (\<exists>b. data c' = Some b \<and> length (blocks h) \<le> b)"
      using fr by (simp add: framed_def)
    then have "Some a \<noteq> data c'" using ne a by auto
    then show ?thesis using 1 Some by simp
  qed
  then show "valid h' oth" using vo valid_heap_cong [of h' oth h] by simp
  show "contents h' oth = contents h oth" using b contents_heap_cong [of h' oth h] by simp
  show "data oth = None \<or> data oth \<noteq> data c'" using b by simp
qed

lemma copy_loop_valid:
  fixes h :: "'a heap"
  assumes "valid h this" and "cap this = 0 \<or> 4 \<le> cap this" and "valid h oth"
    and "sz oth \<le> 2 ^ 62" and "i \<le> sz oth"
    and "data oth = None \<or> data oth \<noteq> data this"
    and "contents h this = take (unat i) (contents h oth)"
  shows "\<exists>h' c'. valid h' c' \<and> (cap c' = 0 \<or> 4 \<le> cap c') \<and> leaked h' = leaked h
      \<and> framed h this h' c'
      \<and> (copy_loop i oth (h, this) = Returns () (h', c') \<and> contents h' c' = contents h oth
         \<or> (\<exists>e. copy_loop i oth (h, this) = Throws e (h', c')))"
  using assms
proof (induction "unat (sz oth) - unat i" arbitrary: i h this)
  case 0
  then have "unat i = unat (sz oth)" by (simp add: word_le_nat_alt)
  then have i: "i = sz oth" by (simp add: word_unat_eq_iff)
  have "copy_loop i oth (h, this) = Returns () (h, this)"
    by (subst copy_loop.simps) (simp add: i size_cb_def)
  moreover have "contents h this = contents h oth" using 0(8) i by simp
  ultimately show ?case using 0(2,3) by (intro exI [of _ h] exI [of _ this]) simp
next
  case (Suc k)
  note v = Suc(3) and m = Suc(4) and vo = Suc(5) and o62 = Suc(6) and d = Suc(8)
    and cs = Suc(9)
  define xs where "xs = contents h oth"
  have lt: "unat i < unat (sz oth)" using Suc(2) by simp
  then have ilt: "i < sz oth" by (simp add: word_less_nat_alt)
  have lx: "length xs = unat (sz oth)" by (simp add: xs_def)
  have S: "unat (sz this) = unat i"
    using arg_cong [OF cs, of length] lt lx by (simp add: xs_def)
  have i1: "unat (i + 1) = unat i + 1" using ilt by unat_arith
  from index_ref_valid [OF vo ilt] obtain rf where
    ix: "index_ref i (h, oth) = Returns rf (h, oth)" and rd: "read rf h = Some (xs ! unat i)"
    and rf: "rf = Element (data oth) ((ind_begin oth + i) mod cap oth)"
    unfolding xs_def by blast
  have g: "cap this \<le> 2 ^ 62" if full: "sz this = cap this - 1"
  proof -
    have c0: "cap this \<noteq> 0"
    proof
      assume z: "cap this = 0"
      then have "sz this = 0" using v by (simp add: valid_def)
      then show False using full z by simp
    qed
    then have "unat (sz this) = unat (cap this) - 1" using full by (simp add: unat_minus_one)
    moreover have "0 < unat (cap this)" using c0 by (simp add: unat_gt_0)
    ultimately have "unat (cap this) = unat i + 1" using S by simp
    then have "unat (cap this) \<le> unat (sz oth)" using lt by simp
    also have "\<dots> \<le> 4611686018427387904" by (rule unat_le_62 [OF o62])
    finally show ?thesis by (simp add: word_le_nat_alt)
  qed
  have "load (data oth) ((ind_begin oth + i) mod cap oth) h \<noteq> None"
    using rd rf by (simp add: read_def)
  moreover from this have "data oth \<noteq> None"
    by (cases "data oth") (simp_all add: load_def block_at_def)
  ultimately have sv: "survives_growth h this rf"
    using d rf by (auto simp: survives_growth_def)
  from push_survives [OF v m g sv] rd
  have pe: "push_back rf (h, this) = push_back (Object (xs ! unat i)) (h, this)" by auto
  from push_back_spec [OF v m g, of "xs ! unat i"] obtain h1 c1 where
    P: "valid h1 c1" "cap c1 = 0 \<or> 4 \<le> cap c1" "leaked h1 = leaked h" "framed h this h1 c1"
      "push_back (Object (xs ! unat i)) (h, this) = Returns () (h1, c1)
          \<and> contents h1 c1 = contents h this @ [xs ! unat i]
       \<or> (\<exists>e. push_back (Object (xs ! unat i)) (h, this) = Throws e (h1, c1))"
    by blast
  note O = framed_valid_other [OF P(4) vo d]
  from P(5) show ?case
  proof
    assume r: "push_back (Object (xs ! unat i)) (h, this) = Returns () (h1, c1)
          \<and> contents h1 c1 = contents h this @ [xs ! unat i]"
    have step: "copy_loop i oth (h, this) = copy_loop (i + 1) oth (h1, c1)"
      using ilt ix pe r by (subst copy_loop.simps) (simp add: size_cb_def)
    have c1: "contents h1 c1 = take (unat (i + 1)) (contents h1 oth)"
      using r cs lt lx i1 O(2) by (simp add: xs_def take_Suc_conv_app_nth)
    have k: "k = unat (sz oth) - unat (i + 1)" using Suc(2) i1 by simp
    have le: "i + 1 \<le> sz oth" using lt i1 by (simp add: word_le_nat_alt)
    from Suc(1) [OF k P(1,2) O(1) o62 le O(3) c1] obtain h' c' where
      R: "valid h' c'" "cap c' = 0 \<or> 4 \<le> cap c'" "leaked h' = leaked h1"
        "framed h1 c1 h' c'"
        "copy_loop (i + 1) oth (h1, c1) = Returns () (h', c')
            \<and> contents h' c' = contents h1 oth
         \<or> (\<exists>e. copy_loop (i + 1) oth (h1, c1) = Throws e (h', c'))"
      by blast
    have "framed h this h' c'" by (rule framed_trans [OF P(4) R(4)])
    moreover have "leaked h' = leaked h" using R(3) P(3) by simp
    moreover have "copy_loop i oth (h, this) = Returns () (h', c')
            \<and> contents h' c' = contents h oth
         \<or> (\<exists>e. copy_loop i oth (h, this) = Throws e (h', c'))"
      using R(5) step O(2) by simp
    ultimately show ?thesis using R(1,2) by blast
  next
    assume "\<exists>e. push_back (Object (xs ! unat i)) (h, this) = Throws e (h1, c1)"
    then obtain e where t: "push_back (Object (xs ! unat i)) (h, this) = Throws e (h1, c1)" ..
    have "copy_loop i oth (h, this) = Throws e (h1, c1)"
      using ilt ix pe t by (subst copy_loop.simps) (simp add: size_cb_def)
    then show ?thesis using P(1-4) by blast
  qed
qed

lemma put_block_other_valid:
  assumes "valid h c" and "data c = None \<or> data c \<noteq> p"
  shows "valid (put_block p b h) c" and "contents (put_block p b h) c = contents h c"
proof -
  have "block_at (put_block p b h) (data c) = block_at h (data c)"
  proof (cases "data c")
    case None
    then show ?thesis by simp
  next
    case (Some a)
    then show ?thesis using assms(2) by (simp add: block_at_put_block_other)
  qed
  then show "valid (put_block p b h) c" and "contents (put_block p b h) c = contents h c"
    using assms(1) valid_heap_cong [of "put_block p b h" c h]
      contents_heap_cong [of "put_block p b h" c h] by simp_all
qed

lemma copy_constructor_valid:
  fixes h :: "'a heap"
  assumes vo: "valid h oth" and o62: "cap oth \<le> 2 ^ 62"
  shows "(\<exists>h' this. copy_constructor oth h = Returns this h' \<and> valid h' this
        \<and> (cap this = 0 \<or> 4 \<le> cap this) \<and> contents h' this = contents h oth
        \<and> leaked h' = leaked h \<and> framed h circular_buffer_new h' this)
    \<or> (\<exists>e h'. copy_constructor oth h = Throws e h' \<and> leaked h' = leaked h
        \<and> framed h circular_buffer_new h' circular_buffer_new)"
proof -
  have s62: "sz oth \<le> 2 ^ 62"
  proof (cases "cap oth = 0")
    case True
    then show ?thesis using vo by (simp add: valid_def)
  next
    case False
    from validD(2) [OF vo False] o62 show ?thesis by simp
  qed
  have d: "data oth = None \<or> data oth \<noteq> data circular_buffer_new"
    by (cases "data oth") (simp_all add: circular_buffer_new_def)
  have c0: "contents h circular_buffer_new = take (unat (0 :: size_t)) (contents h oth)"
    by simp
  have m0: "cap circular_buffer_new = 0 \<or> 4 \<le> cap circular_buffer_new"
    by (simp add: circular_buffer_new_def)
  from copy_loop_valid [OF valid_new m0 vo s62 _ d c0] obtain h' c' where
    R: "valid h' c'" "cap c' = 0 \<or> 4 \<le> cap c'" "leaked h' = leaked h"
      "framed h circular_buffer_new h' c'"
      "copy_loop 0 oth (h, circular_buffer_new) = Returns () (h', c')
            \<and> contents h' c' = contents h oth
         \<or> (\<exists>e. copy_loop 0 oth (h, circular_buffer_new) = Throws e (h', c'))"
    by auto
  from R(5) show ?thesis
  proof
    assume "copy_loop 0 oth (h, circular_buffer_new) = Returns () (h', c')
            \<and> contents h' c' = contents h oth"
    then have "copy_constructor oth h = Returns c' h' \<and> contents h' c' = contents h oth"
      by (simp add: copy_constructor_def)
    then show ?thesis using R(1-4) by blast
  next
    assume "\<exists>e. copy_loop 0 oth (h, circular_buffer_new) = Throws e (h', c')"
    then obtain e where "copy_loop 0 oth (h, circular_buffer_new) = Throws e (h', c')" ..
    then have "copy_constructor oth h = Throws e (put_block (data c') None h')"
      by (simp add: copy_constructor_def unwind_valid [OF R(1)])
    moreover have "framed h' c' (put_block (data c') None h') circular_buffer_new"
      by (rule framed_put_block) (simp add: circular_buffer_new_def)
    then have "framed h circular_buffer_new (put_block (data c') None h') circular_buffer_new"
      by (rule framed_trans [OF R(4)])
    ultimately show ?thesis using R(3) by auto
  qed
qed

lemma framed_new_valid:
  assumes "framed h circular_buffer_new h' c'" and "valid h c"
  shows "valid h' c" and "contents h' c = contents h c" and "data c = None \<or> data c \<noteq> data c'"
proof -
  have d: "data c = None \<or> data c \<noteq> data circular_buffer_new"
    by (cases "data c") (simp_all add: circular_buffer_new_def)
  from framed_valid_other [OF assms d]
  show "valid h' c" and "contents h' c = contents h c" and "data c = None \<or> data c \<noteq> data c'" .
qed

lemma copy_assignment_valid:
  fixes h :: "'a heap"
  assumes v: "valid h c" and m: "cap c = 0 \<or> 4 \<le> cap c"
    and vo: "valid h oth" and o62: "cap oth \<le> 2 ^ 62"
  shows "\<exists>h' c'. valid h' c' \<and> (cap c' = 0 \<or> 4 \<le> cap c') \<and> leaked h' = leaked h
      \<and> (copy_assignment oth (h, c) = Returns () (h', c') \<and> contents h' c' = contents h oth
         \<or> (\<exists>e. copy_assignment oth (h, c) = Throws e (h', c')) \<and> c' = c
            \<and> contents h' c = contents h c)"
proof -
  from copy_constructor_valid [OF vo o62] show ?thesis
  proof
    assume "\<exists>h' this. copy_constructor oth h = Returns this h' \<and> valid h' this
        \<and> (cap this = 0 \<or> 4 \<le> cap this) \<and> contents h' this = contents h oth
        \<and> leaked h' = leaked h \<and> framed h circular_buffer_new h' this"
    then obtain h1 tmp where r: "copy_constructor oth h = Returns tmp h1" and vt: "valid h1 tmp"
      and mt: "cap tmp = 0 \<or> 4 \<le> cap tmp" and ct: "contents h1 tmp = contents h oth"
      and lk: "leaked h1 = leaked h" and fr: "framed h circular_buffer_new h1 tmp"
      by blast
    note O = framed_new_valid [OF fr v]
    have d: "data tmp = None \<or> data tmp \<noteq> data c" using O(3) by auto
    have "copy_assignment oth (h, c) = Returns () (put_block (data c) None h1, tmp)"
      using r by (simp add: copy_assignment_def swap_cb_eq destructor_valid [OF O(1)])
    moreover note put_block_other_valid [OF vt d, of None]
    ultimately show ?thesis
      using mt ct lk by (intro exI [of _ "put_block (data c) None h1"] exI [of _ tmp]) simp
  next
    assume "\<exists>e h'. copy_constructor oth h = Throws e h' \<and> leaked h' = leaked h
        \<and> framed h circular_buffer_new h' circular_buffer_new"
    then obtain e h1 where r: "copy_constructor oth h = Throws e h1" and lk: "leaked h1 = leaked h"
      and fr: "framed h circular_buffer_new h1 circular_buffer_new"
      by blast
    note O = framed_new_valid [OF fr v]
    have "copy_assignment oth (h, c) = Throws e (h1, c)"
      using r by (simp add: copy_assignment_def)
    then show ?thesis using O(1,2) m lk by (intro exI [of _ h1] exI [of _ c]) auto
  qed
qed

subsection \<open>Every public call\<close>

lemma valid_invariant1: "valid h c \<Longrightarrow> invariant1 c"
  by (auto simp: valid_def invariant1_def word_greater_zero_iff split: if_splits)

lemma state_after_forget: "state_after (Some (forget out)) = state_after (Some out)"
  by (cases out) simp_all

lemma perform_after:
  fixes h :: "'a heap"
  assumes v: "valid h c" and ok: "cap_ok c" and ad: "admissible h call"
    and st: "state_after (perform call (h, c)) = Some (h', c')"
  shows "valid h' c' \<and> (cap c' = 0 \<or> 4 \<le> cap c') \<and> leaked h' = leaked h"
proof -
  note m = cap_ok_min [OF ok] and c62 = cap_ok_max [OF ok]
  show ?thesis
  proof (cases call)
    case (Call_push_back r)
    then have "state_after (Some (push_back r (h, c))) = Some (h', c')" using st by simp
    from push_back_state [OF v m c62 this] show ?thesis by simp
  next
    case (Call_push_front r)
    then have "state_after (Some (push_front r (h, c))) = Some (h', c')" using st by simp
    from push_front_state [OF v m c62 this] show ?thesis by simp
  next
    case Call_pop_back
    show ?thesis
    proof (cases "sz c = 0")
      case True
      then show ?thesis using st Call_pop_back by (simp add: pop_back_def)
    next
      case False
      from pop_back_after [OF v False] st Call_pop_back m show ?thesis by auto
    qed
  next
    case Call_pop_front
    show ?thesis
    proof (cases "sz c = 0")
      case True
      then show ?thesis using st Call_pop_front by (simp add: pop_front_def)
    next
      case False
      from pop_front_after [OF v False] st Call_pop_front m show ?thesis by auto
    qed
  next
    case (Call_insert pos r)
    have "state_after (insert_cb pos r (h, c)) = Some (h', c')"
      using st Call_insert by (cases "insert_cb pos r (h, c)") (simp_all add: state_after_forget)
    from insert_cb_state [OF v m c62 this] show ?thesis by simp
  next
    case (Call_erase pos)
    have "state_after (erase pos (h, c)) = Some (h', c')"
      using st Call_erase by (cases "erase pos (h, c)") (simp_all add: state_after_forget)
    from erase_after [OF v this] m show ?thesis by auto
  next
    case Call_clear
    then have "h' = put_block (data c) None h" "c' = circular_buffer_new"
      using st clear_valid [OF v] by simp_all
    then show ?thesis by (simp add: circular_buffer_new_def [of ] valid_def)
  next
    case (Call_copy_assignment oth)
    then have vo: "valid h oth" and o62: "cap oth \<le> 2 ^ 62"
      using ad cap_ok_max [of oth] by (simp_all add: admissible_def)
    from copy_assignment_valid [OF v m vo o62] st Call_copy_assignment show ?thesis by auto
  qed
qed


subsection \<open>Iterators at a logical position\<close>

lemma swap_values_at:
  fixes h :: "'a heap"
  assumes v: "valid h c" and nf: "faults h = []"
    and a1: "at_pos c q it1" and a2: "at_pos c r it2"
    and q: "q < unat (sz c)" and r: "r < unat (sz c)"
  shows "\<exists>h'. swap_values it1 it2 h = Returns () h' \<and> valid h' c \<and> faults h' = []
      \<and> leaked h' = leaked h
      \<and> contents h' c = (contents h c)[q := contents h c ! r, r := contents h c ! q]"
proof -
  have c0: "cap c \<noteq> 0" using v q by (auto simp: valid_def)
  note D = validD [OF v c0] and N = valid_nat [OF v c0]
  define B C S xs ss where "B = unat (ind_begin c)" and "C = unat (cap c)"
    and "S = unat (sz c)" and "xs = contents h c" and "ss = slots h c"
  define i1 i2 where "i1 = (B + q) mod C" and "i2 = (B + r) mod C"
  have C0: "0 < C" and BC: "B < C" and SC: "S < C" using N by (simp_all add: B_def C_def S_def)
  have i1C: "i1 < C" and i2C: "i2 < C" using C0 by (simp_all add: i1_def i2_def)
  have u1: "unat (it_ind it1) = i1" and u2: "unat (it_ind it2) = i2"
    using a1 a2 by (simp_all add: at_pos_def i1_def i2_def B_def C_def)
  have d1: "it_data it1 = data c" and d2: "it_data it2 = data c"
    using a1 a2 by (simp_all add: at_pos_def)
  have len: "length ss = C" using D(6) by (simp add: ss_def C_def)
  have b: "block_at h (data c) = Some ss" using D(5) by (simp add: ss_def)
  have s1: "ss ! i1 = Some (xs ! q)" and s2: "ss ! i2 = Some (xs ! r)"
    using valid_slot_live [OF v c0 q] valid_slot_live [OF v c0 r]
    by (simp_all add: ss_def xs_def i1_def i2_def B_def C_def)
  have l1: "load (data c) (it_ind it1) h = Some (xs ! q)"
    using b len i1C u1 s1 by (simp add: load_def)
  have l2: "load (data c) (it_ind it2) h = Some (xs ! r)"
    using b len i2C u2 s2 by (simp add: load_def)
  have hf: "h\<lparr>faults := tl (faults h)\<rparr> = h" using nf by simp
  have cl: "copy_local (it_data it1) (it_ind it1) h = Returns (xs ! q) h"
    using l1 nf hf by (simp add: copy_local_eq d1)
  define h2 where "h2 = put_block (data c) (Some (ss[i1 := Some (xs ! r)])) h"
  have as1: "assign (it_data it1) (it_ind it1) (xs ! r) h = Returns () h2"
    using b l1 u1 by (simp add: assign_def d1 h2_def)
  have bn: "block_at h (data c) \<noteq> None" using b by simp
  have b2: "block_at h2 (data c) = Some (ss[i1 := Some (xs ! r)])"
    by (simp add: h2_def block_at_put_block [OF bn])
  have "(ss[i1 := Some (xs ! r)]) ! i2 \<noteq> None"
    using s2 i1C len by (cases "i1 = i2") simp_all
  then obtain w where "(ss[i1 := Some (xs ! r)]) ! i2 = Some w" by auto
  then have l22: "load (data c) (it_ind it2) h2 = Some w"
    using b2 len i2C u2 by (simp add: load_def)
  define h' where "h' = put_block (data c) (Some (ss[i1 := Some (xs ! r), i2 := Some (xs ! q)])) h"
  have as2: "assign (it_data it2) (it_ind it2) (xs ! q) h2 = Returns () h'"
    using b2 l22 u2 by (simp add: assign_def d2 h'_def h2_def)
  have sw: "swap_values it1 it2 h = Returns () h'"
    using cl l2 as1 as2 by (simp add: swap_values_def d2)
  note sh = swap_values_shape [OF disjI1, OF sw]
  have v': "valid h' c" using v shape_valid [of h' h c] sh by simp
  have f': "faults h' = []" using nf by (simp add: h'_def)
  have sl: "slots h' c = ss[i1 := Some (xs ! r), i2 := Some (xs ! q)]"
    by (simp add: slots_def h'_def block_at_put_block [OF bn])
  have lx: "length xs = S" by (simp add: xs_def S_def)
  have "contents h' c = xs[q := xs ! r, r := xs ! q]"
  proof (rule nth_equalityI)
    show "length (contents h' c) = length (xs[q := xs ! r, r := xs ! q])"
      by (simp add: lx S_def)
  next
    fix i assume "i < length (contents h' c)"
    then have i: "i < S" by (simp add: S_def)
    then have iC: "i < C" using SC by simp
    define j where "j = (B + i) mod C"
    have jC: "j < C" using C0 by (simp add: j_def)
    have n: "contents h' c ! i = the ((ss[i1 := Some (xs ! r), i2 := Some (xs ! q)]) ! j)"
      using nth_contents [of i c h'] i sl by (simp add: S_def j_def B_def C_def)
    have e1: "(j = i1) = (i = q)"
      using ring_phys_inj [OF BC iC _, of q] q SC by (auto simp: j_def i1_def S_def)
    have e2: "(j = i2) = (i = r)"
      using ring_phys_inj [OF BC iC _, of r] r SC by (auto simp: j_def i2_def S_def)
    have old: "ss ! j = Some (xs ! i)"
      using valid_slot_live [OF v c0, of i] i
      by (simp add: ss_def xs_def j_def B_def C_def S_def)
    show "contents h' c ! i = xs[q := xs ! r, r := xs ! q] ! i"
    proof (cases "i = r")
      case True
      then show ?thesis using n e2 i2C len r lx by (simp add: S_def)
    next
      case nr: False
      show ?thesis
      proof (cases "i = q")
        case True
        then show ?thesis using n e1 e2 nr i1C len q lx by (simp add: S_def)
      next
        case False
        then show ?thesis using n e1 e2 nr old by simp
      qed
    qed
  qed
  then show ?thesis using sw v' f' sh by (intro exI [of _ h']) (simp add: xs_def)
qed

lemma at_pos_bound:
  assumes "cap c \<noteq> 0" and "at_pos c q it"
  shows "it_ind it < cap c" and "it_cap it \<noteq> 0"
proof -
  have "0 < unat (cap c)" using assms(1) by (simp add: unat_gt_0)
  then have "unat (it_ind it) < unat (cap c)" using assms(2) by (simp add: at_pos_def)
  then show "it_ind it < cap c" by (simp add: word_less_nat_alt)
  show "it_cap it \<noteq> 0" using assms by (simp add: at_pos_def)
qed

lemma at_pos_inc:
  assumes c0: "cap c \<noteq> 0" and a: "at_pos c q it"
  shows "\<exists>it'. inc it = Some it' \<and> at_pos c (Suc q) it' \<and> it_ind_begin it' = it_ind_begin it"
proof -
  note b = at_pos_bound [OF c0 a]
  have "unat ((it_ind it + 1) mod cap c) = (unat (it_ind it) + 1) mod unat (cap c)"
    by (rule unat_ring_inc [OF b(1)])
  also have "\<dots> = (unat (ind_begin c) + Suc q) mod unat (cap c)"
    using a by (simp add: at_pos_def mod_Suc_eq)
  finally show ?thesis using a b(2) by (simp add: inc_def at_pos_def)
qed

lemma ring_dec_step:
  fixes B C q :: nat
  assumes "0 < C"
  shows "((B + Suc q) mod C + C - 1) mod C = (B + q) mod C"
proof -
  have "((B + Suc q) mod C + C - 1) mod C = ((B + Suc q) mod C + (C - 1)) mod C"
    using assms by simp
  also have "\<dots> = (B + Suc q + (C - 1)) mod C" by (simp add: mod_add_left_eq)
  also have "B + Suc q + (C - 1) = B + q + C" using assms by simp
  also have "(B + q + C) mod C = (B + q) mod C" by simp
  finally show ?thesis .
qed

lemma at_pos_dec:
  assumes c63: "cap c \<le> 2 ^ 63" and c0: "cap c \<noteq> 0" and a: "at_pos c (Suc q) it"
  shows "\<exists>it'. dec it = Some it' \<and> iter_minus it 1 = Some it' \<and> at_pos c q it'
      \<and> it_ind_begin it' = it_ind_begin it"
proof -
  note b = at_pos_bound [OF c0 a]
  have C0: "0 < unat (cap c)" using c0 by (simp add: unat_gt_0)
  have "unat ((it_ind it - 1 + cap c) mod cap c) = (unat (it_ind it) + unat (cap c) - 1) mod unat (cap c)"
    by (rule unat_ring_dec [OF c63 b(1)])
  also have "\<dots> = (unat (ind_begin c) + q) mod unat (cap c)"
    using a ring_dec_step [OF C0] by (simp add: at_pos_def)
  finally have u: "unat ((it_ind it - 1 + cap c) mod cap c) = (unat (ind_begin c) + q) mod unat (cap c)" .
  have e: "dec it = Some (it\<lparr>it_ind := (it_ind it - 1 + cap c) mod cap c\<rparr>)"
    using a b(2) by (simp add: dec_def at_pos_def)
  have "it\<lparr>it_ind := (it_ind it - 1 + cap c) mod cap c\<rparr>
      = \<lparr>it_ind = (it_ind it - 1 + it_cap it) mod it_cap it, it_cap = it_cap it,
         it_data = it_data it, it_ind_begin = it_ind_begin it\<rparr>"
    using a by (simp add: at_pos_def)
  then have m: "iter_minus it 1 = Some (it\<lparr>it_ind := (it_ind it - 1 + cap c) mod cap c\<rparr>)"
    using b(2) by (simp add: iter_minus_def)
  show ?thesis using e m u a by (simp add: at_pos_def)
qed

lemma at_pos_eq:
  assumes "unat (ind_begin c) < unat (cap c)" and "at_pos c q a" and "at_pos c r b"
    and "q < unat (cap c)" and "r < unat (cap c)"
  shows "iter_eq a b = (q = r)"
proof -
  have "(it_ind a = it_ind b) = (unat (it_ind a) = unat (it_ind b))"
    by (simp add: word_unat_eq_iff)
  also have "\<dots> = (q = r)"
    using assms(2,3) ring_phys_inj [OF assms(1,4,5)] by (auto simp: at_pos_def)
  finally show ?thesis using assms(2,3) by (simp add: iter_eq_def at_pos_def)
qed

lemma at_pos_begin: "cap c \<noteq> 0 \<Longrightarrow> ind_begin c < cap c \<Longrightarrow> at_pos c 0 (begin_cb c)"
  by (simp add: at_pos_def begin_cb_def word_less_nat_alt)

lemma at_pos_end:
  assumes "valid h c" and "cap c \<noteq> 0"
  shows "at_pos c (unat (sz c)) (end_cb c)"
  using validD(4) [OF assms] by (simp add: at_pos_def end_cb_def)

subsection \<open>Moving one element through the sequence\<close>

lemma swap_up_step:
  assumes "Suc q < length xs"
  shows "take (Suc q) (xs[q := xs ! Suc q, Suc q := xs ! q])
       @ take m (drop (Suc (Suc q)) (xs[q := xs ! Suc q, Suc q := xs ! q]))
       @ (xs[q := xs ! Suc q, Suc q := xs ! q]) ! Suc q
       # drop (Suc (Suc q) + m) (xs[q := xs ! Suc q, Suc q := xs ! q])
     = take q xs @ take (Suc m) (drop (Suc q) xs) @ xs ! q # drop (Suc q + Suc m) xs"
proof -
  have "xs = take q xs @ xs ! q # drop (Suc q) xs"
    using assms by (simp add: id_take_nth_drop [symmetric])
  moreover have "drop (Suc q) xs = xs ! Suc q # drop (Suc (Suc q)) xs"
    using assms by (simp add: Cons_nth_drop_Suc)
  ultimately obtain as a b cs where xs: "xs = as @ a # b # cs" and l: "length as = q"
    using assms by (metis length_take min.absorb2 less_imp_le_nat Suc_lessD)
  show ?thesis unfolding xs l [symmetric] by (simp add: nth_append list_update_append)
qed

lemma swap_down_step:
  assumes "Suc q < length xs" and that: "m \<le> q"
  shows "take (q - m) (xs[q := xs ! Suc q, Suc q := xs ! q])
       @ (xs[q := xs ! Suc q, Suc q := xs ! q]) ! q
       # take m (drop (q - m) (xs[q := xs ! Suc q, Suc q := xs ! q]))
       @ drop (Suc q) (xs[q := xs ! Suc q, Suc q := xs ! q])
     = take (q - m) xs @ xs ! Suc q # take (Suc m) (drop (q - m) xs) @ drop (Suc (Suc q)) xs"
proof -
  have "xs = take q xs @ xs ! q # drop (Suc q) xs"
    using assms by (simp add: id_take_nth_drop [symmetric])
  moreover have "drop (Suc q) xs = xs ! Suc q # drop (Suc (Suc q)) xs"
    using assms by (simp add: Cons_nth_drop_Suc)
  ultimately obtain as a b cs where xs: "xs = as @ a # b # cs" and l: "length as = q"
    using assms by (metis length_take min.absorb2 less_imp_le_nat Suc_lessD)
  have t: "take (Suc m) (drop (length as - m) as @ a # b # cs) = drop (length as - m) as @ [a]"
    using that l by simp
  show ?thesis unfolding xs l [symmetric]
    using that l by (simp add: nth_append list_update_append t)
qed

subsection \<open>The loops return\<close>

lemma insert_front_loop_total:
  fixes h :: "'a heap"
  assumes "valid h c" and "faults h = []"
    and "at_pos c q it1" and "at_pos c (Suc q) it2" and "at_pos c (Suc q + n) pos"
    and "Suc q + n \<le> unat (sz c)"
  shows "\<exists>h' it. insert_front_loop it1 it2 pos (h, c) = Some (Returns it (h', c))
      \<and> at_pos c (q + n) it \<and> it_ind_begin it = it_ind_begin it1
      \<and> valid h' c \<and> faults h' = [] \<and> leaked h' = leaked h
      \<and> contents h' c = take q (contents h c) @ take n (drop (Suc q) (contents h c))
            @ contents h c ! q # drop (Suc q + n) (contents h c)"
  using assms
proof (induction n arbitrary: q it1 it2 h)
  case 0
  have c0: "cap c \<noteq> 0" using 0(1,6) by (auto simp: valid_def)
  note N = valid_nat [OF 0(1) c0]
  have "iter_eq it2 pos" using at_pos_eq [OF N(3) 0(4) _ _ _, of "Suc q" pos] 0(5,6) N(2) by simp
  then have "insert_front_loop it1 it2 pos (h, c) = Some (Returns it1 (h, c))"
    by (subst insert_front_loop.simps) (simp add: iter_neq_def)
  moreover have "q < length (contents h c)" using 0(6) by simp
  then have "take q (contents h c) @ take 0 (drop (Suc q) (contents h c))
            @ contents h c ! q # drop (Suc q + 0) (contents h c) = contents h c"
    by (simp add: id_take_nth_drop [symmetric])
  ultimately show ?case using 0(1,2,3) by (intro exI [of _ h] exI [of _ it1]) simp
next
  case (Suc n)
  note v = Suc(2) and nf = Suc(3) and a1 = Suc(4) and a2 = Suc(5) and ap = Suc(6) and bd = Suc(7)
  have c0: "cap c \<noteq> 0" using v bd by (auto simp: valid_def)
  note N = valid_nat [OF v c0]
  have "iter_eq it2 pos = (Suc q = Suc q + Suc n)"
    using bd N(2) by (intro at_pos_eq [OF N(3) a2 ap]) simp_all
  then have ne: "iter_neq it2 pos" by (simp add: iter_neq_def)
  have q: "q < unat (sz c)" and q1: "Suc q < unat (sz c)" using bd by simp_all
  from swap_values_at [OF v nf a1 a2 q q1] obtain h1 where
    S: "swap_values it1 it2 h = Returns () h1" "valid h1 c" "faults h1 = []"
      "leaked h1 = leaked h"
      "contents h1 c = (contents h c)[q := contents h c ! Suc q, Suc q := contents h c ! q]"
    by blast
  from at_pos_inc [OF c0 a1] obtain it1' where
    I1: "inc it1 = Some it1'" "at_pos c (Suc q) it1'" "it_ind_begin it1' = it_ind_begin it1"
    by blast
  from at_pos_inc [OF c0 a2] obtain it2' where
    I2: "inc it2 = Some it2'" "at_pos c (Suc (Suc q)) it2'" by blast
  have ap': "at_pos c (Suc (Suc q) + n) pos" using ap by simp
  have bd': "Suc (Suc q) + n \<le> unat (sz c)" using bd by simp
  from Suc(1) [OF S(2,3) I1(2) I2(2) ap' bd'] obtain h' it where
    R: "insert_front_loop it1' it2' pos (h1, c) = Some (Returns it (h', c))"
      "at_pos c (Suc q + n) it" "it_ind_begin it = it_ind_begin it1'"
      "valid h' c" "faults h' = []" "leaked h' = leaked h1"
      "contents h' c = take (Suc q) (contents h1 c) @ take n (drop (Suc (Suc q)) (contents h1 c))
            @ contents h1 c ! Suc q # drop (Suc (Suc q) + n) (contents h1 c)"
    by blast
  have "insert_front_loop it1 it2 pos (h, c) = insert_front_loop it1' it2' pos (h1, c)"
    using ne S(1) I1(1) I2(1) by (subst insert_front_loop.simps) simp
  moreover have "Suc q < length (contents h c)" using q1 by simp
  note swap_up_step [OF this, of n]
  ultimately show ?case
    using R S(4,5) I1(3) by (intro exI [of _ h'] exI [of _ it]) simp
qed

lemma erase_back_loop_total:
  fixes h :: "'a heap"
  assumes "valid h c" and "faults h = []"
    and "at_pos c q it1" and "at_pos c (Suc q) it2" and "Suc q + n = unat (sz c)"
  shows "\<exists>h'. erase_back_loop it1 it2 (h, c) = Some (Returns () (h', c))
      \<and> valid h' c \<and> faults h' = [] \<and> leaked h' = leaked h
      \<and> contents h' c = take q (contents h c) @ drop (Suc q) (contents h c)
            @ [contents h c ! q]"
  using assms
proof (induction n arbitrary: q it1 it2 h)
  case 0
  have c0: "cap c \<noteq> 0" using 0(1,5) by (auto simp: valid_def)
  note N = valid_nat [OF 0(1) c0]
  have "iter_eq it2 (end_cb c)"
    using at_pos_eq [OF N(3) 0(4) at_pos_end [OF 0(1) c0]] 0(5) N(2) by simp
  then have r: "erase_back_loop it1 it2 (h, c) = Some (Returns () (h, c))"
    by (subst erase_back_loop.simps) (simp add: iter_neq_def)
  have l: "length (contents h c) = Suc q" using 0(5) by simp
  have t: "take (Suc q) (contents h c) = take q (contents h c) @ [contents h c ! q]"
    by (rule take_Suc_conv_app_nth) (simp only: l lessI)
  have "take (Suc q) (contents h c) = contents h c" using l by simp
  moreover have "drop (Suc q) (contents h c) = []" using l by simp
  ultimately have "take q (contents h c) @ drop (Suc q) (contents h c) @ [contents h c ! q]
      = contents h c"
    using t by (simp only: append_Nil)
  then show ?case using r 0(1,2) by (intro exI [of _ h]) simp
next
  case (Suc n)
  note v = Suc(2) and nf = Suc(3) and a1 = Suc(4) and a2 = Suc(5) and bd = Suc(6)
  have c0: "cap c \<noteq> 0" using v bd by (auto simp: valid_def)
  note N = valid_nat [OF v c0]
  have "iter_eq it2 (end_cb c) = (Suc q = unat (sz c))"
    using bd N(2) by (intro at_pos_eq [OF N(3) a2 at_pos_end [OF v c0]]) simp_all
  then have ne: "iter_neq it2 (end_cb c)" using bd by (simp add: iter_neq_def)
  have q: "q < unat (sz c)" and q1: "Suc q < unat (sz c)" using bd by simp_all
  from swap_values_at [OF v nf a1 a2 q q1] obtain h1 where
    S: "swap_values it1 it2 h = Returns () h1" "valid h1 c" "faults h1 = []"
      "leaked h1 = leaked h"
      "contents h1 c = (contents h c)[q := contents h c ! Suc q, Suc q := contents h c ! q]"
    by blast
  from at_pos_inc [OF c0 a1] obtain it1' where
    I1: "inc it1 = Some it1'" "at_pos c (Suc q) it1'" by blast
  from at_pos_inc [OF c0 a2] obtain it2' where
    I2: "inc it2 = Some it2'" "at_pos c (Suc (Suc q)) it2'" by blast
  have bd': "Suc (Suc q) + n = unat (sz c)" using bd by simp
  from Suc(1) [OF S(2,3) I1(2) I2(2) bd'] obtain h' where
    R: "erase_back_loop it1' it2' (h1, c) = Some (Returns () (h', c))"
      "valid h' c" "faults h' = []" "leaked h' = leaked h1"
      "contents h' c = take (Suc q) (contents h1 c) @ drop (Suc (Suc q)) (contents h1 c)
            @ [contents h1 c ! Suc q]"
    by blast
  have "erase_back_loop it1 it2 (h, c) = erase_back_loop it1' it2' (h1, c)"
    using ne S(1) I1(1) I2(1) by (subst erase_back_loop.simps) simp
  moreover have l: "Suc q < length (contents h c)" using q1 by simp
  have "take (Suc q) (contents h1 c) @ drop (Suc (Suc q)) (contents h1 c)
            @ [contents h1 c ! Suc q]
      = take q (contents h c) @ drop (Suc q) (contents h c) @ [contents h c ! q]"
    using swap_up_step [OF l, of "length (contents h c)"] l unfolding S(5) by simp
  ultimately show ?case using R S(4) by (intro exI [of _ h']) simp
qed

lemma insert_back_loop_total:
  fixes h :: "'a heap"
  assumes "valid h c" and "faults h = []"
    and "at_pos c q it1" and "at_pos c (Suc q) it2" and "at_pos c (Suc q - n) pos"
    and "n \<le> q" and "Suc q < unat (sz c)"
  shows "\<exists>h' it. insert_back_loop it1 it2 pos (h, c) = Some (Returns it (h', c))
      \<and> at_pos c (Suc q - n) it \<and> it_ind_begin it = it_ind_begin it2
      \<and> valid h' c \<and> faults h' = [] \<and> leaked h' = leaked h
      \<and> contents h' c = take (Suc q - n) (contents h c)
            @ contents h c ! Suc q # take n (drop (Suc q - n) (contents h c))
            @ drop (Suc (Suc q)) (contents h c)"
  using assms
proof (induction n arbitrary: q it1 it2 h)
  case 0
  have c0: "cap c \<noteq> 0" using 0(1,7) by (auto simp: valid_def)
  note N = valid_nat [OF 0(1) c0]
  have "iter_eq it2 pos" using at_pos_eq [OF N(3) 0(4) _ _ _, of "Suc q" pos] 0(5,7) N(2) by simp
  then have "insert_back_loop it1 it2 pos (h, c) = Some (Returns it2 (h, c))"
    by (subst insert_back_loop.simps) (simp add: iter_neq_def)
  moreover have "Suc q < length (contents h c)" using 0(7) by simp
  then have "take (Suc q - 0) (contents h c)
            @ contents h c ! Suc q # take 0 (drop (Suc q - 0) (contents h c))
            @ drop (Suc (Suc q)) (contents h c) = contents h c"
    by (simp add: id_take_nth_drop [symmetric])
  ultimately show ?case using 0(1,2,4) by (intro exI [of _ h] exI [of _ it2]) simp
next
  case (Suc n)
  note v = Suc(2) and nf = Suc(3) and a1 = Suc(4) and a2 = Suc(5) and ap = Suc(6)
    and nq = Suc(7) and bd = Suc(8)
  obtain q' where q': "q = Suc q'" using nq by (cases q) simp_all
  have c0: "cap c \<noteq> 0" using v bd by (auto simp: valid_def)
  note D = validD [OF v c0] and N = valid_nat [OF v c0]
  have "iter_eq it2 pos = (Suc q = Suc q - Suc n)"
    using bd N(2) by (intro at_pos_eq [OF N(3) a2 ap]) simp_all
  then have ne: "iter_neq it2 pos" by (simp add: iter_neq_def)
  have q: "q < unat (sz c)" using bd by simp
  from swap_values_at [OF v nf a1 a2 q bd] obtain h1 where
    S: "swap_values it1 it2 h = Returns () h1" "valid h1 c" "faults h1 = []"
      "leaked h1 = leaked h"
      "contents h1 c = (contents h c)[q := contents h c ! Suc q, Suc q := contents h c ! q]"
    by blast
  from at_pos_dec [OF D(1) c0 a1 [unfolded q']] obtain it1' where
    I1: "dec it1 = Some it1'" "at_pos c q' it1'" by blast
  from at_pos_dec [OF D(1) c0 a2] obtain it2' where
    I2: "dec it2 = Some it2'" "at_pos c q it2'" "it_ind_begin it2' = it_ind_begin it2" by blast
  have ap': "at_pos c (Suc q' - n) pos" using ap q' by simp
  have nq': "n \<le> q'" using nq q' by simp
  have bd': "Suc q' < unat (sz c)" using q q' by simp
  from Suc(1) [OF S(2,3) I1(2) I2(2) [unfolded q'] ap' nq' bd'] obtain h' it where
    R: "insert_back_loop it1' it2' pos (h1, c) = Some (Returns it (h', c))"
      "at_pos c (Suc q' - n) it" "it_ind_begin it = it_ind_begin it2'"
      "valid h' c" "faults h' = []" "leaked h' = leaked h1"
      "contents h' c = take (Suc q' - n) (contents h1 c)
            @ contents h1 c ! Suc q' # take n (drop (Suc q' - n) (contents h1 c))
            @ drop (Suc (Suc q')) (contents h1 c)"
    by blast
  have "insert_back_loop it1 it2 pos (h, c) = insert_back_loop it1' it2' pos (h1, c)"
    using ne S(1) I1(1) I2(1) by (subst insert_back_loop.simps) simp
  moreover have l: "Suc q < length (contents h c)" using bd by simp
  have nq2: "n \<le> q" using nq by simp
  note swap_down_step [OF l nq2]
  ultimately show ?case
    using R S(4,5) I2(3) q' by (intro exI [of _ h'] exI [of _ it]) simp
qed

lemma erase_front_loop_total:
  fixes h :: "'a heap"
  assumes "valid h c" and "faults h = []" and "at_pos c P it2" and "P < unat (sz c)"
  shows "\<exists>h'. erase_front_loop it2 (h, c) = Some (Returns () (h', c))
      \<and> valid h' c \<and> faults h' = [] \<and> leaked h' = leaked h
      \<and> contents h' c = contents h c ! P # take P (contents h c) @ drop (Suc P) (contents h c)"
  using assms
proof (induction P arbitrary: it2 h)
  case 0
  have c0: "cap c \<noteq> 0" using 0(1,4) by (auto simp: valid_def)
  note D = validD [OF 0(1) c0] and N = valid_nat [OF 0(1) c0]
  have "iter_eq it2 (begin_cb c)"
    using at_pos_eq [OF N(3) 0(3) at_pos_begin [OF c0 D(3)]] N(1) by simp
  then have "erase_front_loop it2 (h, c) = Some (Returns () (h, c))"
    by (subst erase_front_loop.simps) (simp add: iter_neq_def)
  moreover have "0 < length (contents h c)" using 0(4) by simp
  then have "contents h c ! 0 # take 0 (contents h c) @ drop (Suc 0) (contents h c)
      = contents h c"
    by (cases "contents h c") simp_all
  ultimately show ?case using 0(1,2) by (intro exI [of _ h]) simp
next
  case (Suc q)
  note v = Suc(2) and nf = Suc(3) and a2 = Suc(4) and bd = Suc(5)
  have c0: "cap c \<noteq> 0" using v bd by (auto simp: valid_def)
  note D = validD [OF v c0] and N = valid_nat [OF v c0]
  have "iter_eq it2 (begin_cb c) = (Suc q = 0)"
    using bd N(1,2) by (intro at_pos_eq [OF N(3) a2 at_pos_begin [OF c0 D(3)]]) simp_all
  then have ne: "iter_neq it2 (begin_cb c)" by (simp add: iter_neq_def)
  from at_pos_dec [OF D(1) c0 a2] obtain it1 where
    I: "dec it2 = Some it1" "iter_minus it2 1 = Some it1" "at_pos c q it1" by blast
  have q: "q < unat (sz c)" using bd by simp
  from swap_values_at [OF v nf I(3) a2 q bd] obtain h1 where
    S: "swap_values it1 it2 h = Returns () h1" "valid h1 c" "faults h1 = []"
      "leaked h1 = leaked h"
      "contents h1 c = (contents h c)[q := contents h c ! Suc q, Suc q := contents h c ! q]"
    by blast
  from Suc(1) [OF S(2,3) I(3) q] obtain h' where
    R: "erase_front_loop it1 (h1, c) = Some (Returns () (h', c))"
      "valid h' c" "faults h' = []" "leaked h' = leaked h1"
      "contents h' c = contents h1 c ! q # take q (contents h1 c) @ drop (Suc q) (contents h1 c)"
    by blast
  have "erase_front_loop it2 (h, c) = erase_front_loop it1 (h1, c)"
    using ne S(1) I(1,2) by (subst erase_front_loop.simps) simp
  moreover have l: "Suc q < length (contents h c)" using bd by simp
  have "contents h1 c ! q # take q (contents h1 c) @ drop (Suc q) (contents h1 c)
      = contents h c ! Suc q # take (Suc q) (contents h c) @ drop (Suc (Suc q)) (contents h c)"
    using swap_down_step [OF l order_refl] unfolding S(5) by simp
  ultimately show ?case using R S(4) by (intro exI [of _ h']) simp
qed

subsection \<open>\<open>erase\<close> at a position of the sequence\<close>

lemma get_pos_at:
  assumes v: "valid h c" and c0: "cap c \<noteq> 0" and a: "at_pos c q it"
    and ib: "it_ind_begin it = ind_begin c" and q: "q < unat (cap c)"
  shows "\<exists>p. get_pos it = Some p \<and> unat p = q"
proof -
  note D = validD [OF v c0] and N = valid_nat [OF v c0]
  note b = at_pos_bound [OF c0 a]
  have ca: "it_cap it = cap c" using a by (simp add: at_pos_def)
  from get_pos_position [of it] b D(1,3) ca ib obtain x where
    x: "get_pos it = Some x"
      "unat x = (unat (it_ind it) + unat (it_cap it) - unat (it_ind_begin it)) mod unat (it_cap it)"
    by auto
  have "unat x = ((unat (ind_begin c) + q) mod unat (cap c) + unat (cap c) - unat (ind_begin c))
      mod unat (cap c)"
    using x(2) a ib by (simp add: at_pos_def)
  also have "\<dots> = q" by (rule ring_pos_phys [OF N(3) q])
  finally show ?thesis using x(1) by simp
qed

lemma at_pos_plus_one:
  assumes c0: "cap c \<noteq> 0" and a: "at_pos c q it"
  shows "\<exists>it'. iter_plus it 1 = Some it' \<and> at_pos c (Suc q) it'"
proof -
  note b = at_pos_bound [OF c0 a]
  have "unat ((it_ind it + 1) mod cap c) = (unat (it_ind it) + 1) mod unat (cap c)"
    by (rule unat_ring_inc [OF b(1)])
  also have "\<dots> = (unat (ind_begin c) + Suc q) mod unat (cap c)"
    using a by (simp add: at_pos_def mod_Suc_eq)
  finally show ?thesis using a b(2) by (simp add: iter_plus_def at_pos_def)
qed

lemma half_le:
  fixes p s :: size_t
  shows "(p \<le> s div 2) = (unat p \<le> unat s div 2)"
  by (simp add: word_le_nat_alt unat_div)

lemma erase_returns:
  fixes h :: "'a heap"
  assumes v: "valid h c" and nf: "faults h = []"
    and ap: "at_pos c p pos" and ib: "it_ind_begin pos = ind_begin c"
    and pS: "p < unat (sz c)"
  shows "\<exists>h' c' it. erase pos (h, c) = Some (Returns it (h', c')) \<and> valid h' c'
      \<and> faults h' = [] \<and> leaked h' = leaked h \<and> cap c' = cap c
      \<and> contents h' c' = take p (contents h c) @ drop (Suc p) (contents h c)"
proof -
  define xs where "xs = contents h c"
  have lx: "length xs = unat (sz c)" by (simp add: xs_def)
  have nz: "sz c \<noteq> 0" using pS by auto
  have c0: "cap c \<noteq> 0" using v nz by (auto simp: valid_def)
  note D = validD [OF v c0] and N = valid_nat [OF v c0]
  have pC: "p < unat (cap c)" using pS N(2) by simp
  from get_pos_at [OF v c0 ap ib pC] obtain pw where
    pw: "get_pos pos = Some pw" "unat pw = p" by blast
  have lt: "pw < sz c" using pw(2) pS by (simp add: word_less_nat_alt)
  have eb: "iter_eq pos (begin_cb c) = (p = 0)"
    using N(1) by (intro at_pos_eq [OF N(3) ap at_pos_begin [OF c0 D(3)] pC]) simp
  obtain S' where S': "unat (sz c) = Suc S'" using pS by (cases "unat (sz c)") simp_all
  from at_pos_dec [OF D(1) c0 at_pos_end [OF v c0, unfolded S']] obtain lst where
    lst: "dec (end_cb c) = Some lst" "at_pos c S' lst" by blast
  have el: "iter_eq pos lst = (p = S')"
    using N(2) S' by (intro at_pos_eq [OF N(3) ap lst(2) pC]) simp
  from pop_front_valid [OF v nz] obtain hf cf where
    F: "pop_front (h, c) = Returns () (hf, cf)" "valid hf cf"
      "contents hf cf = tl (contents h c)"
      "cf = c\<lparr>sz := sz c - 1, ind_begin := (ind_begin c + 1) mod cap c\<rparr>"
      "hf = put_block (data c) (Some ((slots h c)[unat (ind_begin c) := None])) h"
    by blast
  from pop_back_valid [OF v nz] obtain hb cb where
    B: "pop_back (h, c) = Returns () (hb, cb)" "valid hb cb"
      "contents hb cb = butlast (contents h c)"
      "cb = c\<lparr>sz := sz c - 1, ind_end := (ind_end c - 1 + cap c) mod cap c\<rparr>"
      "hb = put_block (data c) (Some ((slots h c)[unat (ind_end cb) := None])) h"
    by blast
  show ?thesis
  proof (cases "p = 0")
    case True
    have "erase pos (h, c) = Some (Returns (begin_cb cf) (hf, cf))"
      using pw(1) lt eb True F(1) by (simp add: erase_def)
    moreover have "tl xs = take p xs @ drop (Suc p) xs" using True by (simp add: drop_Suc)
    ultimately show ?thesis using F(2-5) nf by (auto simp: xs_def)
  next
    case p0: False
    show ?thesis
    proof (cases "p = S'")
      case True
      have "dec (end_cb cb) \<noteq> None" using c0 B(4) by (simp add: dec_def end_cb_def)
      then obtain it where "dec (end_cb cb) = Some it" by auto
      then have "erase pos (h, c) = Some (Returns it (hb, cb))"
        using pw(1) lt eb p0 lst(1) el True B(1) by (simp add: erase_def)
      moreover have "butlast xs = take p xs @ drop (Suc p) xs"
        using True S' lx by (simp add: butlast_conv_take)
      ultimately show ?thesis using B(2-5) nf by (auto simp: xs_def)
    next
      case pl: False
      define mem where "mem = (pw + ind_begin c) mod cap c"
      define it where "it = \<lparr>it_ind = mem, it_cap = cap c, it_data = data c,
            it_ind_begin = ind_begin c\<rparr>"
      have "pw < cap c" using lt D(2) by simp
      moreover have "ind_begin c \<le> cap c" using D(3) by simp
      ultimately have "unat mem = (unat pw + unat (ind_begin c)) mod unat (cap c)"
        unfolding mem_def by (rule unat_ring_add [OF D(1)])
      then have ai: "at_pos c p it" using pw(2) by (simp add: at_pos_def it_def add.commute)
      show ?thesis
      proof (cases "pw \<le> sz c div 2")
        case True
        have e: "erase pos (h, c) =
              (case erase_front_loop it (h, c) of
                 None \<Rightarrow> None
               | Some (Returns _ s1) \<Rightarrow>
                   Some (bind (pop_front s1)
                     (\<lambda>_ s2. case iter_plus
                           \<lparr>it_ind = mem, it_cap = cap (snd s2), it_data = data (snd s2),
                            it_ind_begin = ind_begin (snd s2)\<rparr> 1 of
                         None \<Rightarrow> Undefined
                       | Some r \<Rightarrow> Returns r s2))
               | Some (Throws e s1) \<Rightarrow> Some (Throws e s1)
               | Some Assertion_failed \<Rightarrow> Some Assertion_failed
               | Some Undefined \<Rightarrow> Some Undefined)"
          unfolding mem_def it_def
          using pw(1) lt eb p0 lst(1) el pl c0 True by (simp add: erase_def Let_def)
        from erase_front_loop_total [OF v nf ai pS] obtain h1 where
          L: "erase_front_loop it (h, c) = Some (Returns () (h1, c))" "valid h1 c"
            "faults h1 = []" "leaked h1 = leaked h"
            "contents h1 c = xs ! p # take p xs @ drop (Suc p) xs"
          unfolding xs_def by blast
        from pop_front_valid [OF L(2) nz] obtain h2 c2 where
          P: "pop_front (h1, c) = Returns () (h2, c2)" "valid h2 c2"
            "contents h2 c2 = tl (contents h1 c)"
            "c2 = c\<lparr>sz := sz c - 1, ind_begin := (ind_begin c + 1) mod cap c\<rparr>"
            "h2 = put_block (data c) (Some ((slots h1 c)[unat (ind_begin c) := None])) h1"
          by blast
        have "iter_plus \<lparr>it_ind = mem, it_cap = cap c2, it_data = data c2,
                  it_ind_begin = ind_begin c2\<rparr> 1 \<noteq> None"
          using P(4) c0 by (simp add: iter_plus_def)
        then obtain r where "iter_plus \<lparr>it_ind = mem, it_cap = cap c2, it_data = data c2,
                  it_ind_begin = ind_begin c2\<rparr> 1 = Some r" by auto
        then have "erase pos (h, c) = Some (Returns r (h2, c2))"
          using e L(1) P(1) by simp
        then show ?thesis using P(2-5) L(3-5) by (auto simp: xs_def)
      next
        case False
        from at_pos_plus_one [OF c0 ai] obtain it2 where
          ip: "iter_plus it 1 = Some it2" "at_pos c (Suc p) it2" by blast
        have e: "erase pos (h, c) =
              (case erase_back_loop it it2 (h, c) of
                 None \<Rightarrow> None
               | Some (Returns _ s1) \<Rightarrow>
                   Some (bind (pop_back s1)
                     (\<lambda>_ s2. Returns
                        \<lparr>it_ind = mem, it_cap = cap (snd s2), it_data = data (snd s2),
                         it_ind_begin = ind_begin (snd s2)\<rparr> s2))
               | Some (Throws e s1) \<Rightarrow> Some (Throws e s1)
               | Some Assertion_failed \<Rightarrow> Some Assertion_failed
               | Some Undefined \<Rightarrow> Some Undefined)"
          unfolding mem_def it_def
          using pw(1) lt eb p0 lst(1) el pl c0 False ip(1) [unfolded it_def mem_def]
          by (simp add: erase_def Let_def)
        have n: "Suc p + (unat (sz c) - Suc p) = unat (sz c)" using pS by simp
        from erase_back_loop_total [OF v nf ai ip(2) n] obtain h1 where
          L: "erase_back_loop it it2 (h, c) = Some (Returns () (h1, c))" "valid h1 c"
            "faults h1 = []" "leaked h1 = leaked h"
            "contents h1 c = take p xs @ drop (Suc p) xs @ [xs ! p]"
          unfolding xs_def by blast
        from pop_back_valid [OF L(2) nz] obtain h2 c2 where
          P: "pop_back (h1, c) = Returns () (h2, c2)" "valid h2 c2"
            "contents h2 c2 = butlast (contents h1 c)"
            "c2 = c\<lparr>sz := sz c - 1, ind_end := (ind_end c - 1 + cap c) mod cap c\<rparr>"
            "h2 = put_block (data c) (Some ((slots h1 c)[unat (ind_end c2) := None])) h1"
          by blast
        have "erase pos (h, c) = Some (Returns \<lparr>it_ind = mem, it_cap = cap c2,
            it_data = data c2, it_ind_begin = ind_begin c2\<rparr> (h2, c2))"
          using e L(1) P(1) by simp
        moreover have "butlast (take p xs @ drop (Suc p) xs @ [xs ! p])
            = take p xs @ drop (Suc p) xs"
          by (simp add: butlast_append)
        ultimately show ?thesis using P(2-5) L(3-5) by (auto simp: xs_def)
      qed
    qed
  qed
qed

subsection \<open>\<open>insert\<close> at a position of the sequence\<close>

lemma room_if_not_full:
  assumes v: "valid h c" and nz: "sz c \<noteq> 0" and nf: "sz c \<noteq> cap c - 1"
  shows "unat (sz c) + 1 < unat (cap c)"
proof -
  have c0: "cap c \<noteq> 0" using v nz by (auto simp: valid_def)
  have "unat (sz c) < unat (cap c)" by (rule valid_nat(2) [OF v c0])
  moreover have "unat (sz c) \<noteq> unat (cap c) - 1"
  proof
    assume "unat (sz c) = unat (cap c) - 1"
    then have "unat (sz c) = unat (cap c - 1)" using c0 by (simp add: unat_minus_one)
    then have "sz c = cap c - 1" by (simp add: word_unat_eq_iff)
    with nf show False by simp
  qed
  ultimately show ?thesis by linarith
qed

lemma insert_interior:
  fixes h :: "'a heap"
  assumes v: "valid h c" and nf: "faults h = []"
    and ap: "at_pos c p pos" and ib: "it_ind_begin pos = ind_begin c"
    and p0: "0 < p" and pS: "p < unat (sz c)" and nfull: "sz c \<noteq> cap c - 1"
  shows "\<exists>h' c' it. insert_cb pos (Object x) (h, c) = Some (Returns it (h', c')) \<and> valid h' c'
      \<and> cap c' = cap c \<and> faults h' = [] \<and> leaked h' = leaked h
      \<and> contents h' c' = take p (contents h c) @ x # drop p (contents h c)
      \<and> at_pos c' p it \<and> it_ind_begin it = ind_begin c'"
proof -
  define xs where "xs = contents h c"
  define S where "S = unat (sz c)"
  have lx: "length xs = S" by (simp add: xs_def S_def)
  have nz: "sz c \<noteq> 0" using pS by auto
  have c0: "cap c \<noteq> 0" using v nz by (auto simp: valid_def)
  note D = validD [OF v c0] and N = valid_nat [OF v c0]
  note room = room_if_not_full [OF v nz nfull]
  have pC: "p < unat (cap c)" using pS N(2) by simp
  from get_pos_at [OF v c0 ap ib pC] obtain pw where
    pw: "get_pos pos = Some pw" "unat pw = p" by blast
  have eb: "\<not> iter_eq pos (begin_cb c)"
    using at_pos_eq [OF N(3) ap at_pos_begin [OF c0 D(3)] pC] N(1) p0 by simp
  have ee: "\<not> iter_eq pos (end_cb c)"
    using at_pos_eq [OF N(3) ap at_pos_end [OF v c0] pC] N(2) pS by simp
  have hf: "h\<lparr>faults := tl (faults h)\<rparr> = h" using nf by simp
  show ?thesis
  proof (cases "pw \<le> sz c div 2")
    case True
    define h1 where "h1 = put_block (data c)
        (Some ((slots h c)[unat ((ind_begin c - 1 + cap c) mod cap c) := Some x])) h"
    define c1 where "c1 = c\<lparr>ind_begin := (ind_begin c - 1 + cap c) mod cap c, sz := sz c + 1\<rparr>"
    note E = emplace_front_valid(1-3) [OF v room, where x = x, unfolded hf, folded h1_def c1_def]
    have pf: "push_front (Object x) (h, c) = Returns () (h1, c1)"
      using E(1) nf nz nfull by (simp add: push_front_emplace empty_cb_def)
    have v1: "valid h1 c1" by (rule E(2))
    have ct: "contents h1 c1 = x # xs" using E(3) by (simp add: xs_def)
    have S1: "unat (sz c1) = Suc S" using arg_cong [OF ct, of length] lx by simp
    have c10: "cap c1 \<noteq> 0" using c0 by (simp add: c1_def)
    note D1 = validD [OF v1 c10]
    have f1: "faults h1 = []" using nf by (simp add: h1_def)
    have l1: "leaked h1 = leaked h" by (simp add: h1_def)
    have ab: "at_pos c1 0 (begin_cb c1)" by (rule at_pos_begin [OF c10 D1(3)])
    from at_pos_inc [OF c10 ab] obtain it2 where
      i2: "inc (begin_cb c1) = Some it2" "at_pos c1 (Suc 0) it2" by blast
    have B1: "unat (ind_begin c1) = (unat (ind_begin c) + unat (cap c) - 1) mod unat (cap c)"
      unfolding c1_def using unat_ring_dec [OF D(1) D(3)] by simp
    have "(unat (ind_begin c1) + Suc p) mod unat (cap c)
        = (unat (ind_begin c) + unat (cap c) - 1 + Suc p) mod unat (cap c)"
      unfolding B1 by (rule mod_add_left_eq)
    also have "unat (ind_begin c) + unat (cap c) - 1 + Suc p
        = unat (ind_begin c) + p + unat (cap c)" using N(1) by simp
    also have "(unat (ind_begin c) + p + unat (cap c)) mod unat (cap c)
        = (unat (ind_begin c) + p) mod unat (cap c)" by simp
    finally have ap1: "at_pos c1 (Suc 0 + p) pos"
      using ap by (simp add: at_pos_def c1_def)
    have bd: "Suc 0 + p \<le> unat (sz c1)" using pS S1 by (simp add: S_def)
    from insert_front_loop_total [OF v1 f1 ab i2(2) ap1 bd] obtain h' it where
      L: "insert_front_loop (begin_cb c1) it2 pos (h1, c1) = Some (Returns it (h', c1))"
        "at_pos c1 (0 + p) it" "it_ind_begin it = it_ind_begin (begin_cb c1)"
        "valid h' c1" "faults h' = []" "leaked h' = leaked h1"
        "contents h' c1 = take 0 (contents h1 c1) @ take p (drop (Suc 0) (contents h1 c1))
            @ contents h1 c1 ! 0 # drop (Suc 0 + p) (contents h1 c1)"
      by blast
    have "insert_cb pos (Object x) (h, c) = Some (Returns it (h', c1))"
      using eb ee pw(1) True pf i2(1) L(1) by (simp add: insert_cb_def)
    moreover have "contents h' c1 = take p xs @ x # drop p xs" using L(7) ct by simp
    moreover have "it_ind_begin it = ind_begin c1" using L(3) by (simp add: begin_cb_def)
    moreover have "cap c1 = cap c" by (simp add: c1_def)
    ultimately show ?thesis
      using L(2,4,5,6) l1 by (intro exI [of _ h'] exI [of _ c1] exI [of _ it]) (simp add: xs_def)
  next
    case False
    define h1 where "h1 = put_block (data c) (Some ((slots h c)[unat (ind_end c) := Some x])) h"
    define c1 where "c1 = c\<lparr>ind_end := (ind_end c + 1) mod cap c, sz := sz c + 1\<rparr>"
    note E = emplace_back_valid(1-3) [OF v room, where x = x, unfolded hf, folded h1_def c1_def]
    have pb: "push_back (Object x) (h, c) = Returns () (h1, c1)"
      using E(1) nf nz nfull by (simp add: push_back_emplace empty_cb_def)
    have v1: "valid h1 c1" by (rule E(2))
    have ct: "contents h1 c1 = xs @ [x]" using E(3) by (simp add: xs_def)
    have S1: "unat (sz c1) = Suc S" using arg_cong [OF ct, of length] lx by simp
    have c10: "cap c1 \<noteq> 0" using c0 by (simp add: c1_def)
    note D1 = validD [OF v1 c10]
    have f1: "faults h1 = []" using nf by (simp add: h1_def)
    have l1: "leaked h1 = leaked h" by (simp add: h1_def)
    obtain q where q: "S = Suc q" using pS by (cases S) (simp_all add: S_def)
    from at_pos_dec [OF D1(1) c10 at_pos_end [OF v1 c10, unfolded S1]] obtain it2 where
      i2: "dec (end_cb c1) = Some it2" "at_pos c1 S it2"
        "it_ind_begin it2 = it_ind_begin (end_cb c1)" by blast
    from at_pos_dec [OF D1(1) c10 i2(2) [unfolded q]] obtain it1 where
      i1: "dec it2 = Some it1" "at_pos c1 q it1" by blast
    have ap1: "at_pos c1 (Suc q - (S - p)) pos"
      using ap pS q by (simp add: at_pos_def c1_def S_def)
    have nq: "S - p \<le> q" using p0 q by simp
    have bd: "Suc q < unat (sz c1)" using S1 q by simp
    from insert_back_loop_total [OF v1 f1 i1(2) i2(2) [unfolded q] ap1 nq bd] obtain h' it where
      L: "insert_back_loop it1 it2 pos (h1, c1) = Some (Returns it (h', c1))"
        "at_pos c1 (Suc q - (S - p)) it" "it_ind_begin it = it_ind_begin it2"
        "valid h' c1" "faults h' = []" "leaked h' = leaked h1"
        "contents h' c1 = take (Suc q - (S - p)) (contents h1 c1)
            @ contents h1 c1 ! Suc q # take (S - p) (drop (Suc q - (S - p)) (contents h1 c1))
            @ drop (Suc (Suc q)) (contents h1 c1)"
      by blast
    have sp: "Suc q - (S - p) = p" using pS q by (simp add: S_def)
    have "insert_cb pos (Object x) (h, c) = Some (Returns it (h', c1))"
      using eb ee pw(1) False pb i2(1) i1(1) L(1) by (simp add: insert_cb_def)
    moreover have "contents h' c1 = take p xs @ x # drop p xs"
      using L(7) ct lx q pS unfolding sp by (simp add: S_def nth_append)
    moreover have "it_ind_begin it = ind_begin c1" using L(3) i2(3) by (simp add: end_cb_def)
    moreover have "cap c1 = cap c" by (simp add: c1_def)
    moreover have "at_pos c1 p it" using L(2) sp by simp
    ultimately show ?thesis
      using L(4,5,6) l1 by (intro exI [of _ h'] exI [of _ c1] exI [of _ it]) (simp add: xs_def)
  qed
qed

lemma insert_returns:
  fixes h :: "'a heap"
  assumes v: "valid h c" and ok: "cap_ok c" and nf: "faults h = []"
    and ap: "at_pos c p pos" and ib: "it_ind_begin pos = ind_begin c"
    and pS: "p \<le> unat (sz c)"
    and room: "0 < p \<Longrightarrow> p < unat (sz c) \<Longrightarrow> sz c \<noteq> cap c - 1"
  shows "\<exists>h' c' it. insert_cb pos (Object x) (h, c) = Some (Returns it (h', c')) \<and> valid h' c'
      \<and> (cap c' = 0 \<or> 4 \<le> cap c') \<and> faults h' = [] \<and> leaked h' = leaked h
      \<and> contents h' c' = take p (contents h c) @ x # drop p (contents h c)
      \<and> at_pos c' p it \<and> it_ind_begin it = ind_begin c'"
proof -
  note m = cap_ok_min [OF ok] and c62 = cap_ok_max [OF ok]
  define xs where "xs = contents h c"
  have lx: "length xs = unat (sz c)" by (simp add: xs_def)
  show ?thesis
  proof (cases "p = 0")
    case True
    have eb: "iter_eq pos (begin_cb c)"
    proof (cases "cap c = 0")
      case c0: True
      then have "ind_begin c = 0" using v by (simp add: valid_def)
      then have "unat (it_ind pos) = unat (ind_begin c)" using ap True c0 by (simp add: at_pos_def)
      then have "it_ind pos = ind_begin c" by (simp add: word_unat_eq_iff)
      then show ?thesis using ap by (simp add: iter_eq_def begin_cb_def at_pos_def)
    next
      case c0: False
      note D = validD [OF v c0] and N = valid_nat [OF v c0]
      show ?thesis
        using at_pos_eq [OF N(3) ap at_pos_begin [OF c0 D(3)]] True N(1) by simp
    qed
    from push_front_spec [OF v m c62, of x] nf obtain h' c' where
      P: "valid h' c'" "cap c' = 0 \<or> 4 \<le> cap c'" "leaked h' = leaked h"
        "push_front (Object x) (h, c) = Returns () (h', c')" "contents h' c' = x # xs"
        "faults h' = []"
      unfolding xs_def by blast
    have "unat (sz c') = Suc (length xs)" using arg_cong [OF P(5), of length] by simp
    then have nz: "sz c' \<noteq> 0" by auto
    then have c0: "cap c' \<noteq> 0" using P(1) by (auto simp: valid_def)
    note D = validD [OF P(1) c0]
    have "insert_cb pos (Object x) (h, c) = Some (Returns (begin_cb c') (h', c'))"
      using eb P(4) by (simp add: insert_cb_def)
    moreover have "at_pos c' p (begin_cb c')" unfolding True by (rule at_pos_begin [OF c0 D(3)])
    moreover have "it_ind_begin (begin_cb c') = ind_begin c'" by (simp add: begin_cb_def)
    ultimately show ?thesis
      using P True
      by (intro exI [of _ h'] exI [of _ c'] exI [of _ "begin_cb c'"]) (simp add: xs_def)
  next
    case p0: False
    then have nz: "sz c \<noteq> 0" using pS by auto
    then have c0: "cap c \<noteq> 0" using v by (auto simp: valid_def)
    note D = validD [OF v c0] and N = valid_nat [OF v c0]
    have pC: "p < unat (cap c)" using pS N(2) by simp
    show ?thesis
    proof (cases "p = unat (sz c)")
      case True
      have eb: "\<not> iter_eq pos (begin_cb c)"
        using at_pos_eq [OF N(3) ap at_pos_begin [OF c0 D(3)] pC] N(1) p0 by simp
      have ee: "iter_eq pos (end_cb c)"
        using at_pos_eq [OF N(3) ap at_pos_end [OF v c0] pC] N(2) True by simp
      from push_back_spec [OF v m c62, of x] nf obtain h' c' where
        P: "valid h' c'" "cap c' = 0 \<or> 4 \<le> cap c'" "leaked h' = leaked h"
          "push_back (Object x) (h, c) = Returns () (h', c')" "contents h' c' = xs @ [x]"
          "faults h' = []"
        unfolding xs_def by blast
      have S1: "unat (sz c') = Suc p" using arg_cong [OF P(5), of length] lx True by simp
      then have "sz c' \<noteq> 0" by auto
      then have c0': "cap c' \<noteq> 0" using P(1) by (auto simp: valid_def)
      note D' = validD [OF P(1) c0']
      from at_pos_dec [OF D'(1) c0' at_pos_end [OF P(1) c0', unfolded S1]] obtain it where
        it: "dec (end_cb c') = Some it" "at_pos c' p it"
          "it_ind_begin it = it_ind_begin (end_cb c')" by blast
      have "insert_cb pos (Object x) (h, c) = Some (Returns it (h', c'))"
        using eb ee P(4) it(1) by (simp add: insert_cb_def)
      moreover have "it_ind_begin it = ind_begin c'" using it(3) by (simp add: end_cb_def)
      ultimately show ?thesis
        using P it(2) True lx
        by (intro exI [of _ h'] exI [of _ c'] exI [of _ it]) (simp add: xs_def)
    next
      case False
      then have lt: "p < unat (sz c)" using pS by simp
      have p0': "0 < p" using p0 by simp
      from insert_interior [OF v nf ap ib p0' lt room [OF p0' lt], of x] m
      show ?thesis by auto
    qed
  qed
qed

lemma insert_erase_round_trip:
  fixes h :: "'a heap"
  assumes v: "valid h c" and ok: "cap_ok c" and nf: "faults h = []"
    and ap: "at_pos c p pos" and ib: "it_ind_begin pos = ind_begin c"
    and pS: "p \<le> unat (sz c)"
    and room: "0 < p \<Longrightarrow> p < unat (sz c) \<Longrightarrow> sz c \<noteq> cap c - 1"
  shows "\<exists>h1 c1 it h2 c2 it2. insert_cb pos (Object x) (h, c) = Some (Returns it (h1, c1))
      \<and> contents h1 c1 = take p (contents h c) @ x # drop p (contents h c)
      \<and> erase it (h1, c1) = Some (Returns it2 (h2, c2))
      \<and> valid h2 c2 \<and> contents h2 c2 = contents h c \<and> leaked h2 = leaked h"
proof -
  from insert_returns [OF assms, of x] obtain h1 c1 it where
    I: "insert_cb pos (Object x) (h, c) = Some (Returns it (h1, c1))" "valid h1 c1"
      "faults h1 = []" "leaked h1 = leaked h"
      "contents h1 c1 = take p (contents h c) @ x # drop p (contents h c)"
      "at_pos c1 p it" "it_ind_begin it = ind_begin c1"
    by blast
  have "unat (sz c1) = Suc (unat (sz c))"
    using arg_cong [OF I(5), of length] pS by simp
  then have lt: "p < unat (sz c1)" using pS by simp
  from erase_returns [OF I(2,3,6,7) lt] obtain h2 c2 it2 where
    E: "erase it (h1, c1) = Some (Returns it2 (h2, c2))" "valid h2 c2"
      "leaked h2 = leaked h1"
      "contents h2 c2 = take p (contents h1 c1) @ drop (Suc p) (contents h1 c1)"
    by blast
  have "contents h2 c2 = contents h c" using E(4) I(5) pS by simp
  then show ?thesis using I(1,4,5) E(1,2,3) by auto
qed

lemma perform_returns:
  fixes h :: "'a heap"
  assumes v: "valid h c" and ok: "cap_ok c" and ad: "admissible h call"
    and ir: "in_range h c call"
  shows "\<exists>s'. state_after (perform call (h, c)) = Some s'"
proof -
  note m = cap_ok_min [OF ok] and c62 = cap_ok_max [OF ok]
  show ?thesis
  proof (cases call)
    case (Call_insert pos r)
    then have nf: "faults h = []" and ib: "it_ind_begin pos = ind_begin c"
      and sv: "survives_growth h c r"
      and ex: "\<exists>p\<in>set [0..<Suc (unat (sz c))].
            at_pos c p pos \<and> (p = 0 \<or> p = unat (sz c) \<or> sz c \<noteq> cap c - 1)"
      using ir by (simp_all add: in_range_def list_ex_iff)
    from ex obtain p where p0: "p \<in> set [0..<Suc (unat (sz c))]" and p: "at_pos c p pos"
        "p = 0 \<or> p = unat (sz c) \<or> sz c \<noteq> cap c - 1"
      by blast
    have ple: "p \<le> unat (sz c)" using p0 by auto
    have room: "sz c \<noteq> cap c - 1" if "0 < p" "p < unat (sz c)" using p(2) that by auto
    from insert_cb_survives [OF v m c62 sv] obtain x where
      e: "insert_cb pos r (h, c) = insert_cb pos (Object x) (h, c)" by blast
    from insert_returns [OF v ok nf p(1) ib ple room, of x] show ?thesis
      using Call_insert e by auto
  next
    case (Call_erase pos)
    then have nf: "faults h = []" and ib: "it_ind_begin pos = ind_begin c"
      and ex: "\<exists>p\<in>set [0..<unat (sz c)]. at_pos c p pos"
      using ir by (simp_all add: in_range_def list_ex_iff)
    from ex obtain p where p0: "p \<in> set [0..<unat (sz c)]" and pa: "at_pos c p pos" by blast
    have p: "p < unat (sz c)" "at_pos c p pos" using p0 pa by simp_all
    from erase_returns [OF v nf p(2) ib p(1)] show ?thesis
      using Call_erase by auto
  next
    case Call_pop_back
    then have "sz c \<noteq> 0" using ir by (simp add: in_range_def)
    from pop_back_after [OF v this] Call_pop_back show ?thesis by auto
  next
    case Call_pop_front
    then have "sz c \<noteq> 0" using ir by (simp add: in_range_def)
    from pop_front_after [OF v this] Call_pop_front show ?thesis by auto
  next
    case (Call_push_back r)
    then have sv: "survives_growth h c r" using ir by (simp add: in_range_def)
    from push_survives [OF v m c62 sv] obtain x where
      e: "push_back r (h, c) = push_back (Object x) (h, c)" by blast
    from push_back_after [OF v m c62, of x] Call_push_back e show ?thesis by auto
  next
    case (Call_push_front r)
    then have sv: "survives_growth h c r" using ir by (simp add: in_range_def)
    from push_survives [OF v m c62 sv] obtain x where
      e: "push_front r (h, c) = push_front (Object x) (h, c)" by blast
    from push_front_after [OF v m c62, of x] Call_push_front e show ?thesis by auto
  next
    case Call_clear
    then show ?thesis using clear_valid [OF v] by simp
  next
    case (Call_copy_assignment oth)
    then have vo: "valid h oth" and o62: "cap oth \<le> 2 ^ 62"
      using ad cap_ok_max [of oth] by (simp_all add: admissible_def)
    from copy_assignment_valid [OF v m vo o62] Call_copy_assignment show ?thesis by auto
  qed
qed

lemma pop_empty_asserts:
  "sz c = 0 \<Longrightarrow> pop_back (h, c) = Assertion_failed \<and> pop_front (h, c) = Assertion_failed"
  by (simp add: pop_back_def pop_front_def)

subsection \<open>Where the assertions fail\<close>

lemma destroy_no_assert: "destroy p i h \<noteq> Assertion_failed"
  by (simp add: destroy_def split: option.splits)

lemma with_state_assert: "(with_state P g = Assertion_failed) = (P = Assertion_failed)"
  by (cases P) simp_all

lemma assertion_iff_precondition:
  "(front (h, c) = Assertion_failed) = (sz c = 0)"
  "(back_cb (h, c) = Assertion_failed) = (sz c = 0)"
  "(pop_back (h, c) = Assertion_failed) = (sz c = 0)"
  "(pop_front (h, c) = Assertion_failed) = (sz c = 0)"
  "(index i (h, c) = Assertion_failed) = (\<not> i < sz c)"
proof -
  show "(front (h, c) = Assertion_failed) = (sz c = 0)"
    by (auto simp: front_def word_greater_zero_iff split: option.splits)
  show "(back_cb (h, c) = Assertion_failed) = (sz c = 0)"
    by (auto simp: back_cb_def word_greater_zero_iff split: option.splits)
  show "(pop_back (h, c) = Assertion_failed) = (sz c = 0)"
    by (auto simp: pop_back_def Let_def word_greater_zero_iff with_state_assert destroy_no_assert)
  show "(pop_front (h, c) = Assertion_failed) = (sz c = 0)"
  proof (cases "sz c = 0")
    case True
    then show ?thesis by (simp add: pop_front_def)
  next
    case False
    have "pop_front (h, c) \<noteq> Assertion_failed"
    proof (cases "destroy (data c) (ind_begin c) h")
      case (Returns u h')
      then show ?thesis using False by (simp add: pop_front_def word_greater_zero_iff Let_def)
    next
      case (Throws e h')
      then show ?thesis using False by (simp add: pop_front_def word_greater_zero_iff)
    next
      case Assertion_failed
      then show ?thesis by (simp add: destroy_no_assert)
    next
      case Undefined
      then show ?thesis using False by (simp add: pop_front_def word_greater_zero_iff)
    qed
    then show ?thesis using False by simp
  qed
  show "(index i (h, c) = Assertion_failed) = (\<not> i < sz c)"
    by (auto simp: index_def split: option.splits)
qed

lemma erase_asserts:
  assumes "it_cap pos \<noteq> 0"
  shows "\<exists>p. get_pos pos = Some p
      \<and> (\<not> p < sz c \<longrightarrow> erase pos (h, c) = Some Assertion_failed)"
  using assms by (simp add: erase_def get_pos_def)

subsection \<open>The argument of a push after the growth\<close>




lemma push_new_ref:
  fixes h :: "'a heap"
  assumes rd: "read r h = Some x"
  shows "push_back r (h, circular_buffer_new) = push_back (Object x) (h, circular_buffer_new)"
    and "push_front r (h, circular_buffer_new) = push_front (Object x) (h, circular_buffer_new)"
proof -
  have v: "valid h circular_buffer_new" by simp
  have m: "cap circular_buffer_new = 0 \<or> 4 \<le> cap circular_buffer_new"
    by (simp add: circular_buffer_new_def)
  have g: "cap circular_buffer_new \<le> 2 ^ 62" by (simp add: circular_buffer_new_def)
  have sv: "survives_growth h circular_buffer_new r"
  proof (cases r)
    case (Object y)
    then show ?thesis by (simp add: survives_growth_def)
  next
    case (Element p i)
    then have l: "load p i h \<noteq> None" using rd by (simp add: read_def)
    then have "p \<noteq> None" by (cases p) (simp_all add: load_def block_at_def)
    then show ?thesis using l Element
      by (simp add: survives_growth_def circular_buffer_new_def)
  qed
  from push_survives [OF v m g sv] rd
  show "push_back r (h, circular_buffer_new) = push_back (Object x) (h, circular_buffer_new)"
    and "push_front r (h, circular_buffer_new) = push_front (Object x) (h, circular_buffer_new)"
    by auto
qed

subsection \<open>Sequences of pushes and pops, and the calls that end\<close>

text \<open>
  A sequence of pushes and pops in which every pushed value is an object outside the
  container, run on a new container with no failure injected, follows the list model:
  every call returns, \<^verbatim>\<open>size()\<close> is the length of the model's list and \<^verbatim>\<open>operator[](i)\<close>
  returns its \<open>i\<close>-th element.
\<close>

lemma run_follows_model:
  fixes h :: "'a heap"
  assumes "faults h = []" and "model_run ops [] = Some xs" and "length ops \<le> 2 ^ 60"
  shows "\<exists>h' c'. run ops (h, circular_buffer_new) = Returns () (h', c')
      \<and> unat (size_cb c') = length xs
      \<and> (\<forall>i<length xs. index (of_nat i) (h', c') = Returns (xs ! i) (h', c'))"
proof -
  have c: "contents h circular_buffer_new = []"
    by (simp add: contents_def circular_buffer_new_def)
  have "\<exists>h' c'. run ops (h, circular_buffer_new) = Returns () (h', c') \<and> valid h' c'
      \<and> faults h' = [] \<and> contents h' c' = xs"
  proof (rule run_refines [where M = 0])
    show "valid h circular_buffer_new" by simp
    show "cap circular_buffer_new = 0 \<or> 4 \<le> cap circular_buffer_new"
      by (simp add: circular_buffer_new_def)
    show "faults h = []" by (rule assms(1))
    show "model_run ops (contents h circular_buffer_new) = Some xs" using assms(2) c by simp
    show "unat (sz circular_buffer_new) \<le> 0" by (simp add: circular_buffer_new_def)
    show "unat (cap circular_buffer_new) \<le> 2 * 0 + 4" by (simp add: circular_buffer_new_def)
    show "0 + length ops \<le> 1152921504606846976" using assms(3) by simp
  qed
  then obtain h' c' where r: "run ops (h, circular_buffer_new) = Returns () (h', c')"
    and v: "valid h' c'" and xs: "contents h' c' = xs" by blast
  have len: "unat (sz c') = length xs" using xs length_contents [of h' c'] by simp
  have "index (of_nat i) (h', c') = Returns (xs ! i) (h', c')" if i: "i < length xs" for i
  proof -
    have "unat (sz c') < 2 ^ 64" using unsigned_less [of "sz c'", where 'a = nat] by simp
    then have "i < 2 ^ 64" using i len by simp
    then have u: "unat (of_nat i :: size_t) = i" by (simp add: unat_of_nat)
    then have "(of_nat i :: size_t) < sz c'" using i len by (simp add: word_less_nat_alt)
    from index_valid [OF v this] show ?thesis using u xs by simp
  qed
  then show ?thesis using r len by (auto simp: size_cb_def)
qed

text \<open>
  Whenever a public call ends, by returning or by throwing, the container satisfies
  invariant 1 and is in a consistent state; a call within \<open>in_range\<close> does end; a copy
  construction returns such a container or throws.
\<close>

lemma ended_calls_keep_invariant1:
  fixes h :: "'a heap"
  assumes "valid h c" and "cap_ok c" and "admissible h call"
  shows "(\<forall>h' c'. state_after (perform call (h, c)) = Some (h', c') \<longrightarrow>
        invariant1 c' \<and> valid h' c')
    \<and> (in_range h c call \<longrightarrow> (\<exists>s'. state_after (perform call (h, c)) = Some s'))
    \<and> (\<forall>oth. valid h oth \<and> cap_ok oth \<longrightarrow>
          (\<exists>this h'. copy_constructor oth h = Returns this h' \<and> invariant1 this
              \<and> valid h' this)
          \<or> (\<exists>e h'. copy_constructor oth h = Throws e h'))"
proof (intro conjI allI impI)
  fix h' c' assume "state_after (perform call (h, c)) = Some (h', c')"
  from perform_after [OF assms this] have "valid h' c'" by simp
  then show "invariant1 c'" and "valid h' c'" by (simp_all add: valid_invariant1)
next
  assume "in_range h c call"
  with assms show "\<exists>s'. state_after (perform call (h, c)) = Some s'"
    by (rule perform_returns)
next
  fix oth assume "valid h oth \<and> cap_ok oth"
  then have "valid h oth" "cap oth \<le> 2 ^ 62" using cap_ok_max [of oth] by simp_all
  from copy_constructor_valid [OF this]
  show "(\<exists>this h'. copy_constructor oth h = Returns this h' \<and> invariant1 this
              \<and> valid h' this)
          \<or> (\<exists>e h'. copy_constructor oth h = Throws e h')"
    using valid_invariant1 by blast
qed

section \<open>The claims\<close>

text \<open>
  C9. \<^verbatim>\<open>swap\<close>, as a member and as the free function that calls it, exchanges the
  complete states of the two containers: each ends with the size, capacity, storage
  pointer and cursors of the other, hence with its element sequence. The heap is the
  one it was: no element is copied, constructed or destroyed.
\<close>

theorem swap_exchanges_states:
  "swap_cb (h, a, b) = Returns () (h, b, a) \<and> swap_free (h, a, b) = Returns () (h, b, a)"
  by (simp add: swap_free_def swap_cb_def)

text \<open>
  C8. For two iterators over the same storage that carry the same \<^verbatim>\<open>ind_begin\<close>
  snapshot (physical indices below a capacity of at most \<open>2\<^sup>6\<^sup>3\<close> slots), \<^verbatim>\<open>a < b\<close> holds
  exactly when the logical position of \<open>a\<close> is less than that of \<open>b\<close>, the other three
  comparisons follow the logical positions as well, and \<^verbatim>\<open>a - b\<close> is the difference of
  the two logical positions, where the logical position is the specification's
  \<open>(physical_index - begin_index + capacity) mod capacity\<close>.
\<close>

theorem iterator_order_by_logical_position:
  assumes "it_cap b = it_cap a" and "it_data b = it_data a"
    and "it_ind_begin b = it_ind_begin a"
    and "it_cap a \<noteq> 0" and "it_cap a \<le> 2 ^ 63"
    and "it_ind a < it_cap a" and "it_ind b < it_cap a" and "it_ind_begin a < it_cap a"
  shows "iter_less a b = Some (position_of a < position_of b)
    \<and> iter_less_eq a b = Some (position_of a \<le> position_of b)
    \<and> iter_greater a b = Some (position_of a > position_of b)
    \<and> iter_greater_eq a b = Some (position_of a \<ge> position_of b)
    \<and> iter_diff a b = Some (position_of a - position_of b)"
proof -
  from iterator_positions [OF assms(1,3,4,5,6,7,8)] obtain x y where
    p: "get_pos a = Some x" "get_pos b = Some y"
      "uint x = position_of a" "uint y = position_of b"
      "uint x < 9223372036854775808" "uint y < 9223372036854775808"
      "(x = y) = (it_ind a = it_ind b)"
    by blast
  have lt: "(x < y) = (position_of a < position_of b)"
    using p(3,4) by (simp add: word_less_def)
  have eq: "iter_eq a b = (position_of a = position_of b)"
  proof -
    have "iter_eq a b = (x = y)" using p(7) assms(2) by (simp add: iter_eq_def)
    also have "\<dots> = (uint x = uint y)" by (simp add: word_uint_eq_iff)
    finally show ?thesis using p(3,4) by simp
  qed
  have less: "iter_less a b = Some (position_of a < position_of b)"
    using p(1,2) lt by (simp add: iter_less_def)
  have le: "iter_less_eq a b = Some (position_of a \<le> position_of b)"
    using less eq by (auto simp: iter_less_eq_def)
  have diff: "iter_diff a b = Some (position_of a - position_of b)"
    using p(1,2) sint_diff_small [OF p(5,6)] p(3,4) by (simp add: iter_diff_def)
  show ?thesis
    using less le diff by (auto simp: iter_greater_def iter_greater_eq_def)
qed

theorem iterator_order_by_logical_position_witness:
  "iter_less \<lparr>it_ind = 1, it_cap = 8, it_data = Some 1, it_ind_begin = 6\<rparr>
       \<lparr>it_ind = 7, it_cap = 8, it_data = Some 1, it_ind_begin = 6\<rparr> = Some False
   \<and> iter_diff \<lparr>it_ind = 1, it_cap = 8, it_data = Some 1, it_ind_begin = 6\<rparr>
       \<lparr>it_ind = 7, it_cap = 8, it_data = Some 1, it_ind_begin = 6\<rparr> = Some 2
   \<and> position_of \<lparr>it_ind = 1, it_cap = 8, it_data = Some 1, it_ind_begin = 6\<rparr> = 3
   \<and> position_of \<lparr>it_ind = 7, it_cap = 8, it_data = Some 1, it_ind_begin = 6\<rparr> = 1"
  using iterator_order_by_logical_position
    [of "\<lparr>it_ind = 7, it_cap = 8, it_data = Some 1, it_ind_begin = 6\<rparr>"
        "\<lparr>it_ind = 1, it_cap = 8, it_data = Some 1, it_ind_begin = 6\<rparr>"]
  by (simp add: position_of_def logical_position_def)

text \<open>
  C1, where the code does not follow it. \<^verbatim>\<open>push_back\<close> and \<^verbatim>\<open>push_front\<close> take their
  argument by reference and copy from it after the growth. Three \<^verbatim>\<open>push_back\<close>s on a new
  container fill three of its four slots, and \<^verbatim>\<open>c[0]\<close> is a reference to slot 0 of its
  block, which holds 1. The list model of \<^verbatim>\<open>push_back(c[0])\<close> appends that value and gives
  \<open>[1, 2, 3, 1]\<close>. The code finds \<^verbatim>\<open>size == capacity - 1\<close> and reserves 8 slots, which
  destroys the old elements and releases their block; the reference now points into
  released storage, and the copy construction of the new element reads it.
\<close>

theorem push_back_own_element_undefined:
  "run [Push_back 1, Push_back 2, Push_back 3]
       (\<lparr>blocks = [], faults = [], leaked = 0\<rparr>, circular_buffer_new)
     = Returns () (\<lparr>blocks = [Some [Some 1, Some 2, Some (3 :: nat), None]], faults = [],
                     leaked = 0\<rparr>,
                   \<lparr>sz = 3, cap = 4, data = Some 0, ind_begin = 0, ind_end = 3\<rparr>)
   \<and> index_ref 0
       (\<lparr>blocks = [Some [Some 1, Some 2, Some (3 :: nat), None]], faults = [], leaked = 0\<rparr>,
        \<lparr>sz = 3, cap = 4, data = Some 0, ind_begin = 0, ind_end = 3\<rparr>)
     = Returns (Element (Some 0) 0)
       (\<lparr>blocks = [Some [Some 1, Some 2, Some (3 :: nat), None]], faults = [], leaked = 0\<rparr>,
        \<lparr>sz = 3, cap = 4, data = Some 0, ind_begin = 0, ind_end = 3\<rparr>)
   \<and> read (Element (Some 0) 0)
       \<lparr>blocks = [Some [Some 1, Some 2, Some (3 :: nat), None]], faults = [], leaked = 0\<rparr>
     = Some 1
   \<and> model_run [Push_back 1, Push_back 2, Push_back 3, Push_back 1] []
     = Some [1, 2, 3, 1 :: nat]
   \<and> reserve 8
       (\<lparr>blocks = [Some [Some 1, Some 2, Some (3 :: nat), None]], faults = [], leaked = 0\<rparr>,
        \<lparr>sz = 3, cap = 4, data = Some 0, ind_begin = 0, ind_end = 3\<rparr>)
     = Returns () (\<lparr>blocks = [None, Some [Some 1, Some 2, Some 3, None, None, None, None,
                      None]], faults = [], leaked = 0\<rparr>,
                   \<lparr>sz = 3, cap = 8, data = Some 1, ind_begin = 0, ind_end = 3\<rparr>)
   \<and> read (Element (Some 0) 0)
       \<lparr>blocks = [None, Some [Some 1, Some 2, Some (3 :: nat), None, None, None, None, None]],
         faults = [], leaked = 0\<rparr>
     = None
   \<and> bind (index_ref 0
         (\<lparr>blocks = [Some [Some 1, Some 2, Some (3 :: nat), None]], faults = [], leaked = 0\<rparr>,
          \<lparr>sz = 3, cap = 4, data = Some 0, ind_begin = 0, ind_end = 3\<rparr>))
       (\<lambda>r s. push_back r s)
     = Undefined
   \<and> bind (index_ref 0
         (\<lparr>blocks = [Some [Some 1, Some 2, Some (3 :: nat), None]], faults = [], leaked = 0\<rparr>,
          \<lparr>sz = 3, cap = 4, data = Some 0, ind_begin = 0, ind_end = 3\<rparr>))
       (\<lambda>r s. push_front r s)
     = Undefined"
  by code_simp

text \<open>
  C10. \<^verbatim>\<open>clear()\<close> on a container in a consistent state returns with the container in
  the default-constructed state (size 0, capacity 0, null storage, both cursors 0). Its
  block has been released; no element has leaked, so every live element was destroyed
  before the release; nothing else in the heap has changed. The old capacity is gone:
  when no failure is injected, the next \<^verbatim>\<open>push_back\<close> or \<^verbatim>\<open>push_front\<close>, of any argument
  that can be read, obtains a new block of capacity 4 that holds the one element.
\<close>

theorem clear_resets_to_default:
  fixes h :: "'a heap"
  assumes "valid h c"
  shows "\<exists>h'. clear (h, c) = Returns () (h', circular_buffer_new)
      \<and> circular_buffer_new = \<lparr>sz = 0, cap = 0, data = None, ind_begin = 0, ind_end = 0\<rparr>
      \<and> h' = put_block (data c) None h
      \<and> (data c \<noteq> None \<longrightarrow> block_at h' (data c) = None)
      \<and> leaked h' = leaked h \<and> faults h' = faults h
      \<and> (faults h = [] \<longrightarrow>
            push_back (Object x) (h', circular_buffer_new) =
              Returns () (h'\<lparr>blocks := blocks h' @ [Some [Some x, None, None, None]]\<rparr>,
                \<lparr>sz = 1, cap = 4, data = Some (length (blocks h')), ind_begin = 0, ind_end = 1\<rparr>)
          \<and> push_front (Object x) (h', circular_buffer_new) =
              Returns () (h'\<lparr>blocks := blocks h' @ [Some [None, None, None, Some x]]\<rparr>,
                \<lparr>sz = 1, cap = 4, data = Some (length (blocks h')), ind_begin = 3, ind_end = 0\<rparr>))
      \<and> (faults h = [] \<and> read r h' = Some x \<longrightarrow>
            push_back r (h', circular_buffer_new) =
              Returns () (h'\<lparr>blocks := blocks h' @ [Some [Some x, None, None, None]]\<rparr>,
                \<lparr>sz = 1, cap = 4, data = Some (length (blocks h')), ind_begin = 0, ind_end = 1\<rparr>)
          \<and> push_front r (h', circular_buffer_new) =
              Returns () (h'\<lparr>blocks := blocks h' @ [Some [None, None, None, Some x]]\<rparr>,
                \<lparr>sz = 1, cap = 4, data = Some (length (blocks h')), ind_begin = 3, ind_end = 0\<rparr>))"
proof -
  define h' where "h' = put_block (data c) None h"
  have r: "clear (h, c) = Returns () (h', circular_buffer_new)"
    using clear_valid [OF assms] by (simp add: h'_def)
  have gone: "block_at h' (data c) = None" if "data c \<noteq> None"
  proof -
    from valid_owned [OF assms] that obtain a where "data c = Some a" "a < length (blocks h)"
      by auto
    then show ?thesis by (simp add: h'_def put_block_def block_at_def)
  qed
  have f: "faults h' = faults h" and l: "leaked h' = leaked h" by (simp_all add: h'_def)
  have o: "push_back (Object x) (h', circular_buffer_new) =
          Returns () (h'\<lparr>blocks := blocks h' @ [Some [Some x, None, None, None]]\<rparr>,
            \<lparr>sz = 1, cap = 4, data = Some (length (blocks h')), ind_begin = 0, ind_end = 1\<rparr>)
      \<and> push_front (Object x) (h', circular_buffer_new) =
          Returns () (h'\<lparr>blocks := blocks h' @ [Some [None, None, None, Some x]]\<rparr>,
            \<lparr>sz = 1, cap = 4, data = Some (length (blocks h')), ind_begin = 3, ind_end = 0\<rparr>)"
    if "faults h = []"
  proof -
    have "faults h' = []" using that f by simp
    then show ?thesis by (simp add: push_back_new push_front_new)
  qed
  have p: "push_back r (h', circular_buffer_new) =
          Returns () (h'\<lparr>blocks := blocks h' @ [Some [Some x, None, None, None]]\<rparr>,
            \<lparr>sz = 1, cap = 4, data = Some (length (blocks h')), ind_begin = 0, ind_end = 1\<rparr>)
      \<and> push_front r (h', circular_buffer_new) =
          Returns () (h'\<lparr>blocks := blocks h' @ [Some [None, None, None, Some x]]\<rparr>,
            \<lparr>sz = 1, cap = 4, data = Some (length (blocks h')), ind_begin = 3, ind_end = 0\<rparr>)"
    if "faults h = []" "read r h' = Some x"
    unfolding push_new_ref [OF that(2)] using o [OF that(1)] .
  show ?thesis
    using r gone f l o p by (intro exI [of _ h']) (simp add: h'_def circular_buffer_new_def)
qed

theorem clear_resets_to_default_witness:
  "valid \<lparr>blocks = [None, Some [Some 1, Some 2, None, None, None, Some (0 :: nat)]],
          faults = [], leaked = 0\<rparr>
     \<lparr>sz = 3, cap = 6, data = Some 1, ind_begin = 5, ind_end = 2\<rparr>
   \<and> clear (\<lparr>blocks = [None, Some [Some 1, Some 2, None, None, None, Some (0 :: nat)]],
          faults = [], leaked = 0\<rparr>,
        \<lparr>sz = 3, cap = 6, data = Some 1, ind_begin = 5, ind_end = 2\<rparr>)
     = Returns () (\<lparr>blocks = [None, None], faults = [], leaked = 0\<rparr>, circular_buffer_new)
   \<and> block_at \<lparr>blocks = [None, None :: nat block option], faults = [], leaked = 0\<rparr> (Some 1)
     = None
   \<and> push_back (Object (7 :: nat)) (\<lparr>blocks = [None, None], faults = [], leaked = 0\<rparr>,
        circular_buffer_new)
     = Returns () (\<lparr>blocks = [None, None, Some [Some 7, None, None, None]], faults = [],
                     leaked = 0\<rparr>,
                   \<lparr>sz = 1, cap = 4, data = Some 2, ind_begin = 0, ind_end = 1\<rparr>)"
proof -
  have v: "valid \<lparr>blocks = [None, Some [Some 1, Some 2, None, None, None, Some (0 :: nat)]],
          faults = [], leaked = 0\<rparr>
     \<lparr>sz = 3, cap = 6, data = Some 1, ind_begin = 5, ind_end = 2\<rparr>"
    by (simp add: valid_def block_at_def live_at_def upt_rec)
  from clear_resets_to_default [OF v, of 7 "Object 7"] show ?thesis
    using v by (simp add: put_block_def)
qed




text \<open>
  C6. Take a container in a consistent state and an environment in which the allocation
  or one of the element copies of a growth reallocation fails (a failure among the first
  \<^verbatim>\<open>size + 1\<close> fallible steps). Then \<^verbatim>\<open>reserve(n)\<close> for a larger \<open>n\<close>, and each of
  \<^verbatim>\<open>push_back\<close>, \<^verbatim>\<open>push_front\<close> and \<^verbatim>\<open>insert\<close> when it has to grow, whatever its
  argument refers to, ends by throwing to its caller with the container record exactly
  as it was. In the heap, every block that
  existed before is unchanged, so the elements are the ones they were; the new block, if
  it was obtained, has been released; no element was lost without being destroyed. The
  call ends in a throw and not in undefined behaviour, so nothing was freed twice.
\<close>

theorem growth_failure_leaves_state:
  fixes h :: "'a heap"
  assumes "valid h c"
    and "True \<in> set (take (Suc (unat (sz c))) (faults h))"
  shows "(sz c < n \<and> n \<le> 2 ^ 63 \<longrightarrow>
        (\<exists>e h'. reserve n (h, c) = Throws e (h', c) \<and> same_storage h h'
           \<and> valid h' c \<and> contents h' c = contents h c))
    \<and> (cap_ok c \<and> (sz c = 0 \<or> sz c = cap c - 1) \<longrightarrow>
        (\<exists>e h'. push_back r (h, c) = Throws e (h', c) \<and> same_storage h h'
           \<and> valid h' c \<and> contents h' c = contents h c)
      \<and> (\<exists>e h'. push_front r (h, c) = Throws e (h', c) \<and> same_storage h h'
           \<and> valid h' c \<and> contents h' c = contents h c)
      \<and> (iter_eq pos (begin_cb c) \<or> iter_eq pos (end_cb c) \<or> it_cap pos \<noteq> 0 \<longrightarrow>
          (\<exists>e h'. insert_cb pos r (h, c) = Some (Throws e (h', c)) \<and> same_storage h h'
             \<and> valid h' c \<and> contents h' c = contents h c)))"
proof -
  have keep: "valid h' c \<and> contents h' c = contents h c" if "same_storage h h'" for h'
    using same_storage_block_at [OF that, of "data c"] assms(1)
      valid_heap_cong [of h' c h] contents_heap_cong [of h' c h] by simp
  have r: "\<exists>e h'. reserve n (h, c) = Throws e (h', c) \<and> same_storage h h'
           \<and> valid h' c \<and> contents h' c = contents h c" if "sz c < n" "n \<le> 2 ^ 63"
    using reserve_valid [OF assms(1) that] assms(2) keep by blast
  have b: "\<exists>e h'. push_back r (h, c) = Throws e (h', c) \<and> same_storage h h'
           \<and> valid h' c \<and> contents h' c = contents h c"
    if "cap_ok c" "sz c = 0 \<or> sz c = cap c - 1"
    using push_back_growth_fails [OF assms(1) that assms(2), of r] keep by blast
  have f: "\<exists>e h'. push_front r (h, c) = Throws e (h', c) \<and> same_storage h h'
           \<and> valid h' c \<and> contents h' c = contents h c"
    if "cap_ok c" "sz c = 0 \<or> sz c = cap c - 1"
    using push_front_growth_fails [OF assms(1) that assms(2), of r] keep by blast
  have i: "\<exists>e h'. insert_cb pos r (h, c) = Some (Throws e (h', c)) \<and> same_storage h h'
           \<and> valid h' c \<and> contents h' c = contents h c"
    if "cap_ok c" "sz c = 0 \<or> sz c = cap c - 1"
      "iter_eq pos (begin_cb c) \<or> iter_eq pos (end_cb c) \<or> it_cap pos \<noteq> 0"
    using insert_growth_fails [OF assms(1) that(1,2) assms(2) that(3), of r] keep by blast
  show ?thesis using r b f i by blast
qed

theorem growth_failure_leaves_state_witness:
  "valid \<lparr>blocks = [Some [Some 1, Some 2, Some 3, None :: nat option]],
          faults = [False, False, True], leaked = 0\<rparr>
      \<lparr>sz = 3, cap = 4, data = Some 0, ind_begin = 0, ind_end = 3\<rparr>
   \<and> True \<in> set (take (Suc (unat (sz \<lparr>sz = 3, cap = 4, data = Some 0, ind_begin = 0,
        ind_end = 3\<rparr>))) (faults \<lparr>blocks = [Some [Some 1, Some 2, Some 3, None :: nat option]],
          faults = [False, False, True], leaked = 0\<rparr>))
   \<and> (\<exists>e h'. reserve 8
          (\<lparr>blocks = [Some [Some 1, Some 2, Some 3, None :: nat option]],
            faults = [False, False, True], leaked = 0\<rparr>,
           \<lparr>sz = 3, cap = 4, data = Some 0, ind_begin = 0, ind_end = 3\<rparr>)
        = Throws e (h', \<lparr>sz = 3, cap = 4, data = Some 0, ind_begin = 0, ind_end = 3\<rparr>)
        \<and> same_storage \<lparr>blocks = [Some [Some 1, Some 2, Some 3, None :: nat option]],
            faults = [False, False, True], leaked = 0\<rparr> h')
   \<and> (\<exists>e h'. push_back (Object 4)
          (\<lparr>blocks = [Some [Some 1, Some 2, Some 3, None :: nat option]],
            faults = [False, False, True], leaked = 0\<rparr>,
           \<lparr>sz = 3, cap = 4, data = Some 0, ind_begin = 0, ind_end = 3\<rparr>)
        = Throws e (h', \<lparr>sz = 3, cap = 4, data = Some 0, ind_begin = 0, ind_end = 3\<rparr>)
        \<and> same_storage \<lparr>blocks = [Some [Some 1, Some 2, Some 3, None :: nat option]],
            faults = [False, False, True], leaked = 0\<rparr> h')
   \<and> (\<exists>e h'. insert_cb \<lparr>it_ind = 1, it_cap = 4, it_data = Some 0, it_ind_begin = 0\<rparr> (Object 4)
          (\<lparr>blocks = [Some [Some 1, Some 2, Some 3, None :: nat option]],
            faults = [False, False, True], leaked = 0\<rparr>,
           \<lparr>sz = 3, cap = 4, data = Some 0, ind_begin = 0, ind_end = 3\<rparr>)
        = Some (Throws e (h', \<lparr>sz = 3, cap = 4, data = Some 0, ind_begin = 0, ind_end = 3\<rparr>))
        \<and> same_storage \<lparr>blocks = [Some [Some 1, Some 2, Some 3, None :: nat option]],
            faults = [False, False, True], leaked = 0\<rparr> h')"
proof -
  let ?h = "\<lparr>blocks = [Some [Some 1, Some 2, Some 3, None :: nat option]],
      faults = [False, False, True], leaked = 0\<rparr>"
  let ?c = "\<lparr>sz = 3, cap = 4, data = Some 0, ind_begin = 0, ind_end = 3\<rparr>"
  let ?pos = "\<lparr>it_ind = 1, it_cap = 4, it_data = Some 0, it_ind_begin = 0\<rparr>"
  have v: "valid ?h ?c" by (simp add: valid_def block_at_def live_at_def upt_rec)
  have f: "True \<in> set (take (Suc (unat (sz ?c))) (faults ?h))" by simp
  have n: "sz ?c < 8 \<and> (8 :: size_t) \<le> 2 ^ 63" by simp
  have ok: "cap_ok ?c \<and> (sz ?c = 0 \<or> sz ?c = cap ?c - 1)" by (simp add: cap_ok_def)
  have p: "iter_eq ?pos (begin_cb ?c) \<or> iter_eq ?pos (end_cb ?c) \<or> it_cap ?pos \<noteq> 0"
    by simp
  from growth_failure_leaves_state [OF v f, where n = 8 and r = "Object 4" and pos = ?pos] n ok p
  have "(\<exists>e h'. reserve 8 (?h, ?c) = Throws e (h', ?c) \<and> same_storage ?h h')
    \<and> (\<exists>e h'. push_back (Object 4) (?h, ?c) = Throws e (h', ?c) \<and> same_storage ?h h')
    \<and> (\<exists>e h'. insert_cb ?pos (Object 4) (?h, ?c) = Some (Throws e (h', ?c)) \<and> same_storage ?h h')"
    by blast
  then show ?thesis using v f by blast
qed

text \<open>
  C7, the part the code does not follow. On a default-constructed container \<^verbatim>\<open>front\<close>,
  \<^verbatim>\<open>back\<close>, \<^verbatim>\<open>pop_back\<close>, \<^verbatim>\<open>pop_front\<close> and \<^verbatim>\<open>operator[]\<close> fail their assertion. \<^verbatim>\<open>erase\<close>
  does not: the argument of its assertion, \<^verbatim>\<open>pos.get_pos()\<close>, computes a remainder
  modulo the capacity, which is 0, so \<^verbatim>\<open>erase(begin())\<close> divides by zero before anything
  is compared with the size.
\<close>

theorem erase_unallocated_undefined:
  "erase (begin_cb circular_buffer_new) (h, circular_buffer_new) = Some Undefined
   \<and> erase (end_cb circular_buffer_new) (h, circular_buffer_new) = Some Undefined
   \<and> front (h, circular_buffer_new) = Assertion_failed
   \<and> back_cb (h, circular_buffer_new) = Assertion_failed
   \<and> pop_back (h, circular_buffer_new) = Assertion_failed
   \<and> pop_front (h, circular_buffer_new) = Assertion_failed
   \<and> index i (h, circular_buffer_new) = Assertion_failed"
  by (simp add: erase_def get_pos_def begin_cb_def end_cb_def circular_buffer_new_def
      front_def back_cb_def pop_back_def pop_front_def index_def)

text \<open>
  C3, where the code does not follow it. Three \<^verbatim>\<open>push_back\<close>s on a new container fill
  three of its four slots. \<^verbatim>\<open>insert(begin() + 1, 9)\<close> then takes the front branch, whose
  \<^verbatim>\<open>push_front\<close> finds \<^verbatim>\<open>size == capacity - 1\<close> and moves the elements to a new block.
  The position still points into the old block, so the loop condition \<^verbatim>\<open>it2 != pos\<close>
  stays true, and the walk reaches a slot that holds no element.
\<close>

theorem insert_after_growth_undefined:
  "run [Push_back 1, Push_back 2, Push_back 3]
       (\<lparr>blocks = [], faults = [], leaked = 0\<rparr>, circular_buffer_new)
     = Returns () (\<lparr>blocks = [Some [Some 1, Some 2, Some (3 :: nat), None]], faults = [],
                     leaked = 0\<rparr>,
                   \<lparr>sz = 3, cap = 4, data = Some 0, ind_begin = 0, ind_end = 3\<rparr>)
   \<and> iter_plus (begin_cb \<lparr>sz = 3, cap = 4, data = Some 0, ind_begin = 0, ind_end = 3\<rparr>) 1
     = Some \<lparr>it_ind = 1, it_cap = 4, it_data = Some 0, it_ind_begin = 0\<rparr>
   \<and> push_front (Object 9)
       (\<lparr>blocks = [Some [Some 1, Some 2, Some (3 :: nat), None]], faults = [], leaked = 0\<rparr>,
        \<lparr>sz = 3, cap = 4, data = Some 0, ind_begin = 0, ind_end = 3\<rparr>)
     = Returns () (\<lparr>blocks = [None, Some [Some 1, Some 2, Some 3, None, None, Some 9]],
                     faults = [], leaked = 0\<rparr>,
                   \<lparr>sz = 4, cap = 6, data = Some 1, ind_begin = 5, ind_end = 3\<rparr>)
   \<and> insert_cb \<lparr>it_ind = 1, it_cap = 4, it_data = Some 0, it_ind_begin = 0\<rparr> (Object 9)
       (\<lparr>blocks = [Some [Some 1, Some 2, Some (3 :: nat), None]], faults = [], leaked = 0\<rparr>,
        \<lparr>sz = 3, cap = 4, data = Some 0, ind_begin = 0, ind_end = 3\<rparr>)
     = Some Undefined"
  by code_simp

text \<open>
  C2, where the code does not follow it. After three \<^verbatim>\<open>push_back\<close>s on a new container
  the state is consistent and satisfies invariant 1, with size 3 and capacity 4, and
  \<^verbatim>\<open>begin() + 2\<close> is a valid position. \<^verbatim>\<open>insert(begin() + 2, 9)\<close> takes the back branch,
  whose \<^verbatim>\<open>push_back\<close> finds \<^verbatim>\<open>size == capacity - 1\<close> and moves the elements to a new
  block of 8 slots. The position still points into the old block, so the loop condition
  \<^verbatim>\<open>it2 != pos\<close> stays true: the loop swaps its way down past the first element and
  reads slot 7, which holds no element. The call neither returns nor throws, and leaves
  no state of which invariant 1 could hold.
\<close>

theorem insert_back_branch_undefined:
  "run [Push_back 1, Push_back 2, Push_back 3]
       (\<lparr>blocks = [], faults = [], leaked = 0\<rparr>, circular_buffer_new)
     = Returns () (\<lparr>blocks = [Some [Some 1, Some 2, Some (3 :: nat), None]], faults = [],
                     leaked = 0\<rparr>,
                   \<lparr>sz = 3, cap = 4, data = Some 0, ind_begin = 0, ind_end = 3\<rparr>)
   \<and> invariant1 \<lparr>sz = 3, cap = 4, data = Some 0, ind_begin = 0, ind_end = 3\<rparr>
   \<and> iter_plus (begin_cb \<lparr>sz = 3, cap = 4, data = Some 0, ind_begin = 0, ind_end = 3\<rparr>) 2
     = Some \<lparr>it_ind = 2, it_cap = 4, it_data = Some 0, it_ind_begin = 0\<rparr>
   \<and> get_pos \<lparr>it_ind = 2, it_cap = 4, it_data = Some 0, it_ind_begin = 0\<rparr> = Some 2
   \<and> push_back (Object 9)
       (\<lparr>blocks = [Some [Some 1, Some 2, Some (3 :: nat), None]], faults = [], leaked = 0\<rparr>,
        \<lparr>sz = 3, cap = 4, data = Some 0, ind_begin = 0, ind_end = 3\<rparr>)
     = Returns () (\<lparr>blocks = [None, Some [Some 1, Some 2, Some 3, Some 9, None, None, None,
                      None]], faults = [], leaked = 0\<rparr>,
                   \<lparr>sz = 4, cap = 8, data = Some 1, ind_begin = 0, ind_end = 4\<rparr>)
   \<and> load (Some 1) 7
       \<lparr>blocks = [None, Some [Some 9, Some 1, Some 2, Some (3 :: nat), None, None, None,
          None]], faults = [], leaked = 0\<rparr>
     = None
   \<and> perform (Call_insert \<lparr>it_ind = 2, it_cap = 4, it_data = Some 0, it_ind_begin = 0\<rparr>
          (Object 9))
       (\<lparr>blocks = [Some [Some 1, Some 2, Some (3 :: nat), None]], faults = [], leaked = 0\<rparr>,
        \<lparr>sz = 3, cap = 4, data = Some 0, ind_begin = 0, ind_end = 3\<rparr>)
     = Some Undefined
   \<and> state_after (perform
          (Call_insert \<lparr>it_ind = 2, it_cap = 4, it_data = Some 0, it_ind_begin = 0\<rparr>
             (Object 9))
          (\<lparr>blocks = [Some [Some 1, Some 2, Some (3 :: nat), None]], faults = [], leaked = 0\<rparr>,
           \<lparr>sz = 3, cap = 4, data = Some 0, ind_begin = 0, ind_end = 3\<rparr>))
     = None"
  by code_simp




end
